(* ===== verification/Prelude.thy ===== *)
theory Prelude
  imports Main "HOL-Library.Char_ord" "HOL-Library.List_Lexorder" "HOL-Library.Sublist"
    "HOL-Library.Multiset"
begin

text \<open>
  What every component of the development shares: the Go values the program uses
  (\<open>int64\<close>, \<open>string\<close>, \<open>[]byte\<close>, \<open>error\<close>), the selection of a first row under an
  ordering, and the lemma collections that carry the proofs.

  A Go \<open>string\<close> is a sequence of bytes and is compared byte by byte, which is the
  lexicographic order on \<open>char list\<close>.  A \<open>[]byte\<close> is \<open>None\<close> when it is \<open>nil\<close>,
  because the program tells a \<open>nil\<close> slice from an empty one.
\<close>

named_theorems call_simps \<open>one call to the database, unfolded\<close>
named_theorems row_simps \<open>rows and the values scanned from them\<close>

type_synonym bytes = "string option"

section \<open>Machine integers\<close>

text \<open>An \<open>int64\<close> is an \<open>int\<close>; arithmetic that may leave the range is wrapped here.\<close>

definition wrap64 :: "int \<Rightarrow> int" where
  "wrap64 x = (x + 2 ^ 63) mod 2 ^ 64 - 2 ^ 63"

definition in_int64 :: "int \<Rightarrow> bool" where
  "in_int64 x \<longleftrightarrow> - (2 ^ 63) \<le> x \<and> x < 2 ^ 63"

lemma wrap64_id: "in_int64 x \<Longrightarrow> wrap64 x = x"
  by (simp add: in_int64_def wrap64_def)

lemma wrap64_range: "in_int64 (wrap64 x)"
  using pos_mod_bound [of "2 ^ 64" "x + 2 ^ 63"] pos_mod_sign [of "2 ^ 64" "x + 2 ^ 63"]
  by (simp add: in_int64_def wrap64_def)

text \<open>The exponent of the largest power of two below a number, for the rounding of a \<open>float64\<close>.\<close>

fun log2_int :: "nat \<Rightarrow> nat" where
  "log2_int n = (if n < 2 then 0 else Suc (log2_int (n div 2)))"

declare log2_int.simps [simp del]

lemma log2_int_le: "0 < n \<Longrightarrow> 2 ^ log2_int n \<le> n"
proof (induction n rule: log2_int.induct)
  case (1 n)
  show ?case
  proof (cases "n < 2")
    case True
    with 1 show ?thesis by (simp add: log2_int.simps)
  next
    case False
    with 1(1) have "2 ^ log2_int (n div 2) \<le> n div 2" by simp
    with False show ?thesis by (subst log2_int.simps) simp
  qed
qed

section \<open>Errors\<close>

text \<open>
  Go errors: the sentinel errors of \<open>pkg/store\<close> and of \<open>context\<close>, a gRPC status, an error wrapped by
  \<open>fmt.Errorf\<close> with the verb \<open>w\<close>, and a plain \<open>fmt.Errorf\<close> error.
\<close>

datatype grpc_code =
    Canceled | InvalidArgument | DeadlineExceeded | NotFound | AlreadyExists
  | PermissionDenied | FailedPrecondition | Aborted | OutOfRange | Internal
  | Unavailable | Unauthenticated

datatype goerr =
    ErrKeyNotFound | ErrKeyExists | ErrRevisionMismatch | ErrCompacted
  | ContextCanceled | ContextDeadlineExceeded
  | Status grpc_code string
  | Wrapped string goerr
  | Errorf string

text \<open>\<open>errors.Is\<close>: the target is somewhere in the chain of wrapped errors.\<close>

fun errors_Is :: "goerr \<Rightarrow> goerr \<Rightarrow> bool" where
  "errors_Is (Wrapped s e) t = (Wrapped s e = t \<or> errors_Is e t)"
| "errors_Is e t = (e = t)"

text \<open>\<open>spanner.ErrCode\<close>: the code of the gRPC status in the chain, if there is one.\<close>

fun ErrCode :: "goerr \<Rightarrow> grpc_code option" where
  "ErrCode (Status c s) = Some c"
| "ErrCode (Wrapped s e) = ErrCode e"
| "ErrCode e = None"

section \<open>Strings\<close>

definition HasPrefix :: "string \<Rightarrow> string \<Rightarrow> bool" where
  "HasPrefix s p = (take (length p) s = p)"

definition HasSuffix :: "string \<Rightarrow> string \<Rightarrow> bool" where
  "HasSuffix s p = (length p \<le> length s \<and> drop (length s - length p) s = p)"

definition TrimPrefix :: "string \<Rightarrow> string \<Rightarrow> string" where
  "TrimPrefix s p = (if HasPrefix s p then drop (length p) s else s)"

definition TrimSuffix :: "string \<Rightarrow> string \<Rightarrow> string" where
  "TrimSuffix s p = (if HasSuffix s p then take (length s - length p) s else s)"

text \<open>The conversion \<open>string(b)\<close> of a byte slice.\<close>

definition bytes_string :: "bytes \<Rightarrow> string" where
  "bytes_string b = (case b of None \<Rightarrow> [] | Some s \<Rightarrow> s)"

lemma HasPrefix_iff: "HasPrefix s p \<longleftrightarrow> prefix p s"
  unfolding HasPrefix_def prefix_def by (metis append_eq_conv_conj)

lemma HasPrefix_Nil [simp]: "HasPrefix s []"
  by (simp add: HasPrefix_def)

section \<open>The first row of an ordered selection\<close>

text \<open>\<open>ORDER BY f ASC LIMIT 1\<close>.\<close>

definition first_by :: "('a \<Rightarrow> 'b::linorder) \<Rightarrow> 'a list \<Rightarrow> 'a option" where
  "first_by f xs = (case sort_key f xs of [] \<Rightarrow> None | x # _ \<Rightarrow> Some x)"

lemma sort_key_eq_Nil: "sort_key f xs = [] \<longleftrightarrow> xs = []"
  by (metis length_0_conv length_sort)

lemma first_by_None [simp]: "first_by f xs = None \<longleftrightarrow> xs = []"
  using sort_key_eq_Nil [of f xs] by (auto simp: first_by_def split: list.splits)

lemma first_by_Nil [simp]: "first_by f [] = None"
  by simp

lemma first_by_SomeD:
  assumes "first_by f xs = Some x"
  shows "x \<in> set xs" and "\<And>y. y \<in> set xs \<Longrightarrow> f x \<le> f y"
proof -
  from assms obtain ys where s: "sort_key f xs = x # ys"
    by (auto simp: first_by_def split: list.splits)
  have "set (sort_key f xs) = set xs" by simp
  with s show "x \<in> set xs" by auto
  have "sorted (map f (sort_key f xs))" by simp
  with s have "\<forall>y \<in> set ys. f x \<le> f y" by simp
  moreover fix y assume "y \<in> set xs"
  then have "y \<in> set (x # ys)" using s by (metis set_sort)
  ultimately show "f x \<le> f y" by auto
qed

lemma first_by_eqI:
  assumes "x \<in> set xs" and "\<And>y. y \<in> set xs \<Longrightarrow> y \<noteq> x \<Longrightarrow> f x < f y"
  shows "first_by f xs = Some x"
proof (cases "first_by f xs")
  case None
  with assms(1) show ?thesis by auto
next
  case (Some z)
  with first_by_SomeD [OF Some] assms show ?thesis by (metis not_less)
qed

end
