(* ===== verification/Spanner.thy ===== *)
theory Spanner
  imports Prelude
begin

text \<open>
  The Spanner database as the program sees it.  The tables are those of the DDL in
  \<open>pkg/schema/schema.go\<close>; the SQL statements embedded in \<open>pkg/store\<close> are translated
  in the theories of their functions, over the operators of this one.

  Everything Spanner itself decides is a parameter: a \<open>call_env\<close> says, for one call of
  the client library, what other clients committed before it, which statement fails, on
  which snapshots the callback of a read-write transaction ran and was aborted, whether
  the commit went through (or went through with its answer lost), which commit timestamp
  it got and which row ids the sequence handed out.  A \<open>world\<close> is the database, the
  environment of the calls to come and the watcher's notification channel.
\<close>

section \<open>Tables\<close>

text \<open>A \<open>TIMESTAMP\<close> is its number of nanoseconds since the Unix epoch.\<close>

record kv_row =
  r_id :: int
  r_rev :: int
  r_key :: string
  r_value :: bytes
  r_old_value :: bytes
  r_lease_id :: int
  r_deleted :: bool
  r_created :: bool
  r_create_revision :: "int option"
  r_prev_revision :: "int option"

record lease_row =
  l_lease_id :: int
  l_ttl_sec :: int
  l_granted_at :: int

record cursor_row =
  c_replica_id :: string
  c_partition_token :: string
  c_resume_timestamp :: int
  c_updated_at :: int

record database =
  kv :: "kv_row list"
  kv_rev :: "int \<rightharpoonup> int"
  kv_lease :: "lease_row list"
  kv_cs_cursors :: "cursor_row list"

definition CompactRevRow :: int where
  "CompactRevRow = 1"

section \<open>Mutations\<close>

datatype ts_cell = CommitTimestamp | TS int | NullTS

datatype mutation =
    InsertKV ts_cell string bytes bytes int bool bool ts_cell ts_cell
  | DeleteKV int
  | InsertKvRev int int
  | InsertOrUpdateKvRev int int
  | InsertLease int int ts_cell
  | DeleteLease int
  | InsertOrUpdateCursor string string int ts_cell

fun ts_value :: "int \<Rightarrow> ts_cell \<Rightarrow> int option" where
  "ts_value ts CommitTimestamp = Some ts"
| "ts_value ts (TS t) = Some t"
| "ts_value ts NullTS = None"

text \<open>
  An insert whose primary key is taken, or with \<open>NULL\<close> in a \<open>NOT NULL\<close> column, fails.
\<close>

fun apply_mutation :: "int \<Rightarrow> int \<Rightarrow> mutation \<Rightarrow> database \<Rightarrow> database option" where
  "apply_mutation ts i (InsertKV rv key val old lease del crt crev prev) db =
     (case ts_value ts rv of
        None \<Rightarrow> None
      | Some t \<Rightarrow>
          if i \<in> r_id ` set (kv db) then None
          else Some (db\<lparr>kv := kv db @
            [\<lparr>r_id = i, r_rev = t, r_key = key, r_value = val, r_old_value = old,
              r_lease_id = lease, r_deleted = del, r_created = crt,
              r_create_revision = ts_value ts crev,
              r_prev_revision = ts_value ts prev\<rparr>]\<rparr>))"
| "apply_mutation ts i (DeleteKV rid) db =
     Some (db\<lparr>kv := filter (\<lambda>r. r_id r \<noteq> rid) (kv db)\<rparr>)"
| "apply_mutation ts i (InsertKvRev rid t) db =
     (if rid \<in> dom (kv_rev db) then None else Some (db\<lparr>kv_rev := (kv_rev db)(rid \<mapsto> t)\<rparr>))"
| "apply_mutation ts i (InsertOrUpdateKvRev rid t) db =
     Some (db\<lparr>kv_rev := (kv_rev db)(rid \<mapsto> t)\<rparr>)"
| "apply_mutation ts i (InsertLease lid ttl granted) db =
     (case ts_value ts granted of
        None \<Rightarrow> None
      | Some g \<Rightarrow>
          if lid \<in> l_lease_id ` set (kv_lease db) then None
          else Some (db\<lparr>kv_lease := kv_lease db @
            [\<lparr>l_lease_id = lid, l_ttl_sec = ttl, l_granted_at = g\<rparr>]\<rparr>))"
| "apply_mutation ts i (DeleteLease lid) db =
     Some (db\<lparr>kv_lease := filter (\<lambda>l. l_lease_id l \<noteq> lid) (kv_lease db)\<rparr>)"
| "apply_mutation ts i (InsertOrUpdateCursor rid tok res upd) db =
     (case ts_value ts upd of
        None \<Rightarrow> None
      | Some u \<Rightarrow>
          Some (db\<lparr>kv_cs_cursors :=
            filter (\<lambda>c. \<not> (c_replica_id c = rid \<and> c_partition_token c = tok)) (kv_cs_cursors db) @
            [\<lparr>c_replica_id = rid, c_partition_token = tok, c_resume_timestamp = res,
              c_updated_at = u\<rparr>]\<rparr>))"

text \<open>The mutations of one commit, all or nothing; the i-th row inserted gets the i-th id.\<close>

fun apply_mutations :: "int \<Rightarrow> (nat \<Rightarrow> int) \<Rightarrow> mutation list \<Rightarrow> database \<Rightarrow> database option" where
  "apply_mutations ts ids [] db = Some db"
| "apply_mutations ts ids (m # ms) db =
     (case apply_mutation ts (ids 0) m db of
        None \<Rightarrow> None
      | Some db' \<Rightarrow> apply_mutations ts (\<lambda>i. ids (Suc i)) ms db')"

section \<open>Calls\<close>

text \<open>The statements the program runs, to say which of them fails.\<close>

datatype query =
    QCurrentRevision | QCompactRev | QMaxRev
  | QGet string | QList string | QCount string | QAfter string
  | QKeyExists string | QLatest string
  | QCompactBatch | QLeaseKeys int nat | QLeases nat | QCursors string | QChangeStream string

record txn =
  t_db :: database
  t_err :: "query \<Rightarrow> goerr option"

datatype commit_fate = Committed | NotCommitted goerr | Unknown goerr

record call_env =
  ce_other :: "database \<Rightarrow> database"
  ce_err :: "query \<Rightarrow> goerr option"
  ce_aborted :: "txn list"
  ce_fate :: commit_fate
  ce_ts :: int
  ce_id :: "nat \<Rightarrow> int"

record world =
  w_db :: database
  w_env :: "nat \<Rightarrow> call_env"
  w_pos :: nat
  w_notifyCh :: "int list"

definition spanner_call :: "world \<Rightarrow> call_env \<times> world" where
  "spanner_call w =
     (let c = w_env w (w_pos w)
      in (c, w\<lparr>w_db := ce_other c (w_db w), w_pos := Suc (w_pos w)\<rparr>))"

text \<open>\<open>client.Single()\<close>: one statement on a strong snapshot.\<close>

definition single :: "query \<Rightarrow> (database \<Rightarrow> 'a) \<Rightarrow> world \<Rightarrow> (goerr + 'a) \<times> world" where
  "single q f w =
     (let (c, w1) = spanner_call w
      in (case ce_err c q of
            Some e \<Rightarrow> (Inl e, w1)
          | None \<Rightarrow> (Inr (f (w_db w1)), w1)))"

text \<open>
  A statement whose rows are used while they arrive: the query with the number \<open>n\<close> fails
  when the call of \<open>Next\<close> after \<open>n\<close> rows does.
\<close>

fun scan :: "(nat \<Rightarrow> goerr option) \<Rightarrow> nat \<Rightarrow> 'a list \<Rightarrow> 'a list \<times> goerr option" where
  "scan f n [] = ([], f n)"
| "scan f n (y # ys) =
     (case f n of
        Some e \<Rightarrow> ([], Some e)
      | None \<Rightarrow> (let (zs, e) = scan f (Suc n) ys in (y # zs, e)))"

definition stream_rows :: "(nat \<Rightarrow> query) \<Rightarrow> (database \<Rightarrow> 'a list) \<Rightarrow> world
    \<Rightarrow> ('a list \<times> goerr option) \<times> world" where
  "stream_rows q f w =
     (let (c, w1) = spanner_call w in (scan (\<lambda>n. ce_err c (q n)) 0 (f (w_db w1)), w1))"

lemma scan_ok: "(\<And>n. f n = None) \<Longrightarrow> scan f n xs = (xs, None)"
  by (induction xs arbitrary: n) simp_all

lemma scan_done: "scan f n xs = (ys, None) \<Longrightarrow> ys = xs"
  by (induction xs arbitrary: n ys) (auto split: option.splits prod.splits)

lemma scan_prefix: "scan f n xs = (ys, e) \<Longrightarrow> prefix ys xs"
  by (induction xs arbitrary: n ys) (auto split: option.splits prod.splits)

text \<open>A statement inside a read-write transaction.\<close>

definition txn_read :: "txn \<Rightarrow> query \<Rightarrow> (database \<Rightarrow> 'a) \<Rightarrow> goerr + 'a" where
  "txn_read t q f = (case t_err t q of Some e \<Rightarrow> Inl e | None \<Rightarrow> Inr (f (t_db t)))"

definition AlreadyExistsErr :: goerr where
  "AlreadyExistsErr = Status AlreadyExists ''Row already exists''"

text \<open>The commit of a list of mutations, with the answer the client sees.\<close>

definition commit :: "call_env \<Rightarrow> mutation list \<Rightarrow> world \<Rightarrow> (goerr + int) \<times> world" where
  "commit c ms w =
     (case apply_mutations (ce_ts c) (ce_id c) ms (w_db w) of
        None \<Rightarrow> (Inl AlreadyExistsErr, w)
      | Some db' \<Rightarrow>
          (case ce_fate c of
             Committed \<Rightarrow> (Inr (ce_ts c), w\<lparr>w_db := db'\<rparr>)
           | NotCommitted e \<Rightarrow> (Inl e, w)
           | Unknown e \<Rightarrow> (Inl e, w\<lparr>w_db := db'\<rparr>)))"

text \<open>
  \<open>client.ReadWriteTransaction\<close>.  The callback gets the variables it captures and
  returns them with its error or its buffered mutations.  Spanner may run it on other
  snapshots first and abort these attempts: their mutations are dropped, what they did to
  the captured variables stays.  An error of the callback is returned as it is.
\<close>

definition read_write :: "('v \<Rightarrow> txn \<Rightarrow> (goerr + mutation list) \<times> 'v) \<Rightarrow> 'v \<Rightarrow> world
    \<Rightarrow> (goerr + int) \<times> 'v \<times> world" where
  "read_write cb v w =
     (let (c, w1) = spanner_call w;
          v1 = fold (\<lambda>t u. snd (cb u t)) (ce_aborted c) v;
          (r, v2) = cb v1 \<lparr>t_db = w_db w1, t_err = ce_err c\<rparr>
      in (case r of
            Inl e \<Rightarrow> (Inl e, v2, w1)
          | Inr ms \<Rightarrow> (let (res, w2) = commit c ms w1 in (res, v2, w2))))"

text \<open>\<open>client.Apply\<close>: blind mutations.\<close>

definition apply_call :: "mutation list \<Rightarrow> world \<Rightarrow> (goerr + int) \<times> world" where
  "apply_call ms w = (let (c, w1) = spanner_call w in commit c ms w1)"

section \<open>The LIKE operator\<close>

text \<open>
  A percent sign matches any sequence of characters, an underscore one character, and a
  backslash quotes the next one.  Keys are UTF-8, so one character is a byte with the
  continuation bytes that follow it.
\<close>

definition is_cont :: "char \<Rightarrow> bool" where
  "is_cont c \<longleftrightarrow> 128 \<le> (of_char c :: nat) \<and> (of_char c :: nat) < 192"

definition drop_char :: "string \<Rightarrow> string" where
  "drop_char s = dropWhile is_cont (tl s)"

lemma length_drop_char [termination_simp]: "s \<noteq> [] \<Longrightarrow> length (drop_char s) < length s"
  by (cases s) (simp_all add: drop_char_def length_dropWhile_le less_Suc_eq_le)

function like :: "string \<Rightarrow> string \<Rightarrow> bool" where
  "like [] s = (s = [])"
| "like (p # ps) s =
     (if p = CHR ''%'' then like ps s \<or> (if s = [] then False else like (p # ps) (drop_char s))
      else if s = [] then False
      else if p = CHR ''_'' then like ps (drop_char s)
      else if p = CHR 0x5C then
        (case ps of [] \<Rightarrow> False | q # qs \<Rightarrow> hd s = q \<and> like qs (tl s))
      else hd s = p \<and> like ps (tl s))"
  by pat_completeness auto
termination
  by (relation "measure (\<lambda>(p, s). length p + length s)")
     (auto simp: length_drop_char less_SucI)

declare like.simps [simp del]

lemma like_percent: "like ''%'' s"
proof (induction s rule: length_induct)
  case (1 s)
  show ?case
  proof (cases "s = []")
    case True
    then show ?thesis by (simp add: like.simps)
  next
    case False
    with 1 have "like ''%'' (drop_char s)" by (simp add: length_drop_char)
    with False show ?thesis by (subst like.simps) simp
  qed
qed

definition like_literal :: "string \<Rightarrow> bool" where
  "like_literal p \<longleftrightarrow> CHR ''%'' \<notin> set p \<and> CHR ''_'' \<notin> set p \<and> CHR 0x5C \<notin> set p"

lemma like_literal_prefix: "like_literal p \<Longrightarrow> like (p @ ''%'') s \<longleftrightarrow> prefix p s"
proof (induction p arbitrary: s)
  case Nil
  then show ?case by (simp add: like_percent)
next
  case (Cons c p)
  then have "like_literal p" by (simp add: like_literal_def)
  with Cons show ?case
    by (cases s) (auto simp: like.simps(2) [of c "p @ ''%''"] like_literal_def)
qed

end
