(* ===== verification/Store.thy ===== *)
theory Store
  imports Spanner
begin

text \<open>
  \<open>pkg/store/store.go\<close>: the data of the store, its reads (\<open>CurrentRevision\<close>, \<open>Get\<close>,
  \<open>List\<close>, \<open>Count\<close>, \<open>After\<close>) and its single-key writes (\<open>Create\<close>, \<open>Update\<close>,
  \<open>Delete\<close>, \<open>DeleteIfLease\<close>).  A Go function that returns \<open>(x, y, err)\<close> returns the
  tuple here, with \<open>None\<close> for a \<open>nil\<close> error and the world after its calls at the end.
  Metrics and log lines have no effect on the results and are left out.
\<close>

section \<open>Data\<close>

record KV =
  Key :: string
  Value :: bytes
  OldValue :: bytes
  LeaseID :: int
  Deleted :: bool
  Created :: bool
  Rev :: int
  CreateRevision :: int
  PrevRevision :: int

datatype EventType = EventPut | EventDelete

record Event =
  ev_KV :: KV
  ev_Type :: EventType

section \<open>Revisions and rows\<close>

definition UnixNano :: "int \<Rightarrow> int" where
  "UnixNano ts = wrap64 ts"

definition tsToRev :: "int \<Rightarrow> int" where
  "tsToRev ts = (let n = UnixNano ts in if n \<le> 0 then 1 else n)"

definition revToTS :: "int \<Rightarrow> int" where
  "revToTS revision = (if revision \<le> 1 then 1 else revision)"

definition revCap :: "int \<Rightarrow> int \<Rightarrow> int" where
  "revCap revision currentRev = (if revision > 0 then revision else currentRev)"

definition likePrefix :: "string \<Rightarrow> string" where
  "likePrefix p = p @ ''%''"

definition limitClause :: "int \<Rightarrow> 'a list \<Rightarrow> 'a list" where
  "limitClause limit xs = (if limit \<le> 0 then xs else take (nat limit) xs)"

definition scanKV :: "kv_row \<Rightarrow> KV" where
  "scanKV r =
     \<lparr>Key = r_key r, Value = r_value r, OldValue = r_old_value r, LeaseID = r_lease_id r,
      Deleted = r_deleted r, Created = r_created r, Rev = tsToRev (r_rev r),
      CreateRevision = (case r_create_revision r of None \<Rightarrow> 0 | Some t \<Rightarrow> tsToRev t),
      PrevRevision = (case r_prev_revision r of None \<Rightarrow> 0 | Some t \<Rightarrow> tsToRev t)\<rparr>"

text \<open>\<open>Watcher.notify\<close>: a non-blocking send on a channel of 1024 entries.\<close>

definition notify :: "int \<Rightarrow> world \<Rightarrow> world" where
  "notify rv w =
     (if length (w_notifyCh w) < 1024 then w\<lparr>w_notifyCh := w_notifyCh w @ [rv]\<rparr> else w)"

section \<open>The statements\<close>

definition newest :: "kv_row list \<Rightarrow> kv_row option" where
  "newest rows = first_by (\<lambda>r. - r_rev r) rows"

definition select_latest :: "string \<Rightarrow> database \<Rightarrow> kv_row option" where
  "select_latest key db = newest (filter (\<lambda>r. r_key r = key) (kv db))"

definition select_as_of :: "string \<Rightarrow> int \<Rightarrow> database \<Rightarrow> kv_row option" where
  "select_as_of key cap db = newest (filter (\<lambda>r. r_key r = key \<and> r_rev r \<le> cap) (kv db))"

text \<open>\<open>SELECT key, MAX(rev) \<dots> GROUP BY key\<close>.\<close>

definition group_max :: "kv_row list \<Rightarrow> (string \<times> int) list" where
  "group_max rows =
     map (\<lambda>k. (k, Max (r_rev ` set (filter (\<lambda>r. r_key r = k) rows)))) (remdups (map r_key rows))"

text \<open>\<open>kv INNER JOIN latest ON kv.key = latest.key AND kv.rev = latest.max_rev\<close>.\<close>

definition join_latest :: "kv_row list \<Rightarrow> (string \<times> int) list \<Rightarrow> kv_row list" where
  "join_latest rows latest =
     concat (map (\<lambda>r. map (\<lambda>_. r) (filter (\<lambda>(k, m). r_key r = k \<and> r_rev r = m) latest)) rows)"

definition live_at :: "string \<Rightarrow> string \<Rightarrow> int \<Rightarrow> database \<Rightarrow> kv_row list" where
  "live_at pattern start_key cap db =
     filter (\<lambda>r. \<not> r_deleted r)
       (join_latest (kv db)
         (group_max (filter (\<lambda>r. like pattern (r_key r) \<and> start_key \<le> r_key r \<and> r_rev r \<le> cap)
           (kv db))))"

definition select_list :: "string \<Rightarrow> string \<Rightarrow> int \<Rightarrow> int \<Rightarrow> database \<Rightarrow> kv_row list" where
  "select_list pattern start_key cap limit db =
     limitClause limit (sort_key r_key (live_at pattern start_key cap db))"

definition select_count :: "string \<Rightarrow> string \<Rightarrow> int \<Rightarrow> database \<Rightarrow> int" where
  "select_count pattern start_key cap db = int (length (live_at pattern start_key cap db))"

definition select_after :: "string \<Rightarrow> int \<Rightarrow> int \<Rightarrow> database \<Rightarrow> kv_row list" where
  "select_after pattern after limit db =
     limitClause limit
       (sort_key r_rev (filter (\<lambda>r. like pattern (r_key r) \<and> after < r_rev r) (kv db)))"

section \<open>Reads\<close>

definition Store_CurrentRevision :: "world \<Rightarrow> int \<times> goerr option \<times> world" where
  "Store_CurrentRevision w =
     (case single QCurrentRevision (\<lambda>db. newest (kv db)) w of
        (Inl e, w1) \<Rightarrow> (0, Some (Wrapped ''current revision'' e), w1)
      | (Inr None, w1) \<Rightarrow> (1, None, w1)
      | (Inr (Some r), w1) \<Rightarrow>
          (let rv = tsToRev (r_rev r) in if rv \<le> 1 then (1, None, w1) else (rv, None, w1)))"

definition Store_compactRevision :: "world \<Rightarrow> int \<times> goerr option \<times> world" where
  "Store_compactRevision w =
     (case single QCompactRev (\<lambda>db. kv_rev db CompactRevRow) w of
        (Inl e, w1) \<Rightarrow> if ErrCode e = Some NotFound then (1, None, w1) else (0, Some e, w1)
      | (Inr None, w1) \<Rightarrow> (1, None, w1)
      | (Inr (Some ts), w1) \<Rightarrow> (tsToRev ts, None, w1))"

definition Store_Get :: "string \<Rightarrow> int \<Rightarrow> world \<Rightarrow> int \<times> KV option \<times> goerr option \<times> world" where
  "Store_Get key revision w =
     (case Store_CurrentRevision w of
        (_, Some e, w1) \<Rightarrow> (0, None, Some e, w1)
      | (currentRev, None, w1) \<Rightarrow>
          (let (early, w2) =
             (if revision > 0 then
                (case Store_compactRevision w1 of
                   (_, Some e, w2) \<Rightarrow> (Some (0, Wrapped ''get compact revision'' e), w2)
                 | (compactRev, None, w2) \<Rightarrow>
                     (if compactRev > 1 \<and> revision \<le> compactRev
                      then Some (currentRev, ErrCompacted) else None, w2))
              else (None, w1))
           in (case early of
                 Some (rv, e) \<Rightarrow> (rv, None, Some e, w2)
               | None \<Rightarrow>
                   (let capTS = revToTS (revCap revision currentRev)
                    in (case single (QGet key) (select_as_of key capTS) w2 of
                          (Inl e, w3) \<Rightarrow> (0, None, Some (Wrapped (''get '' @ key) e), w3)
                        | (Inr None, w3) \<Rightarrow> (currentRev, None, None, w3)
                        | (Inr (Some r), w3) \<Rightarrow>
                            (if Deleted (scanKV r) then (currentRev, None, None, w3)
                             else (currentRev, Some (scanKV r), None, w3)))))))"

definition Store_List :: "string \<Rightarrow> string \<Rightarrow> int \<Rightarrow> int \<Rightarrow> world
    \<Rightarrow> int \<times> int \<times> KV list \<times> goerr option \<times> world" where
  "Store_List p startKey limit revision w =
     (case Store_CurrentRevision w of
        (_, Some e, w1) \<Rightarrow> (0, 0, [], Some e, w1)
      | (currentRev, None, w1) \<Rightarrow>
          (let capTS = revToTS (revCap revision currentRev)
           in (case Store_compactRevision w1 of
                 (_, Some e, w2) \<Rightarrow> (0, 0, [], Some e, w2)
               | (compactRev, None, w2) \<Rightarrow>
                   if compactRev > 1 \<and> revision > 0 \<and> revision \<le> compactRev
                   then (currentRev, compactRev, [], Some ErrCompacted, w2)
                   else
                     (case single (QList p) (select_list (likePrefix p) startKey capTS limit) w2 of
                        (Inl e, w3) \<Rightarrow> (0, 0, [], Some (Wrapped (''list '' @ p) e), w3)
                      | (Inr rows, w3) \<Rightarrow> (currentRev, compactRev, map scanKV rows, None, w3)))))"

definition Store_Count :: "string \<Rightarrow> string \<Rightarrow> int \<Rightarrow> world
    \<Rightarrow> int \<times> int \<times> goerr option \<times> world" where
  "Store_Count p startKey revision w =
     (case Store_CurrentRevision w of
        (_, Some e, w1) \<Rightarrow> (0, 0, Some e, w1)
      | (currentRev, None, w1) \<Rightarrow>
          (let (early, w2) =
             (if revision > 0 then
                (case Store_compactRevision w1 of
                   (_, Some e, w2) \<Rightarrow> (Some (0, Wrapped ''get compact revision'' e), w2)
                 | (compactRev, None, w2) \<Rightarrow>
                     (if compactRev > 1 \<and> revision \<le> compactRev
                      then Some (currentRev, ErrCompacted) else None, w2))
              else (None, w1))
           in (case early of
                 Some (rv, e) \<Rightarrow> (rv, 0, Some e, w2)
               | None \<Rightarrow>
                   (let capTS = revToTS (revCap revision currentRev)
                    in (case single (QCount p) (select_count (likePrefix p) startKey capTS) w2 of
                          (Inl e, w3) \<Rightarrow> (0, 0, Some (Wrapped (''count '' @ p) e), w3)
                        | (Inr n, w3) \<Rightarrow> (currentRev, n, None, w3))))))"

definition rowEvent :: "kv_row \<Rightarrow> Event" where
  "rowEvent r =
     \<lparr>ev_KV = scanKV r, ev_Type = (if Deleted (scanKV r) then EventDelete else EventPut)\<rparr>"

definition Store_After :: "string \<Rightarrow> int \<Rightarrow> int \<Rightarrow> world
    \<Rightarrow> int \<times> Event list \<times> goerr option \<times> world" where
  "Store_After p afterRev limit w =
     (case Store_CurrentRevision w of
        (_, Some e, w1) \<Rightarrow> (0, [], Some e, w1)
      | (currentRev, None, w1) \<Rightarrow>
          (let (early, w2) =
             (if afterRev > 0 then
                (case Store_compactRevision w1 of
                   (_, Some e, w2) \<Rightarrow> (Some (0, Wrapped ''get compact revision'' e), w2)
                 | (compactRev, None, w2) \<Rightarrow>
                     (if afterRev < compactRev then Some (currentRev, ErrCompacted) else None, w2))
              else (None, w1))
           in (case early of
                 Some (rv, e) \<Rightarrow> (rv, [], Some e, w2)
               | None \<Rightarrow>
                   (let afterTS = revToTS afterRev
                    in (case single (QAfter p) (select_after (likePrefix p) afterTS limit) w2 of
                          (Inl e, w3) \<Rightarrow> (0, [], Some (Wrapped (''after '' @ p) e), w3)
                        | (Inr rows, w3) \<Rightarrow> (currentRev, map rowEvent rows, None, w3))))))"

section \<open>Writes\<close>

definition keyExistsTxn :: "txn \<Rightarrow> string \<Rightarrow> goerr + bool" where
  "keyExistsTxn t key =
     (case txn_read t (QKeyExists key) (select_latest key) of
        Inl e \<Rightarrow> Inl e
      | Inr None \<Rightarrow> Inr False
      | Inr (Some r) \<Rightarrow> Inr (\<not> r_deleted r))"

definition getLatestTxn :: "txn \<Rightarrow> string \<Rightarrow> goerr + KV option" where
  "getLatestTxn t key =
     (case txn_read t (QLatest key) (select_latest key) of
        Inl e \<Rightarrow> Inl e
      | Inr None \<Rightarrow> Inr None
      | Inr (Some r) \<Rightarrow> Inr (if Deleted (scanKV r) then None else Some (scanKV r)))"

definition createTxn :: "string \<Rightarrow> bytes \<Rightarrow> int \<Rightarrow> unit \<Rightarrow> txn \<Rightarrow> (goerr + mutation list) \<times> unit" where
  "createTxn key val leaseID u t =
     (case keyExistsTxn t key of
        Inl e \<Rightarrow> (Inl e, ())
      | Inr True \<Rightarrow> (Inl ErrKeyExists, ())
      | Inr False \<Rightarrow>
          (Inr [InsertKV CommitTimestamp key val None leaseID False True CommitTimestamp NullTS], ()))"

definition Store_Create :: "string \<Rightarrow> bytes \<Rightarrow> int \<Rightarrow> world \<Rightarrow> int \<times> goerr option \<times> world" where
  "Store_Create key val leaseID w =
     (case read_write (createTxn key val leaseID) () w of
        (Inl e, _, w1) \<Rightarrow> (0, Some e, w1)
      | (Inr commitTS, _, w1) \<Rightarrow>
          (let rv = tsToRev commitTS in (rv, None, notify rv w1)))"

text \<open>The captured variable of the callback is \<open>prev\<close>.\<close>

definition updateTxn :: "string \<Rightarrow> bytes \<Rightarrow> int \<Rightarrow> int \<Rightarrow> KV option \<Rightarrow> txn
    \<Rightarrow> (goerr + mutation list) \<times> KV option" where
  "updateTxn key val revision leaseID prev0 t =
     (case getLatestTxn t key of
        Inl e \<Rightarrow> (Inl e, None)
      | Inr None \<Rightarrow> (Inl ErrKeyNotFound, None)
      | Inr (Some prev) \<Rightarrow>
          (if Rev prev \<noteq> revision then (Inl ErrRevisionMismatch, Some prev)
           else (Inr [InsertKV CommitTimestamp key val (Value prev) leaseID False False
                       (TS (revToTS (CreateRevision prev))) (TS (revToTS (Rev prev)))],
                 Some prev)))"

definition Store_Update :: "string \<Rightarrow> bytes \<Rightarrow> int \<Rightarrow> int \<Rightarrow> world
    \<Rightarrow> int \<times> KV option \<times> bool \<times> goerr option \<times> world" where
  "Store_Update key val revision leaseID w =
     (case read_write (updateTxn key val revision leaseID) None w of
        (Inl e, prev, w1) \<Rightarrow>
          (if errors_Is e ErrRevisionMismatch \<or> errors_Is e ErrKeyNotFound
           then (let (curRev, _, w2) = Store_CurrentRevision w1 in (curRev, prev, False, None, w2))
           else (0, None, False, Some e, w1))
      | (Inr commitTS, prev, w1) \<Rightarrow>
          (let rv = tsToRev commitTS in (rv, prev, True, None, notify rv w1)))"

text \<open>The mutation that writes a tombstone over the row \<open>prev\<close>.\<close>

definition tombstone :: "string \<Rightarrow> KV \<Rightarrow> mutation" where
  "tombstone key prev =
     InsertKV CommitTimestamp key None (Value prev) 0 True False
       (TS (revToTS (CreateRevision prev))) (TS (revToTS (Rev prev)))"

definition deleteIfLeaseTxn :: "string \<Rightarrow> int \<Rightarrow> bool \<Rightarrow> txn \<Rightarrow> (goerr + mutation list) \<times> bool" where
  "deleteIfLeaseTxn key leaseID deleted0 t =
     (case getLatestTxn t key of
        Inl e \<Rightarrow> (Inl e, deleted0)
      | Inr None \<Rightarrow> (Inr [], False)
      | Inr (Some prev) \<Rightarrow>
          (if LeaseID prev \<noteq> leaseID then (Inr [], False)
           else (Inr [tombstone key prev], True)))"

definition Store_DeleteIfLease :: "string \<Rightarrow> int \<Rightarrow> world \<Rightarrow> bool \<times> goerr option \<times> world" where
  "Store_DeleteIfLease key leaseID w =
     (case read_write (deleteIfLeaseTxn key leaseID) False w of
        (Inl e, _, w1) \<Rightarrow> (False, Some e, w1)
      | (Inr _, deleted, w1) \<Rightarrow> (deleted, None, w1))"

definition deleteTxn :: "string \<Rightarrow> int \<Rightarrow> KV option \<Rightarrow> txn
    \<Rightarrow> (goerr + mutation list) \<times> KV option" where
  "deleteTxn key revision prev0 t =
     (case getLatestTxn t key of
        Inl e \<Rightarrow> (Inl e, None)
      | Inr None \<Rightarrow> (Inl ErrKeyNotFound, None)
      | Inr (Some prev) \<Rightarrow>
          (if revision \<noteq> 0 \<and> Rev prev \<noteq> revision then (Inl ErrRevisionMismatch, Some prev)
           else (Inr [tombstone key prev], Some prev)))"

definition Store_Delete :: "string \<Rightarrow> int \<Rightarrow> world
    \<Rightarrow> int \<times> KV option \<times> bool \<times> goerr option \<times> world" where
  "Store_Delete key revision w =
     (case read_write (deleteTxn key revision) None w of
        (Inl e, prev, w1) \<Rightarrow>
          (if errors_Is e ErrRevisionMismatch \<or> errors_Is e ErrKeyNotFound
           then (let (curRev, _, w2) = Store_CurrentRevision w1 in (curRev, prev, False, None, w2))
           else (0, None, False, Some e, w1))
      | (Inr commitTS, prev, w1) \<Rightarrow>
          (let rv = tsToRev commitTS in (rv, prev, True, None, notify rv w1)))"

end
