(* ===== verification/Store_Log.thy ===== *)
theory Store_Log
  imports Store
begin

text \<open>
  The append-only log behind the store.  \<open>wf_db\<close> is the invariant of the tables, \<open>abs_store\<close>
  the etcd state they stand for: for every live key its value, lease, modification and
  creation revision.  Compaction removes rows and writes append them, so the invariant is
  a property of rows and of pairs of rows: it survives the removal of any rows
  (\<open>wf_rows_subset\<close>) and the append of a row that fits its key (\<open>wf_rows_append\<close>).
\<close>

section \<open>The invariant\<close>

text \<open>
  A row on its own: its revision is a positive \<open>int64\<close>; it records when its key was
  created; the first row of a key's lifetime, and no other, is marked as created and has no
  previous revision; a tombstone carries neither a value nor a lease.
\<close>

definition wf_row :: "kv_row \<Rightarrow> bool" where
  "wf_row r \<longleftrightarrow> 1 < r_rev r \<and> r_rev r < 2 ^ 63 \<and>
     (case r_create_revision r of
        None \<Rightarrow> False
      | Some c \<Rightarrow> 1 < c \<and> c \<le> r_rev r \<and>
          (case r_prev_revision r of
             None \<Rightarrow> r_created r \<and> c = r_rev r
           | Some p \<Rightarrow> \<not> r_created r \<and> c \<le> p \<and> p < r_rev r)) \<and>
     (r_deleted r \<longrightarrow> \<not> r_created r \<and> r_value r = None \<and> r_lease_id r = 0)"

text \<open>
  A row \<open>s\<close> and a later row \<open>r\<close> of the same key: \<open>s\<close> is not after the row \<open>r\<close>
  replaced; if it is that row, \<open>r\<close> carries its value as the old one; and if \<open>s\<close> falls in
  the lifetime of \<open>r\<close> it is live and was created with it.
\<close>

definition follows :: "kv_row \<Rightarrow> kv_row \<Rightarrow> bool" where
  "follows s r \<longleftrightarrow>
     (case r_prev_revision r of
        None \<Rightarrow> True
      | Some p \<Rightarrow> r_rev s \<le> p \<and> (r_rev s = p \<longrightarrow> r_old_value r = r_value s)) \<and>
     (case r_create_revision r of
        None \<Rightarrow> True
      | Some c \<Rightarrow> c \<le> r_rev s \<longrightarrow> \<not> r_deleted s \<and> r_create_revision s = Some c)"

definition pair_ok :: "kv_row \<Rightarrow> kv_row \<Rightarrow> bool" where
  "pair_ok s r \<longleftrightarrow>
     (r_key s = r_key r \<longrightarrow> (r_rev s < r_rev r \<longrightarrow> follows s r) \<and> (r_rev s = r_rev r \<longrightarrow> s = r))"

definition wf_rows :: "kv_row list \<Rightarrow> bool" where
  "wf_rows rows \<longleftrightarrow> distinct (map r_id rows) \<and> (\<forall>r \<in> set rows. wf_row r) \<and>
     (\<forall>s \<in> set rows. \<forall>r \<in> set rows. pair_ok s r)"

definition wf_db :: "database \<Rightarrow> bool" where
  "wf_db db \<longleftrightarrow> wf_rows (kv db) \<and> distinct (map l_lease_id (kv_lease db)) \<and>
     (case kv_rev db CompactRevRow of None \<Rightarrow> True | Some t \<Rightarrow> 1 \<le> t \<and> t < 2 ^ 63)"

section \<open>The abstract store\<close>

record entry =
  a_value :: bytes
  a_lease :: int
  a_mod :: int
  a_create :: int

type_synonym astore = "string \<rightharpoonup> entry"

definition entry_of :: "KV \<Rightarrow> entry" where
  "entry_of k = \<lparr>a_value = Value k, a_lease = LeaseID k, a_mod = Rev k, a_create = CreateRevision k\<rparr>"

definition live :: "kv_row option \<Rightarrow> kv_row option" where
  "live ro = (case ro of None \<Rightarrow> None | Some r \<Rightarrow> if r_deleted r then None else Some r)"

definition current :: "database \<Rightarrow> string \<Rightarrow> KV option" where
  "current db key = map_option scanKV (live (select_latest key db))"

definition abs_store :: "database \<Rightarrow> astore" where
  "abs_store db = (\<lambda>key. map_option entry_of (current db key))"

text \<open>The state as of a revision.\<close>

definition abs_at :: "database \<Rightarrow> int \<Rightarrow> astore" where
  "abs_at db rv = (\<lambda>key. map_option (\<lambda>r. entry_of (scanKV r)) (live (select_as_of key rv db)))"

definition a_put :: "string \<Rightarrow> bytes \<Rightarrow> int \<Rightarrow> int \<Rightarrow> astore \<Rightarrow> astore" where
  "a_put key val lease ts m =
     m(key \<mapsto> \<lparr>a_value = val, a_lease = lease, a_mod = ts,
       a_create = (case m key of None \<Rightarrow> ts | Some a \<Rightarrow> a_create a)\<rparr>)"

definition a_delete :: "string \<Rightarrow> astore \<Rightarrow> astore" where
  "a_delete key m = m(key := None)"

section \<open>What Spanner promises of a commit\<close>

text \<open>
  The commit timestamp is not before any row's and strictly after every row of the keys the
  transaction writes; the ids of the sequence are new and distinct.
\<close>

definition fresh_env :: "string set \<Rightarrow> call_env \<Rightarrow> database \<Rightarrow> bool" where
  "fresh_env K c db \<longleftrightarrow> 1 < ce_ts c \<and> ce_ts c < 2 ^ 63 \<and>
     (\<forall>r \<in> set (kv db). r_rev r \<le> ce_ts c \<and> (r_key r \<in> K \<longrightarrow> r_rev r < ce_ts c)) \<and>
     inj (ce_id c) \<and> range (ce_id c) \<inter> r_id ` set (kv db) = {}"

text \<open>The environment of the next call and the database it is served from.\<close>

definition this_call :: "world \<Rightarrow> call_env" where
  "this_call w = w_env w (w_pos w)"

definition at_call :: "world \<Rightarrow> database" where
  "at_call w = ce_other (this_call w) (w_db w)"

definition served :: "world \<Rightarrow> world" where
  "served w = w\<lparr>w_db := at_call w, w_pos := Suc (w_pos w)\<rparr>"

section \<open>Revisions\<close>

lemma tsToRev_id [row_simps]: "0 < t \<Longrightarrow> t < 2 ^ 63 \<Longrightarrow> tsToRev t = t"
  by (simp add: tsToRev_def UnixNano_def wrap64_id in_int64_def Let_def)

lemma revToTS_id [row_simps]: "1 \<le> t \<Longrightarrow> revToTS t = t"
  by (simp add: revToTS_def)

lemma tsToRev_pos: "1 \<le> tsToRev t"
  by (simp add: tsToRev_def Let_def)

lemma tsToRev_int64: "in_int64 (tsToRev t)"
  using wrap64_range [of t] by (simp add: tsToRev_def UnixNano_def Let_def in_int64_def)

lemma wf_row_cases:
  assumes "wf_row r"
  obtains c where "r_create_revision r = Some c" "1 < c" "c \<le> r_rev r" "1 < r_rev r"
    "r_rev r < 2 ^ 63"
    "r_prev_revision r = None \<Longrightarrow> r_created r \<and> c = r_rev r"
    "\<And>p. r_prev_revision r = Some p \<Longrightarrow> \<not> r_created r \<and> c \<le> p \<and> p < r_rev r"
  using assms by (auto simp: wf_row_def split: option.splits)

lemma scanKV_wf [row_simps]:
  assumes "wf_row r"
  shows "Rev (scanKV r) = r_rev r" and "Some (CreateRevision (scanKV r)) = r_create_revision r"
    and "Deleted (scanKV r) = r_deleted r" and "Key (scanKV r) = r_key r"
    and "Value (scanKV r) = r_value r" and "LeaseID (scanKV r) = r_lease_id r"
proof -
  from assms obtain c where "r_create_revision r = Some c" "1 < c" "c \<le> r_rev r"
    "1 < r_rev r" "r_rev r < 2 ^ 63"
    by (rule wf_row_cases)
  then show "Rev (scanKV r) = r_rev r" "Some (CreateRevision (scanKV r)) = r_create_revision r"
    by (simp_all add: scanKV_def tsToRev_id)
qed (simp_all add: scanKV_def)

section \<open>The invariant under removal and append\<close>

lemma wf_rows_subset:
  assumes "wf_rows rows" and "set rows' \<subseteq> set rows" and "distinct (map r_id rows')"
  shows "wf_rows rows'"
  using assms unfolding wf_rows_def by blast

lemma wf_rows_filter: "wf_rows rows \<Longrightarrow> wf_rows (filter P rows)"
  by (rule wf_rows_subset) (auto simp: wf_rows_def distinct_map_filter)

lemma wf_rows_append:
  assumes "wf_rows rows" and "wf_row r" and "r_id r \<notin> r_id ` set rows"
    and "\<And>s. s \<in> set rows \<Longrightarrow> r_key s = r_key r \<Longrightarrow> r_rev s < r_rev r \<and> follows s r"
  shows "wf_rows (rows @ [r])"
proof -
  have "pair_ok s r \<and> pair_ok r s" if "s \<in> set rows" for s
    using assms(4) [OF that] by (auto simp: pair_ok_def)
  moreover have "pair_ok r r" by (simp add: pair_ok_def)
  ultimately show ?thesis using assms(1-3) by (auto simp: wf_rows_def)
qed

lemma wf_rowsD:
  assumes "wf_rows rows" and "r \<in> set rows"
  shows "wf_row r"
  using assms by (simp add: wf_rows_def)

lemma wf_dbD: "wf_db db \<Longrightarrow> r \<in> set (kv db) \<Longrightarrow> wf_row r"
  by (auto simp: wf_db_def wf_rows_def)

lemma wf_rows_unique:
  assumes "wf_rows rows" "r \<in> set rows" "s \<in> set rows" "r_key r = r_key s" "r_rev r = r_rev s"
  shows "r = s"
  using assms unfolding wf_rows_def pair_ok_def by metis

section \<open>The newest row\<close>

lemma newest_SomeD:
  assumes "newest rows = Some r"
  shows "r \<in> set rows" and "\<And>s. s \<in> set rows \<Longrightarrow> r_rev s \<le> r_rev r"
  using first_by_SomeD [OF assms [unfolded newest_def]] by auto

lemma newest_None [simp]: "newest rows = None \<longleftrightarrow> rows = []"
  by (simp add: newest_def)

lemma newest_Nil [simp]: "newest [] = None"
  by simp

lemma newest_eqI:
  assumes "r \<in> set rows" and "\<And>s. s \<in> set rows \<Longrightarrow> s \<noteq> r \<Longrightarrow> r_rev s < r_rev r"
  shows "newest rows = Some r"
  unfolding newest_def using assms by (intro first_by_eqI) auto

lemma newest_append:
  assumes "\<And>s. s \<in> set rows \<Longrightarrow> r_rev s < r_rev r"
  shows "newest (rows @ [r]) = Some r"
  using assms by (intro newest_eqI) auto

text \<open>In a well-formed log the selection does not depend on how Spanner orders rows.\<close>

lemma newest_cong:
  assumes "wf_rows rows" and "set xs \<subseteq> set rows" and "\<And>r. r \<in> set xs \<Longrightarrow> r_key r = k"
    and "set ys = set xs"
  shows "newest xs = newest ys"
proof (cases "newest xs")
  case None
  with assms(4) show ?thesis by simp
next
  case (Some r)
  have "newest ys = Some r"
  proof (rule newest_eqI)
    show "r \<in> set ys" using newest_SomeD(1) [OF Some] assms(4) by simp
  next
    fix s assume s: "s \<in> set ys" "s \<noteq> r"
    then have "r_rev s \<le> r_rev r" using newest_SomeD(2) [OF Some] assms(4) by auto
    moreover have "r_rev s \<noteq> r_rev r"
      using wf_rows_unique [OF assms(1), of s r] s newest_SomeD(1) [OF Some] assms(2,3,4)
      by (metis subsetD)
    ultimately show "r_rev s < r_rev r" by simp
  qed
  with Some show ?thesis by simp
qed

lemma select_latest_SomeD:
  assumes "select_latest key db = Some r"
  shows "r \<in> set (kv db)" and "r_key r = key"
    and "\<And>s. s \<in> set (kv db) \<Longrightarrow> r_key s = key \<Longrightarrow> r_rev s \<le> r_rev r"
  using newest_SomeD [OF assms [unfolded select_latest_def]] by auto

lemma select_latest_eqI:
  assumes "wf_rows (kv db)" and "r \<in> set (kv db)" and "r_key r = key"
    and "\<And>s. s \<in> set (kv db) \<Longrightarrow> r_key s = key \<Longrightarrow> r_rev s \<le> r_rev r"
  shows "select_latest key db = Some r"
  unfolding select_latest_def
proof (rule newest_eqI)
  fix s assume "s \<in> set (filter (\<lambda>r. r_key r = key) (kv db))" "s \<noteq> r"
  then show "r_rev s < r_rev r"
    using assms wf_rows_unique [OF assms(1), of s r] by (auto simp: order_less_le)
qed (use assms in simp)

lemma select_as_of_SomeD:
  assumes "select_as_of key cap db = Some r"
  shows "r \<in> set (kv db)" and "r_key r = key" and "r_rev r \<le> cap"
    and "\<And>s. s \<in> set (kv db) \<Longrightarrow> r_key s = key \<Longrightarrow> r_rev s \<le> cap \<Longrightarrow> r_rev s \<le> r_rev r"
  using newest_SomeD [OF assms [unfolded select_as_of_def]] by auto

lemma select_as_of_eqI:
  assumes "wf_rows (kv db)" and "r \<in> set (kv db)" and "r_key r = key" and "r_rev r \<le> cap"
    and "\<And>s. s \<in> set (kv db) \<Longrightarrow> r_key s = key \<Longrightarrow> r_rev s \<le> cap \<Longrightarrow> r_rev s \<le> r_rev r"
  shows "select_as_of key cap db = Some r"
  unfolding select_as_of_def
proof (rule newest_eqI)
  fix s assume "s \<in> set (filter (\<lambda>r. r_key r = key \<and> r_rev r \<le> cap) (kv db))" "s \<noteq> r"
  then show "r_rev s < r_rev r"
    using assms wf_rows_unique [OF assms(1), of s r] by (auto simp: order_less_le)
qed (use assms in simp)

text \<open>A cap at or after every row of the key does not filter.\<close>

lemma select_as_of_latest:
  assumes "\<And>r. r \<in> set (kv db) \<Longrightarrow> r_key r = key \<Longrightarrow> r_rev r \<le> cap"
  shows "select_as_of key cap db = select_latest key db"
proof -
  have "filter (\<lambda>r. r_key r = key \<and> r_rev r \<le> cap) (kv db) = filter (\<lambda>r. r_key r = key) (kv db)"
    using assms by (intro filter_cong) auto
  then show ?thesis by (simp add: select_as_of_def select_latest_def)
qed

section \<open>Appending a row\<close>

definition key_fresh :: "int \<Rightarrow> string \<Rightarrow> database \<Rightarrow> bool" where
  "key_fresh ts key db \<longleftrightarrow> (\<forall>r \<in> set (kv db). r_key r = key \<longrightarrow> r_rev r < ts)"

definition append_row :: "kv_row \<Rightarrow> database \<Rightarrow> database" where
  "append_row r db = db\<lparr>kv := kv db @ [r]\<rparr>"

lemma append_row_simps [simp]:
  "kv (append_row r db) = kv db @ [r]" "kv_rev (append_row r db) = kv_rev db"
  "kv_lease (append_row r db) = kv_lease db" "kv_cs_cursors (append_row r db) = kv_cs_cursors db"
  by (simp_all add: append_row_def)

lemma select_latest_append:
  assumes "key_fresh (r_rev r) (r_key r) db"
  shows "select_latest key (append_row r db) =
    (if key = r_key r then Some r else select_latest key db)"
  using assms by (auto simp: select_latest_def key_fresh_def intro!: newest_append)

lemma current_append:
  assumes "key_fresh (r_rev r) (r_key r) db"
  shows "current (append_row r db) key =
    (if key = r_key r then map_option scanKV (live (Some r)) else current db key)"
  by (simp add: current_def select_latest_append [OF assms])

lemma abs_store_append:
  assumes "key_fresh (r_rev r) (r_key r) db"
  shows "abs_store (append_row r db) =
    (abs_store db)(r_key r := (if r_deleted r then None else Some (entry_of (scanKV r))))"
  using current_append [OF assms] by (auto simp: fun_eq_iff abs_store_def live_def)

lemma wf_db_append:
  assumes "wf_db db" "wf_row r" "r_id r \<notin> r_id ` set (kv db)" "key_fresh (r_rev r) (r_key r) db"
    and "\<And>s. s \<in> set (kv db) \<Longrightarrow> r_key s = r_key r \<Longrightarrow> follows s r"
  shows "wf_db (append_row r db)"
  using assms by (auto simp: wf_db_def key_fresh_def intro!: wf_rows_append)

lemma current_NoneD:
  assumes "wf_db db" "current db key = None" "select_latest key db = Some r"
  shows "r_deleted r"
  using assms by (auto simp: current_def live_def split: if_splits)

lemma current_SomeE:
  assumes "wf_db db" "current db key = Some p"
  obtains r where "select_latest key db = Some r" "r \<in> set (kv db)" "r_key r = key" "wf_row r"
    "\<not> r_deleted r" "p = scanKV r"
proof -
  from assms(2) obtain r where r: "select_latest key db = Some r" "\<not> r_deleted r" "p = scanKV r"
    by (auto simp: current_def live_def split: option.splits if_splits)
  moreover have "wf_row r"
    using assms(1) select_latest_SomeD(1) [OF r(1)] by (auto simp: wf_db_def dest: wf_rowsD)
  ultimately show ?thesis using that select_latest_SomeD [OF r(1)] by blast
qed

text \<open>A new row over the live row \<open>s\<close> fits every row of the key.\<close>

lemma follows_over:
  assumes "wf_db db" "select_latest key db = Some s" "\<not> r_deleted s"
    and "t \<in> set (kv db)" "r_key t = key"
    and "r_prev_revision r = Some (r_rev s)" "r_old_value r = r_value s"
    and "r_create_revision r = r_create_revision s"
  shows "follows t r"
proof -
  note s = select_latest_SomeD [OF assms(2)]
  from assms(1) have rows: "wf_rows (kv db)" by (simp add: wf_db_def)
  show ?thesis
  proof (cases "t = s")
    case True
    with assms show ?thesis by (auto simp: follows_def split: option.splits)
  next
    case False
    then have lt: "r_rev t < r_rev s"
      using s(3) [OF assms(4,5)] wf_rows_unique [OF rows assms(4) s(1)] s(2) assms(5)
      by (auto simp: order_less_le)
    then have "follows t s"
      using rows assms(4,5) s(1,2) by (auto simp: wf_rows_def pair_ok_def)
    with assms lt show ?thesis by (auto simp: follows_def split: option.splits)
  qed
qed

text \<open>The rows the writes append: a first row, a row over a live one, a tombstone.\<close>

definition new_row :: "int \<Rightarrow> int \<Rightarrow> string \<Rightarrow> bytes \<Rightarrow> int \<Rightarrow> kv_row" where
  "new_row ts i key val lease =
     \<lparr>r_id = i, r_rev = ts, r_key = key, r_value = val, r_old_value = None, r_lease_id = lease,
      r_deleted = False, r_created = True, r_create_revision = Some ts, r_prev_revision = None\<rparr>"

definition over_row :: "int \<Rightarrow> int \<Rightarrow> string \<Rightarrow> bytes \<Rightarrow> int \<Rightarrow> bool \<Rightarrow> KV \<Rightarrow> kv_row" where
  "over_row ts i key val lease del prev =
     \<lparr>r_id = i, r_rev = ts, r_key = key, r_value = val, r_old_value = Value prev,
      r_lease_id = lease, r_deleted = del, r_created = False,
      r_create_revision = Some (revToTS (CreateRevision prev)),
      r_prev_revision = Some (revToTS (Rev prev))\<rparr>"

lemma new_row_commit:
  assumes "wf_db db" "current db key = None" "key_fresh ts key db" "1 < ts" "ts < 2 ^ 63"
    and "i \<notin> r_id ` set (kv db)"
  shows "wf_db (append_row (new_row ts i key val lease) db)"
    and "abs_store (append_row (new_row ts i key val lease) db) = a_put key val lease ts (abs_store db)"
proof -
  let ?r = "new_row ts i key val lease"
  have fr: "key_fresh (r_rev ?r) (r_key ?r) db" using assms(3) by (simp add: new_row_def)
  show "wf_db (append_row ?r db)"
  proof (rule wf_db_append [OF assms(1) _ _ fr])
    fix s assume "s \<in> set (kv db)" "r_key s = r_key ?r"
    then show "follows s ?r" using assms(3)
      by (auto simp: follows_def new_row_def key_fresh_def)
  qed (use assms in \<open>simp_all add: wf_row_def new_row_def\<close>)
  show "abs_store (append_row ?r db) = a_put key val lease ts (abs_store db)"
    unfolding abs_store_append [OF fr] using assms
    by (simp add: a_put_def abs_store_def entry_of_def scanKV_def new_row_def tsToRev_id)
qed

lemma entry_over_row:
  assumes "0 < ts" "ts < 2 ^ 63" "revToTS (CreateRevision prev) < 2 ^ 63"
  shows "entry_of (scanKV (over_row ts i key val lease del prev)) =
    \<lparr>a_value = val, a_lease = lease, a_mod = ts, a_create = revToTS (CreateRevision prev)\<rparr>"
  using assms by (simp add: entry_of_def scanKV_def over_row_def tsToRev_id revToTS_def)

lemma over_row_fields [simp]:
  "r_id (over_row ts i key val lease del prev) = i"
  "r_rev (over_row ts i key val lease del prev) = ts"
  "r_key (over_row ts i key val lease del prev) = key"
  "r_deleted (over_row ts i key val lease del prev) = del"
  by (simp_all add: over_row_def)

lemma new_row_fields [simp]:
  "r_id (new_row ts i key val lease) = i" "r_rev (new_row ts i key val lease) = ts"
  "r_key (new_row ts i key val lease) = key" "\<not> r_deleted (new_row ts i key val lease)"
  by (simp_all add: new_row_def)

lemma over_row_commit:
  assumes "wf_db db" "current db key = Some prev" "key_fresh ts key db" "1 < ts" "ts < 2 ^ 63"
    and "i \<notin> r_id ` set (kv db)" and "del \<Longrightarrow> val = None \<and> lease = 0"
  shows "wf_db (append_row (over_row ts i key val lease del prev) db)"
    and "abs_store (append_row (over_row ts i key val lease del prev) db) =
      (if del then a_delete key (abs_store db) else a_put key val lease ts (abs_store db))"
proof -
  let ?r = "over_row ts i key val lease del prev"
  have fr: "key_fresh (r_rev ?r) (r_key ?r) db" using assms(3) by (simp add: over_row_def)
  from assms(1,2) obtain s where s: "select_latest key db = Some s" "s \<in> set (kv db)"
    "r_key s = key" "wf_row s" "\<not> r_deleted s" "prev = scanKV s"
    by (rule current_SomeE)
  from s(4) obtain c where c: "r_create_revision s = Some c" "1 < c" "c \<le> r_rev s"
    "1 < r_rev s" "r_rev s < 2 ^ 63"
    by (rule wf_row_cases)
  have lt: "r_rev s < ts" using assms(3) s by (simp add: key_fresh_def)
  have cells: "revToTS (CreateRevision prev) = c" "revToTS (Rev prev) = r_rev s"
    using scanKV_wf [OF s(4)] s(6) c by (simp_all add: revToTS_def)
  show "wf_db (append_row ?r db)"
  proof (rule wf_db_append [OF assms(1) _ _ fr])
    fix t assume "t \<in> set (kv db)" "r_key t = r_key ?r"
    then show "follows t ?r" using follows_over [OF assms(1) s(1,5)] s(6) c cells
      by (simp add: over_row_def scanKV_def)
  qed (use assms c cells lt in \<open>simp_all add: wf_row_def over_row_def\<close>)
  show "abs_store (append_row ?r db) =
      (if del then a_delete key (abs_store db) else a_put key val lease ts (abs_store db))"
    unfolding abs_store_append [OF fr] using assms c cells lt scanKV_wf [OF s(4)] s(6)
    by (simp add: a_put_def a_delete_def abs_store_def entry_over_row
        entry_of_def [of "scanKV s"])
qed

end
