(* ===== verification/Demo.thy ===== *)
theory Demo
  imports Store_Log
begin

text \<open>
  A small concrete database, and the worlds in which nobody else uses it and every call
  succeeds.  The theorems with hypotheses are applied to them to show that their hypotheses
  can hold together.  The key \<open>a\<close> was created at revision 10 under lease 7 and overwritten at
  30; \<open>b\<close> was created at 20 and deleted at 40; \<open>c\<close> was created at 50.
\<close>

definition demo_row :: "int \<Rightarrow> int \<Rightarrow> string \<Rightarrow> bytes \<Rightarrow> bytes \<Rightarrow> int \<Rightarrow> bool \<Rightarrow> int \<Rightarrow> int option \<Rightarrow> kv_row" where
  "demo_row i rv key val old lease del crev prev =
     \<lparr>r_id = i, r_rev = rv, r_key = key, r_value = val, r_old_value = old, r_lease_id = lease,
      r_deleted = del, r_created = (prev = None), r_create_revision = Some crev,
      r_prev_revision = prev\<rparr>"

definition demo_db :: database where
  "demo_db =
     \<lparr>kv = [demo_row 1 10 ''a'' (Some ''x'') None 7 False 10 None,
            demo_row 2 20 ''b'' (Some ''v'') None 0 False 20 None,
            demo_row 3 30 ''a'' (Some ''y'') (Some ''x'') 7 False 10 (Some 10),
            demo_row 4 40 ''b'' None (Some ''v'') 0 True 20 (Some 20),
            demo_row 5 50 ''c'' (Some ''z'') None 0 False 50 None],
      kv_rev = [CompactRevRow \<mapsto> 1],
      kv_lease = [\<lparr>l_lease_id = 7, l_ttl_sec = 60, l_granted_at = 5\<rparr>],
      kv_cs_cursors = []\<rparr>"

definition demo_call :: "int \<Rightarrow> call_env" where
  "demo_call ts =
     \<lparr>ce_other = id, ce_err = (\<lambda>_. None), ce_aborted = [], ce_fate = Committed, ce_ts = ts,
      ce_id = (\<lambda>i. ts + 100000 * int i)\<rparr>"

definition demo_world :: "database \<Rightarrow> world" where
  "demo_world db =
     \<lparr>w_db = db, w_env = (\<lambda>n. demo_call (100 + int n)), w_pos = 0, w_notifyCh = []\<rparr>"

lemmas demo_defs = demo_row_def demo_db_def

lemma demo_call_simps [simp]:
  "ce_other (demo_call ts) = id" "ce_err (demo_call ts) q = None" "ce_aborted (demo_call ts) = []"
  "ce_fate (demo_call ts) = Committed" "ce_ts (demo_call ts) = ts"
  "ce_id (demo_call ts) i = ts + 100000 * int i"
  by (simp_all add: demo_call_def)

lemma demo_world_simps [simp]:
  "w_db (demo_world db) = db" "w_env (demo_world db) n = demo_call (100 + int n)"
  "w_pos (demo_world db) = 0" "w_notifyCh (demo_world db) = []"
  by (simp_all add: demo_world_def)

lemma demo_served [simp]:
  "this_call (demo_world db) = demo_call 100" "at_call (demo_world db) = db"
  "this_call (served (demo_world db)) = demo_call 101" "at_call (served (demo_world db)) = db"
  "this_call (served (served (demo_world db))) = demo_call 102"
  "at_call (served (served (demo_world db))) = db"
  by (simp_all add: this_call_def at_call_def served_def)

lemma wf_demo: "wf_db demo_db"
proof -
  have "\<forall>r \<in> set (kv demo_db). wf_row r" by (simp add: demo_defs wf_row_def)
  moreover have "\<forall>s \<in> set (kv demo_db). \<forall>r \<in> set (kv demo_db). pair_ok s r"
    by (simp add: demo_defs pair_ok_def follows_def)
  moreover have "distinct (map r_id (kv demo_db))" by (simp add: demo_defs)
  ultimately show ?thesis by (simp add: wf_db_def wf_rows_def) (simp add: demo_defs)
qed

lemma fresh_demo:
  assumes "100 \<le> ts" "ts < 2 ^ 63"
  shows "fresh_env K (demo_call ts) demo_db"
proof -
  have "inj (\<lambda>i. ts + 100000 * int i)" by (simp add: inj_def)
  moreover have "range (\<lambda>i. ts + 100000 * int i) \<inter> r_id ` set (kv demo_db) = {}"
    using assms by (auto simp: demo_defs)
  moreover have "ce_id (demo_call ts) = (\<lambda>i. ts + 100000 * int i)" by (simp add: fun_eq_iff)
  ultimately show ?thesis using assms unfolding fresh_env_def by (simp add: demo_defs)
qed

lemma current_demo:
  "current demo_db ''a'' = Some \<lparr>Key = ''a'', Value = Some ''y'', OldValue = Some ''x'',
     LeaseID = 7, Deleted = False, Created = False, Rev = 30, CreateRevision = 10, PrevRevision = 10\<rparr>"
  "current demo_db ''b'' = None"
  "current demo_db ''c'' = Some \<lparr>Key = ''c'', Value = Some ''z'', OldValue = None,
     LeaseID = 0, Deleted = False, Created = True, Rev = 50, CreateRevision = 50, PrevRevision = 0\<rparr>"
  "current demo_db ''d'' = None"
  by (simp_all add: current_def select_latest_def newest_def first_by_def demo_defs live_def
      scanKV_def tsToRev_id)

lemma abs_demo:
  "abs_store demo_db ''a'' = Some \<lparr>a_value = Some ''y'', a_lease = 7, a_mod = 30, a_create = 10\<rparr>"
  "abs_store demo_db ''b'' = None"
  "abs_store demo_db ''c'' = Some \<lparr>a_value = Some ''z'', a_lease = 0, a_mod = 50, a_create = 50\<rparr>"
  "abs_store demo_db ''d'' = None"
  by (simp_all add: abs_store_def current_demo entry_of_def)

end
