(* ===== verification/Store_Writes.thy ===== *)
theory Store_Writes
  imports Demo
begin

text \<open>
  The writes of the store.  The locale \<open>txn_callback\<close> is the contract between
  \<open>ReadWriteTransaction\<close> and the callbacks the program passes to it: what a callback
  decides does not depend on what an aborted attempt left in its captured variables, and
  committing its mutations keeps the invariant.  Every callback of the program is an
  interpretation.
\<close>

section \<open>One call\<close>

definition handle :: "world \<Rightarrow> txn" where
  "handle w = \<lparr>t_db = at_call w, t_err = ce_err (this_call w)\<rparr>"

lemma handle_simps [simp]: "t_db (handle w) = at_call w" "t_err (handle w) = ce_err (this_call w)"
  by (simp_all add: handle_def)

lemma served_simps [simp]:
  "w_db (served w) = at_call w" "w_env (served w) = w_env w" "w_pos (served w) = Suc (w_pos w)"
  "w_notifyCh (served w) = w_notifyCh w"
  by (simp_all add: served_def)

lemma spanner_call_eq [call_simps]: "spanner_call w = (this_call w, served w)"
  by (simp add: spanner_call_def served_def at_call_def this_call_def Let_def)

lemma single_eq [call_simps]:
  "single q f w = (case ce_err (this_call w) q of
     Some e \<Rightarrow> (Inl e, served w) | None \<Rightarrow> (Inr (f (at_call w)), served w))"
  by (simp add: single_def spanner_call_eq split: option.split)

lemma apply_call_eq [call_simps]: "apply_call ms w = commit (this_call w) ms (served w)"
  by (simp add: apply_call_def spanner_call_eq)

lemma read_write_eq:
  "read_write cb v w =
     (let v1 = fold (\<lambda>t u. snd (cb u t)) (ce_aborted (this_call w)) v
      in case fst (cb v1 (handle w)) of
           Inl e \<Rightarrow> (Inl e, snd (cb v1 (handle w)), served w)
         | Inr ms \<Rightarrow> (fst (commit (this_call w) ms (served w)), snd (cb v1 (handle w)),
                      snd (commit (this_call w) ms (served w))))"
  by (simp add: read_write_def spanner_call_eq handle_def Let_def split: sum.split prod.split)

lemma commit_cases:
  obtains (rejected) "apply_mutations (ce_ts c) (ce_id c) ms (w_db w) = None"
      "commit c ms w = (Inl AlreadyExistsErr, w)"
  | (ok) db' where "apply_mutations (ce_ts c) (ce_id c) ms (w_db w) = Some db'"
      "ce_fate c = Committed" "commit c ms w = (Inr (ce_ts c), w\<lparr>w_db := db'\<rparr>)"
  | (failed) e where "commit c ms w = (Inl e, w)"
  | (unknown) db' e where "apply_mutations (ce_ts c) (ce_id c) ms (w_db w) = Some db'"
      "ce_fate c = Unknown e" "commit c ms w = (Inl e, w\<lparr>w_db := db'\<rparr>)"
  by (cases "apply_mutations (ce_ts c) (ce_id c) ms (w_db w)"; cases "ce_fate c")
     (auto simp: commit_def)

lemma read_write_refused:
  assumes "ce_fate (this_call w) = NotCommitted e"
  shows "\<exists>e' v'. read_write cb v w = (Inl e', v', served w)"
  using assms unfolding read_write_eq Let_def
  by (auto simp: commit_def split: sum.split option.split)

section \<open>The contract of a transaction callback\<close>

locale txn_callback =
  fixes cb :: "'v \<Rightarrow> txn \<Rightarrow> (goerr + mutation list) \<times> 'v"
    and K :: "string set"
  assumes result_indep: "fst (cb u t) = fst (cb v t)"
    and vars_indep: "fst (cb u t) = Inr ms \<Longrightarrow> snd (cb u t) = snd (cb v t)"
    and commit_wf: "fst (cb v t) = Inr ms \<Longrightarrow> wf_db (t_db t) \<Longrightarrow> fresh_env K c (t_db t) \<Longrightarrow>
      \<exists>db'. apply_mutations (ce_ts c) (ce_id c) ms (t_db t) = Some db' \<and> wf_db db'"
begin

text \<open>The result and the database after the call do not depend on the aborted attempts.\<close>

lemma read_write_result:
  "fst (read_write cb v w) =
     (case fst (cb u (handle w)) of
        Inl e \<Rightarrow> Inl e | Inr ms \<Rightarrow> fst (commit (this_call w) ms (served w)))"
  using result_indep [of _ "handle w" u] unfolding read_write_eq Let_def
  by (cases "fst (cb u (handle w))") simp_all

lemma read_write_world:
  "snd (snd (read_write cb v w)) =
     (case fst (cb u (handle w)) of
        Inl e \<Rightarrow> served w | Inr ms \<Rightarrow> snd (commit (this_call w) ms (served w)))"
  using result_indep [of _ "handle w" u] unfolding read_write_eq Let_def
  by (cases "fst (cb u (handle w))") simp_all

lemma read_write_vars:
  assumes "fst (cb u (handle w)) = Inr ms"
  shows "fst (snd (read_write cb v w)) = snd (cb u (handle w))"
  using assms result_indep [of _ "handle w" u] vars_indep [OF assms, symmetric] unfolding read_write_eq Let_def
  by simp

lemma read_write_ok:
  assumes "fst (cb u (handle w)) = Inr ms"
  shows "read_write cb v w =
    (fst (commit (this_call w) ms (served w)), snd (cb u (handle w)),
     snd (commit (this_call w) ms (served w)))"
  using read_write_result [of v w u] read_write_world [of v w u] read_write_vars [OF assms, of v]
    assms by (simp add: prod_eq_iff)

lemma read_write_committed:
  assumes "fst (cb u (handle w)) = Inr ms"
    and "apply_mutations (ce_ts (this_call w)) (ce_id (this_call w)) ms (at_call w) = Some db'"
    and "ce_fate (this_call w) = Committed"
  shows "read_write cb v w =
    (Inr (ce_ts (this_call w)), snd (cb u (handle w)), (served w)\<lparr>w_db := db'\<rparr>)"
  using read_write_ok [OF assms(1), of v] assms(2,3) by (simp add: commit_def)

lemma read_write_wf:
  assumes "wf_db (at_call w)" and "fresh_env K (this_call w) (at_call w)"
  shows "wf_db (w_db (snd (snd (read_write cb v w))))"
proof (cases "fst (cb v (handle w))")
  case (Inl e)
  then show ?thesis using assms by (simp add: read_write_world [of v w v])
next
  case (Inr ms)
  with assms obtain db' where db': "wf_db db'"
    "apply_mutations (ce_ts (this_call w)) (ce_id (this_call w)) ms (at_call w) = Some db'"
    using commit_wf [OF Inr] by auto
  show ?thesis
    by (cases rule: commit_cases [of "this_call w" ms "served w"])
       (use db' Inr assms in \<open>simp_all add: read_write_world [of v w v]\<close>)
qed

end

text \<open>Callbacks whose captured variables are set on the error paths too.\<close>

locale txn_callback_total = txn_callback +
  assumes vars_total: "snd (cb u t) = snd (cb v t)"
begin

lemma read_write_error:
  assumes "fst (cb u (handle w)) = Inl e"
  shows "read_write cb v w = (Inl e, snd (cb u (handle w)), served w)"
proof -
  have "fst (snd (read_write cb v w)) = snd (cb u (handle w))"
    using assms result_indep [of _ "handle w" u] vars_total [of _ "handle w" u]
    unfolding read_write_eq Let_def by simp
  with assms show ?thesis
    using read_write_result [of v w u] read_write_world [of v w u] by (simp add: prod_eq_iff)
qed

end

section \<open>The callbacks of the single-key writes\<close>

lemma getLatestTxn_eq:
  "getLatestTxn t key =
     (case t_err t (QLatest key) of Some e \<Rightarrow> Inl e | None \<Rightarrow> Inr (current (t_db t) key))"
  by (auto simp: getLatestTxn_def txn_read_def current_def live_def scanKV_def split: option.splits)

lemma keyExistsTxn_eq:
  "keyExistsTxn t key =
     (case t_err t (QKeyExists key) of
        Some e \<Rightarrow> Inl e | None \<Rightarrow> Inr (current (t_db t) key \<noteq> None))"
  by (auto simp: keyExistsTxn_def txn_read_def current_def live_def split: option.splits)

lemma fresh_envD:
  assumes "fresh_env K c db"
  shows "1 < ce_ts c" "ce_ts c < 2 ^ 63" "key \<in> K \<Longrightarrow> key_fresh (ce_ts c) key db"
    "ce_id c i \<notin> r_id ` set (kv db)" "inj (ce_id c)"
    "\<And>r. r \<in> set (kv db) \<Longrightarrow> r_rev r \<le> ce_ts c"
  using assms by (auto simp: fresh_env_def key_fresh_def)

text \<open>One inserted row, for each of the three kinds of row.\<close>

lemma insert_new:
  assumes "wf_db db" "fresh_env K c db" "key \<in> K" "current db key = None"
  shows "apply_mutations (ce_ts c) (ce_id c)
      [InsertKV CommitTimestamp key val None lease False True CommitTimestamp NullTS] db =
      Some (append_row (new_row (ce_ts c) (ce_id c 0) key val lease) db)"
  using fresh_envD(4) [OF assms(2), of 0] by (simp add: append_row_def new_row_def)

lemma insert_over:
  assumes "fresh_env K c db"
  shows "apply_mutations (ce_ts c) (ce_id c)
      [InsertKV CommitTimestamp key val (Value prev) lease del False
        (TS (revToTS (CreateRevision prev))) (TS (revToTS (Rev prev)))] db =
      Some (append_row (over_row (ce_ts c) (ce_id c 0) key val lease del prev) db)"
  using fresh_envD(4) [OF assms, of 0] by (simp add: append_row_def over_row_def)

lemmas insert_tombstone = insert_over [where val = None and lease = 0 and del = True,
  folded tombstone_def]

lemma new_row_env:
  assumes "wf_db db" "current db key = None" "fresh_env K c db" "key \<in> K"
  shows "wf_db (append_row (new_row (ce_ts c) (ce_id c i) key val lease) db)"
    and "abs_store (append_row (new_row (ce_ts c) (ce_id c i) key val lease) db) =
      a_put key val lease (ce_ts c) (abs_store db)"
  using new_row_commit [OF assms(1,2)] fresh_envD [OF assms(3)] assms(4) by auto

lemma over_row_env:
  assumes "wf_db db" "current db key = Some prev" "fresh_env K c db" "key \<in> K"
    and "del \<Longrightarrow> val = None \<and> lease = 0"
  shows "wf_db (append_row (over_row (ce_ts c) (ce_id c i) key val lease del prev) db)"
    and "abs_store (append_row (over_row (ce_ts c) (ce_id c i) key val lease del prev) db) =
      (if del then a_delete key (abs_store db) else a_put key val lease (ce_ts c) (abs_store db))"
  using over_row_commit [OF assms(1,2)] fresh_envD [OF assms(3)] assms(4,5) by auto

interpretation create: txn_callback_total "createTxn key val leaseID" "{key}"
  for key val leaseID
proof unfold_locales
  fix v t ms c
  assume "fst (createTxn key val leaseID v t) = Inr ms" "wf_db (t_db t)" "fresh_env {key} c (t_db t)"
  then show "\<exists>db'. apply_mutations (ce_ts c) (ce_id c) ms (t_db t) = Some db' \<and> wf_db db'"
    using insert_new [of "t_db t" "{key}" c key val leaseID] new_row_env [of "t_db t" key "{key}" c]
    by (auto simp: createTxn_def keyExistsTxn_eq split: option.splits sum.splits bool.splits)
qed (auto simp: createTxn_def)

interpretation update: txn_callback_total "updateTxn key val revision leaseID" "{key}"
  for key val revision leaseID
proof unfold_locales
  fix v t ms c
  assume "fst (updateTxn key val revision leaseID v t) = Inr ms" "wf_db (t_db t)"
    "fresh_env {key} c (t_db t)"
  then show "\<exists>db'. apply_mutations (ce_ts c) (ce_id c) ms (t_db t) = Some db' \<and> wf_db db'"
    using insert_over [of "{key}" c "t_db t" key] over_row_env(1) [of "t_db t" key _ "{key}" c]
    by (auto simp: updateTxn_def getLatestTxn_eq split: option.splits sum.splits if_splits)
qed (auto simp: updateTxn_def)

interpretation delete: txn_callback_total "deleteTxn key revision" "{key}"
  for key revision
proof unfold_locales
  fix v t ms c
  assume "fst (deleteTxn key revision v t) = Inr ms" "wf_db (t_db t)" "fresh_env {key} c (t_db t)"
  then show "\<exists>db'. apply_mutations (ce_ts c) (ce_id c) ms (t_db t) = Some db' \<and> wf_db db'"
    using insert_tombstone [of "{key}" c "t_db t" key] over_row_env(1) [of "t_db t" key _ "{key}" c]
    by (auto simp: deleteTxn_def getLatestTxn_eq split: option.splits sum.splits if_splits)
qed (auto simp: deleteTxn_def)

interpretation deleteIfLease: txn_callback "deleteIfLeaseTxn key leaseID" "{key}"
  for key leaseID
proof unfold_locales
  fix v t ms c
  assume "fst (deleteIfLeaseTxn key leaseID v t) = Inr ms" "wf_db (t_db t)"
    "fresh_env {key} c (t_db t)"
  then show "\<exists>db'. apply_mutations (ce_ts c) (ce_id c) ms (t_db t) = Some db' \<and> wf_db db'"
    using insert_tombstone [of "{key}" c "t_db t" key] over_row_env(1) [of "t_db t" key _ "{key}" c]
    by (auto simp: deleteIfLeaseTxn_def getLatestTxn_eq split: option.splits sum.splits if_splits)
qed (auto simp: deleteIfLeaseTxn_def split: sum.splits option.splits)

section \<open>The single-key writes\<close>

lemma notify_simps [simp]:
  "w_db (notify rv w) = w_db w" "w_env (notify rv w) = w_env w" "w_pos (notify rv w) = w_pos w"
  by (simp_all add: notify_def)

lemma CurrentRevision_world [simp]: "snd (snd (Store_CurrentRevision w)) = served w"
  by (simp add: Store_CurrentRevision_def single_eq Let_def split: option.split sum.split)

lemma CurrentRevision_shape:
  obtains curRev err where "Store_CurrentRevision w = (curRev, err, served w)"
  by (metis CurrentRevision_world prod.collapse)

lemma current_None_iff: "current db key = None \<longleftrightarrow> abs_store db key = None"
  by (simp add: abs_store_def)

lemma current_Rev: "current db key = Some p \<Longrightarrow> abs_store db key = Some (entry_of p)"
  by (simp add: abs_store_def)

text \<open>The outcome of each write, as an equation.\<close>

definition put_new :: "string \<Rightarrow> bytes \<Rightarrow> int \<Rightarrow> world \<Rightarrow> database" where
  "put_new key val lease w =
     append_row (new_row (ce_ts (this_call w)) (ce_id (this_call w) 0) key val lease) (at_call w)"

definition put_over :: "string \<Rightarrow> bytes \<Rightarrow> int \<Rightarrow> bool \<Rightarrow> KV \<Rightarrow> world \<Rightarrow> database" where
  "put_over key val lease del prev w =
     append_row (over_row (ce_ts (this_call w)) (ce_id (this_call w) 0) key val lease del prev) (at_call w)"

definition committed :: "string set \<Rightarrow> world \<Rightarrow> bool" where
  "committed K w \<longleftrightarrow> wf_db (at_call w) \<and> fresh_env K (this_call w) (at_call w) \<and>
     ce_fate (this_call w) = Committed"

lemma committedD:
  assumes "committed K w"
  shows "wf_db (at_call w)" "fresh_env K (this_call w) (at_call w)" "ce_fate (this_call w) = Committed"
    "tsToRev (ce_ts (this_call w)) = ce_ts (this_call w)"
  using assms fresh_envD(1,2) [of K "this_call w" "at_call w"] by (simp_all add: committed_def tsToRev_id)

lemma put_new_db:
  assumes "committed {key} w" "current (at_call w) key = None"
  shows "wf_db (put_new key val lease w)"
    "abs_store (put_new key val lease w) = a_put key val lease (ce_ts (this_call w)) (abs_store (at_call w))"
  using new_row_env [OF committedD(1) [OF assms(1)] assms(2) committedD(2) [OF assms(1)]]
  by (simp_all add: put_new_def)

lemma put_over_db:
  assumes "committed {key} w" "current (at_call w) key = Some prev"
  shows "wf_db (put_over key val lease False prev w)" "wf_db (put_over key None 0 True prev w)"
    "abs_store (put_over key val lease False prev w) =
      a_put key val lease (ce_ts (this_call w)) (abs_store (at_call w))"
    "abs_store (put_over key None 0 True prev w) = a_delete key (abs_store (at_call w))"
  using over_row_env [OF committedD(1) [OF assms(1)] assms(2) committedD(2) [OF assms(1)]]
  by (simp_all add: put_over_def)

lemma Create_new:
  assumes "committed {key} w" "ce_err (this_call w) (QKeyExists key) = None"
    and "current (at_call w) key = None"
  shows "Store_Create key val lease w =
    (ce_ts (this_call w), None,
     notify (ce_ts (this_call w)) ((served w)\<lparr>w_db := put_new key val lease w\<rparr>))"
proof -
  note c = committedD [OF assms(1)]
  have cb: "createTxn key val lease () (handle w) =
      (Inr [InsertKV CommitTimestamp key val None lease False True CommitTimestamp NullTS], ())"
    using assms(2,3) by (simp add: createTxn_def keyExistsTxn_eq)
  have "read_write (createTxn key val lease) () w =
      (Inr (ce_ts (this_call w)), (), (served w)\<lparr>w_db := put_new key val lease w\<rparr>)"
    using create.read_write_committed [of key val lease "()" w] cb
      insert_new [OF c(1,2) _ assms(3)] c(3) by (simp add: put_new_def)
  then show ?thesis using c(4) by (simp add: Store_Create_def Let_def)
qed

lemma Create_exists:
  assumes "ce_err (this_call w) (QKeyExists key) = None" "current (at_call w) key = Some p"
  shows "Store_Create key val lease w = (0, Some ErrKeyExists, served w)"
proof -
  have "createTxn key val lease () (handle w) = (Inl ErrKeyExists, ())"
    using assms by (simp add: createTxn_def keyExistsTxn_eq)
  then show ?thesis using create.read_write_error [of key val lease "()" w]
    by (simp add: Store_Create_def)
qed

lemma Update_ok:
  assumes "committed {key} w" "ce_err (this_call w) (QLatest key) = None"
    and "current (at_call w) key = Some p" "Rev p = revision"
  shows "Store_Update key val revision lease w =
    (ce_ts (this_call w), Some p, True, None,
     notify (ce_ts (this_call w)) ((served w)\<lparr>w_db := put_over key val lease False p w\<rparr>))"
proof -
  note c = committedD [OF assms(1)]
  have "updateTxn key val revision lease None (handle w) =
      (Inr [InsertKV CommitTimestamp key val (Value p) lease False False
        (TS (revToTS (CreateRevision p))) (TS (revToTS (Rev p)))], Some p)"
    using assms(2-4) by (simp add: updateTxn_def getLatestTxn_eq)
  then have "read_write (updateTxn key val revision lease) None w =
      (Inr (ce_ts (this_call w)), Some p, (served w)\<lparr>w_db := put_over key val lease False p w\<rparr>)"
    using update.read_write_committed [of key val revision lease None w]
      insert_over [OF c(2)] c(3) by (simp add: put_over_def)
  then show ?thesis using c(4) by (simp add: Store_Update_def Let_def)
qed

lemma Update_failed:
  assumes "ce_err (this_call w) (QLatest key) = None"
    and "\<And>p. current (at_call w) key = Some p \<Longrightarrow> Rev p \<noteq> revision"
  shows "\<exists>curRev. Store_Update key val revision lease w =
    (curRev, current (at_call w) key, False, None, served (served w))"
proof -
  have "updateTxn key val revision lease None (handle w) =
      (Inl (case current (at_call w) key of None \<Rightarrow> ErrKeyNotFound | Some _ \<Rightarrow> ErrRevisionMismatch),
       current (at_call w) key)"
    using assms by (auto simp: updateTxn_def getLatestTxn_eq split: option.split)
  then show ?thesis using update.read_write_error [of key val revision lease None w]
    by (cases rule: CurrentRevision_shape [of "served w"])
       (simp add: Store_Update_def split: option.split)
qed

lemma Delete_ok:
  assumes "committed {key} w" "ce_err (this_call w) (QLatest key) = None"
    and "current (at_call w) key = Some p" "revision = 0 \<or> Rev p = revision"
  shows "Store_Delete key revision w =
    (ce_ts (this_call w), Some p, True, None,
     notify (ce_ts (this_call w)) ((served w)\<lparr>w_db := put_over key None 0 True p w\<rparr>))"
proof -
  note c = committedD [OF assms(1)]
  have "deleteTxn key revision None (handle w) = (Inr [tombstone key p], Some p)"
    using assms(2-4) by (auto simp: deleteTxn_def getLatestTxn_eq)
  then have "read_write (deleteTxn key revision) None w =
      (Inr (ce_ts (this_call w)), Some p, (served w)\<lparr>w_db := put_over key None 0 True p w\<rparr>)"
    using delete.read_write_committed [of key revision None w]
      insert_tombstone [OF c(2)] c(3) by (simp add: put_over_def)
  then show ?thesis using c(4) by (simp add: Store_Delete_def Let_def)
qed

lemma Delete_failed:
  assumes "ce_err (this_call w) (QLatest key) = None"
    and "\<And>p. current (at_call w) key = Some p \<Longrightarrow> revision \<noteq> 0 \<and> Rev p \<noteq> revision"
  shows "\<exists>curRev. Store_Delete key revision w =
    (curRev, current (at_call w) key, False, None, served (served w))"
proof -
  have "deleteTxn key revision None (handle w) =
      (Inl (case current (at_call w) key of None \<Rightarrow> ErrKeyNotFound | Some _ \<Rightarrow> ErrRevisionMismatch),
       current (at_call w) key)"
    using assms by (auto simp: deleteTxn_def getLatestTxn_eq split: option.split)
  then show ?thesis using delete.read_write_error [of key revision None w]
    by (cases rule: CurrentRevision_shape [of "served w"])
       (simp add: Store_Delete_def split: option.split)
qed

text \<open>
  C17: \<open>Create\<close> on a key that does not exist writes it: the revision returned is the commit
  timestamp, the abstract store changes at that key only, and the new entry was created and
  modified at that revision.  On a key that exists it returns \<open>ErrKeyExists\<close> and writes
  nothing.  Attempts that Spanner aborted before make no difference.
\<close>

theorem Create_correct:
  assumes "wf_db (at_call w)" and "fresh_env {key} (this_call w) (at_call w)"
    and "ce_fate (this_call w) = Committed" and "ce_err (this_call w) (QKeyExists key) = None"
  shows "case Store_Create key val lease w of (rv, err, w') \<Rightarrow>
    (if key \<in> dom (abs_store (at_call w))
     then err = Some ErrKeyExists \<and> rv = 0 \<and> w' = served w
     else err = None \<and> rv = ce_ts (this_call w) \<and>
       abs_store (w_db w') = a_put key val lease rv (abs_store (at_call w)) \<and>
       abs_store (w_db w') key =
         Some \<lparr>a_value = val, a_lease = lease, a_mod = rv, a_create = rv\<rparr> \<and>
       wf_db (w_db w'))"
proof -
  have c: "committed {key} w" using assms by (simp add: committed_def)
  show ?thesis
  proof (cases "current (at_call w) key")
    case None
    then show ?thesis using Create_new [OF c assms(4) None] put_new_db [OF c None]
      by (simp add: a_put_def dom_def abs_store_def [of "at_call w"])
  next
    case (Some p)
    then show ?thesis using Create_exists [OF assms(4) Some] current_Rev [OF Some]
      by (simp add: dom_def)
  qed
qed

theorem Create_correct_witness:
  "case Store_Create ''d'' (Some ''n'') 0 (demo_world demo_db) of (rv, err, w') \<Rightarrow>
     err = None \<and> rv = 100 \<and>
     abs_store (w_db w') ''d'' = Some \<lparr>a_value = Some ''n'', a_lease = 0, a_mod = 100, a_create = 100\<rparr>"
  using Create_correct [of "demo_world demo_db" "''d''" "Some ''n''" 0] wf_demo
    fresh_demo [of 100 "{''d''}"] abs_demo by (auto simp: dom_def)

text \<open>
  C3: \<open>Update\<close> is a compare-and-swap.  It succeeds exactly when the key exists and was last
  modified at the given revision; then the abstract store changes at that key only and keeps
  the key's creation revision.  Otherwise nothing is written and no error is reported.  In both
  cases the previous entry is returned.
\<close>

theorem Update_correct:
  assumes "wf_db (at_call w)" and "fresh_env {key} (this_call w) (at_call w)"
    and "ce_fate (this_call w) = Committed" and "ce_err (this_call w) (QLatest key) = None"
  shows "case Store_Update key val revision lease w of (rv, prev, ok, err, w') \<Rightarrow>
    err = None \<and> map_option entry_of prev = abs_store (at_call w) key \<and>
    (ok \<longleftrightarrow> (\<exists>a. abs_store (at_call w) key = Some a \<and> a_mod a = revision)) \<and>
    (if ok then rv = ce_ts (this_call w) \<and> wf_db (w_db w') \<and>
       abs_store (w_db w') = a_put key val lease rv (abs_store (at_call w))
     else w' = served (served w))"
proof -
  have c: "committed {key} w" using assms by (simp add: committed_def)
  show ?thesis
  proof (cases "\<exists>p. current (at_call w) key = Some p \<and> Rev p = revision")
    case True
    then obtain p where p: "current (at_call w) key = Some p" "Rev p = revision" by blast
    show ?thesis using Update_ok [OF c assms(4) p] put_over_db [OF c p(1)] current_Rev [OF p(1)] p(2)
      by (simp add: entry_of_def)
  next
    case False
    then show ?thesis using Update_failed [OF assms(4), of revision val lease]
      by (auto simp: abs_store_def entry_of_def)
  qed
qed

theorem Update_correct_witness:
  "case Store_Update ''a'' (Some ''n'') 30 7 (demo_world demo_db) of (rv, prev, ok, err, w') \<Rightarrow>
     ok \<and> rv = 100 \<and>
     abs_store (w_db w') ''a'' = Some \<lparr>a_value = Some ''n'', a_lease = 7, a_mod = 100, a_create = 10\<rparr>"
  using Update_correct [where w = "demo_world demo_db" and key = "''a''" and val = "Some ''n''"
      and revision = 30 and lease = 7] wf_demo
    fresh_demo [of 100 "{''a''}"] abs_demo by (auto simp: a_put_def)

text \<open>
  C18: \<open>Delete\<close> writes a tombstone exactly when the key exists and either no revision is
  given or the key was last modified at it; the abstract store then loses that key and nothing
  else.  Otherwise nothing is written and no error is reported.  The deleted entry is returned.
\<close>

theorem Delete_correct:
  assumes "wf_db (at_call w)" and "fresh_env {key} (this_call w) (at_call w)"
    and "ce_fate (this_call w) = Committed" and "ce_err (this_call w) (QLatest key) = None"
  shows "case Store_Delete key revision w of (rv, prev, ok, err, w') \<Rightarrow>
    err = None \<and> map_option entry_of prev = abs_store (at_call w) key \<and>
    (ok \<longleftrightarrow> (\<exists>a. abs_store (at_call w) key = Some a \<and> (revision = 0 \<or> a_mod a = revision))) \<and>
    (if ok then rv = ce_ts (this_call w) \<and> wf_db (w_db w') \<and>
       abs_store (w_db w') = a_delete key (abs_store (at_call w))
     else w' = served (served w))"
proof -
  have c: "committed {key} w" using assms by (simp add: committed_def)
  show ?thesis
  proof (cases "\<exists>p. current (at_call w) key = Some p \<and> (revision = 0 \<or> Rev p = revision)")
    case True
    then obtain p where p: "current (at_call w) key = Some p" "revision = 0 \<or> Rev p = revision" by blast
    show ?thesis using Delete_ok [OF c assms(4) p] put_over_db [OF c p(1)] current_Rev [OF p(1)] p(2)
      by (simp add: entry_of_def)
  next
    case False
    then show ?thesis using Delete_failed [OF assms(4), of revision]
      by (auto simp: abs_store_def entry_of_def)
  qed
qed

theorem Delete_correct_witness:
  "case Store_Delete ''a'' 0 (demo_world demo_db) of (rv, prev, ok, err, w') \<Rightarrow>
     ok \<and> rv = 100 \<and> abs_store (w_db w') = (abs_store demo_db)(''a'' := None)"
  using Delete_correct [of "demo_world demo_db" "''a''" 0] wf_demo
    fresh_demo [of 100 "{''a''}"] abs_demo by (auto simp: a_delete_def)

text \<open>
  C19: \<open>DeleteIfLease\<close> deletes the key exactly when it exists and its current row still
  belongs to the lease, whatever the scan that found the key saw; a key reassigned to another
  lease is left alone.
\<close>

theorem DeleteIfLease_correct:
  assumes "wf_db (at_call w)" and "fresh_env {key} (this_call w) (at_call w)"
    and "ce_fate (this_call w) = Committed" and "ce_err (this_call w) (QLatest key) = None"
  shows "case Store_DeleteIfLease key lease w of (deleted, err, w') \<Rightarrow>
    err = None \<and> wf_db (w_db w') \<and>
    (deleted \<longleftrightarrow> (\<exists>a. abs_store (at_call w) key = Some a \<and> a_lease a = lease)) \<and>
    abs_store (w_db w') =
      (if deleted then a_delete key (abs_store (at_call w)) else abs_store (at_call w))"
proof -
  let ?del = "deleteIfLeaseTxn key lease"
  show ?thesis
  proof (cases "\<exists>p. current (at_call w) key = Some p \<and> LeaseID p = lease")
    case False
    with assms have cb: "?del False (handle w) = (Inr [], False)"
      by (auto simp: deleteIfLeaseTxn_def getLatestTxn_eq split: option.splits)
    then have "read_write ?del False w = (Inr (ce_ts (this_call w)), False, (served w)\<lparr>w_db := at_call w\<rparr>)"
      using deleteIfLease.read_write_committed [of key lease False w] assms(3) by simp
    then show ?thesis using False assms(1)
      by (auto simp: Store_DeleteIfLease_def abs_store_def entry_of_def)
  next
    case True
    then obtain p where p: "current (at_call w) key = Some p" "LeaseID p = lease" by blast
    let ?db' = "append_row (over_row (ce_ts (this_call w)) (ce_id (this_call w) 0) key None 0 True p) (at_call w)"
    from p assms have "?del False (handle w) = (Inr [tombstone key p], True)"
      by (simp add: deleteIfLeaseTxn_def getLatestTxn_eq)
    then have "read_write ?del False w =
        (Inr (ce_ts (this_call w)), True, (served w)\<lparr>w_db := ?db'\<rparr>)"
      using deleteIfLease.read_write_committed [of key lease False w]
        insert_tombstone [OF assms(2)] assms(3) by simp
    then show ?thesis
      using over_row_env [OF assms(1) p(1) assms(2)] current_Rev [OF p(1)] p(2)
      by (simp add: Store_DeleteIfLease_def entry_of_def)
  qed
qed

theorem DeleteIfLease_correct_witness:
  "case Store_DeleteIfLease ''a'' 8 (demo_world demo_db) of (deleted, err, w') \<Rightarrow>
     \<not> deleted \<and> err = None \<and> abs_store (w_db w') = abs_store demo_db"
  using DeleteIfLease_correct [of "demo_world demo_db" "''a''" 8] wf_demo
    fresh_demo [of 100 "{''a''}"] abs_demo by auto

text \<open>
  C24: a write whose commit Spanner refuses changes nothing: \<open>Create\<close>, \<open>Update\<close>,
  \<open>Delete\<close> and \<open>DeleteIfLease\<close> leave the database as other clients left it, wake no
  watcher, and none of them reports success.
\<close>

theorem refused_commit_harmless:
  assumes "ce_fate (this_call w) = NotCommitted e"
  shows "case (Store_Create key val lease w, Store_Update key val revision lease w,
      Store_Delete key revision w, Store_DeleteIfLease key lease w) of
    ((_, err1, w1), (_, _, ok2, _, w2), (_, _, ok3, _, w3), (deleted4, err4, w4)) \<Rightarrow>
      err1 \<noteq> None \<and> w1 = served w \<and>
      \<not> ok2 \<and> w2 \<in> {served w, served (served w)} \<and>
      \<not> ok3 \<and> w3 \<in> {served w, served (served w)} \<and>
      \<not> deleted4 \<and> err4 \<noteq> None \<and> w4 = served w"
proof -
  obtain c e2 where cr: "Store_CurrentRevision (served w) = (c, e2, served (served w))"
    by (rule CurrentRevision_shape)
  have "case Store_Create key val lease w of (_, err1, w1) \<Rightarrow> err1 \<noteq> None \<and> w1 = served w"
    using read_write_refused [OF assms, of "createTxn key val lease" "()"]
    by (auto simp: Store_Create_def)
  moreover have "case Store_Update key val revision lease w of (_, _, ok2, _, w2) \<Rightarrow>
      \<not> ok2 \<and> w2 \<in> {served w, served (served w)}"
    using read_write_refused [OF assms, of "updateTxn key val revision lease" None] cr
    by (auto simp: Store_Update_def split: if_splits)
  moreover have "case Store_Delete key revision w of (_, _, ok3, _, w3) \<Rightarrow>
      \<not> ok3 \<and> w3 \<in> {served w, served (served w)}"
    using read_write_refused [OF assms, of "deleteTxn key revision" None] cr
    by (auto simp: Store_Delete_def split: if_splits)
  moreover have "case Store_DeleteIfLease key lease w of (deleted4, err4, w4) \<Rightarrow>
      \<not> deleted4 \<and> err4 \<noteq> None \<and> w4 = served w"
    using read_write_refused [OF assms, of "deleteIfLeaseTxn key lease" False]
    by (auto simp: Store_DeleteIfLease_def)
  ultimately show ?thesis by (simp split: prod.splits)
qed

theorem refused_commit_harmless_witness:
  "let w = (demo_world demo_db)\<lparr>w_env := (\<lambda>n. (demo_call 100)\<lparr>ce_fate := NotCommitted (Status Unavailable [])\<rparr>)\<rparr>
   in case Store_Create ''d'' (Some ''n'') 0 w of (rv, err, w') \<Rightarrow> err \<noteq> None \<and> w_db w' = demo_db"
  using refused_commit_harmless [of
      "(demo_world demo_db)\<lparr>w_env := (\<lambda>n. (demo_call 100)\<lparr>ce_fate := NotCommitted (Status Unavailable [])\<rparr>)\<rparr>"
      "Status Unavailable []" "''d''" "Some ''n''" 0]
  by (auto simp: Let_def this_call_def at_call_def served_def split: prod.splits)

end
