(* ===== verification/Store_Reads.thy ===== *)
theory Store_Reads
  imports Store_Writes
begin

text \<open>
  The reads of the store against the log.  \<open>grows\<close> is what external consistency gives
  between two strong reads: rows that were visible stay (until compaction removes them), and
  what appears later was committed later.
\<close>

section \<open>The current revision\<close>

definition current_rev :: "database \<Rightarrow> int" where
  "current_rev db = (case newest (kv db) of None \<Rightarrow> 1 | Some r \<Rightarrow> r_rev r)"

lemma current_rev_ge:
  assumes "wf_db db"
  shows "r \<in> set (kv db) \<Longrightarrow> r_rev r \<le> current_rev db" and "1 \<le> current_rev db"
proof -
  have "1 \<le> current_rev db \<and> (r \<in> set (kv db) \<longrightarrow> r_rev r \<le> current_rev db)"
  proof (cases "newest (kv db)")
    case None
    then show ?thesis by (simp add: current_rev_def)
  next
    case (Some n)
    then have "wf_row n" using wf_dbD [OF assms newest_SomeD(1) [OF Some]] by simp
    with Some newest_SomeD(2) [OF Some] show ?thesis
      by (auto simp: current_rev_def wf_row_def)
  qed
  then show "r \<in> set (kv db) \<Longrightarrow> r_rev r \<le> current_rev db" "1 \<le> current_rev db" by auto
qed

lemma CurrentRevision_eq:
  assumes "wf_db (at_call w)"
  shows "Store_CurrentRevision w =
    (case ce_err (this_call w) QCurrentRevision of
       Some e \<Rightarrow> (0, Some (Wrapped ''current revision'' e), served w)
     | None \<Rightarrow> (current_rev (at_call w), None, served w))"
proof (cases "newest (kv (at_call w))")
  case None
  then show ?thesis
    by (simp add: Store_CurrentRevision_def single_eq current_rev_def split: option.split)
next
  case (Some r)
  then have "wf_row r" using wf_dbD [OF assms newest_SomeD(1) [OF Some]] by simp
  with Some show ?thesis
    by (auto simp: Store_CurrentRevision_def single_eq current_rev_def wf_row_def tsToRev_id Let_def
        split: option.split)
qed

definition compact_rev :: "database \<Rightarrow> int" where
  "compact_rev db = (case kv_rev db CompactRevRow of None \<Rightarrow> 1 | Some t \<Rightarrow> t)"

lemma compactRevision_eq:
  assumes "wf_db (at_call w)"
  shows "Store_compactRevision w =
    (case ce_err (this_call w) QCompactRev of
       Some e \<Rightarrow> if ErrCode e = Some NotFound then (1, None, served w) else (0, Some e, served w)
     | None \<Rightarrow> (compact_rev (at_call w), None, served w))"
  using assms
  by (auto simp: Store_compactRevision_def single_eq compact_rev_def wf_db_def tsToRev_id
      split: option.splits)

lemma compact_rev_ge: "wf_db db \<Longrightarrow> 1 \<le> compact_rev db"
  by (simp add: compact_rev_def wf_db_def split: option.splits)

section \<open>Snapshots\<close>

definition grows :: "database \<Rightarrow> database \<Rightarrow> bool" where
  "grows db db' \<longleftrightarrow> set (kv db) \<subseteq> set (kv db') \<and>
     (\<forall>r \<in> set (kv db'). r \<in> set (kv db) \<or> current_rev db < r_rev r)"

lemma grows_refl: "grows db db"
  by (simp add: grows_def)

lemma select_as_of_grows:
  assumes "wf_db db'" "grows db db'" "cap \<le> current_rev db"
  shows "select_as_of key cap db' = select_as_of key cap db"
  unfolding select_as_of_def
proof (rule newest_cong [where k = key])
  show "wf_rows (kv db')" using assms(1) by (simp add: wf_db_def)
  show "set (filter (\<lambda>r. r_key r = key \<and> r_rev r \<le> cap) (kv db)) =
      set (filter (\<lambda>r. r_key r = key \<and> r_rev r \<le> cap) (kv db'))"
    using assms(2,3) by (fastforce simp: grows_def)
qed auto

lemma select_as_of_current:
  assumes "wf_db db"
  shows "select_as_of key (current_rev db) db = select_latest key db"
  using current_rev_ge(1) [OF assms] by (intro select_as_of_latest) blast

lemma abs_at_current: "wf_db db \<Longrightarrow> abs_at db (current_rev db) = abs_store db"
  by (simp add: abs_at_def abs_store_def current_def select_as_of_current option.map_comp comp_def)

lemma revToTS_current: "wf_db db \<Longrightarrow> revToTS (revCap 0 (current_rev db)) = current_rev db"
  using current_rev_ge(2) [of db] by (simp add: revCap_def revToTS_def)

text \<open>The query of \<open>Get\<close>, scanned.\<close>

definition get_as_of :: "string \<Rightarrow> int \<Rightarrow> database \<Rightarrow> KV option" where
  "get_as_of key cap db = map_option scanKV (live (select_as_of key cap db))"

lemma get_as_of_abs: "map_option entry_of (get_as_of key cap db) = abs_at db cap key"
  by (simp add: get_as_of_def abs_at_def option.map_comp comp_def)

lemma get_query:
  assumes "ce_err (this_call w) (QGet key) = None"
  shows "(case single (QGet key) (select_as_of key cap) w of
     (Inl e, w3) \<Rightarrow> (0, None, Some (Wrapped (''get '' @ key) e), w3)
   | (Inr None, w3) \<Rightarrow> (cur, None, None, w3)
   | (Inr (Some r), w3) \<Rightarrow>
       (if Deleted (scanKV r) then (cur, None, None, w3) else (cur, Some (scanKV r), None, w3))) =
   (cur, get_as_of key cap (at_call w), None, served w)"
  using assms by (auto simp: single_eq get_as_of_def live_def scanKV_def split: option.split)

lemma current_rev_demo: "current_rev demo_db = 50"
  by (simp add: current_rev_def newest_def first_by_def demo_defs)

lemma compact_rev_demo: "compact_rev demo_db = 1"
  by (simp add: compact_rev_def demo_defs)

lemma abs_at_demo:
  "abs_at demo_db 25 ''a'' = Some \<lparr>a_value = Some ''x'', a_lease = 7, a_mod = 10, a_create = 10\<rparr>"
  by (simp add: abs_at_def select_as_of_def newest_def first_by_def demo_defs live_def
      scanKV_def entry_of_def tsToRev_id)

lemma get_as_of_current:
  assumes "wf_db db" "wf_db db'" "grows db db'"
  shows "get_as_of key (current_rev db) db' = current db key"
  using select_as_of_grows [OF assms(2,3)] select_as_of_current [OF assms(1)]
  by (simp add: get_as_of_def current_def)

lemma Get_current:
  assumes "wf_db (at_call w)" and "wf_db (at_call (served w))"
    and "grows (at_call w) (at_call (served w))"
    and "ce_err (this_call w) QCurrentRevision = None"
    and "ce_err (this_call (served w)) (QGet key) = None"
  shows "Store_Get key 0 w =
    (current_rev (at_call w), current (at_call w) key, None, served (served w))"
proof -
  have "Store_Get key 0 w = (current_rev (at_call w),
      get_as_of key (current_rev (at_call w)) (at_call (served w)), None, served (served w))"
    unfolding Store_Get_def CurrentRevision_eq [OF assms(1)]
    using assms(4) get_query [OF assms(5)] by (simp add: revToTS_current [OF assms(1)])
  then show ?thesis using get_as_of_current [OF assms(1-3)] by simp
qed





section \<open>Range queries\<close>

lemma filter_pairs:
  assumes "distinct ks"
  shows "filter (\<lambda>(k, m). x = k \<and> v = m) (map (\<lambda>k. (k, g k)) ks) =
    (if x \<in> set ks \<and> v = g x then [(x, v)] else [])"
  using assms by (induction ks) auto

lemma join_group_max:
  "join_latest rows (group_max F) =
     filter (\<lambda>r. r_key r \<in> r_key ` set F \<and>
       r_rev r = Max (r_rev ` set (filter (\<lambda>s. r_key s = r_key r) F))) rows"
  unfolding join_latest_def group_max_def
  by (induction rows) (simp_all add: filter_pairs)

text \<open>The rows a range query joins are the rows visible at the cap.\<close>

lemma latest_iff_as_of:
  assumes "wf_rows (kv db)" "r \<in> set (kv db)"
  shows "(r_key r \<in> r_key ` {s \<in> set (kv db). Q (r_key s) \<and> r_rev s \<le> cap} \<and>
      r_rev r = Max (r_rev ` {s \<in> set (kv db). (Q (r_key s) \<and> r_rev s \<le> cap) \<and> r_key s = r_key r})) \<longleftrightarrow>
    Q (r_key r) \<and> select_as_of (r_key r) cap db = Some r"
    (is "?L \<longleftrightarrow> ?R")
proof
  let ?S = "{s \<in> set (kv db). (Q (r_key s) \<and> r_rev s \<le> cap) \<and> r_key s = r_key r}"
  have fin: "finite (r_rev ` ?S)" by simp
  {
    assume L: ?L
    then have mx: "r_rev r = Max (r_rev ` ?S)" by (rule conjunct2)
    from L obtain s where s: "s \<in> ?S" by auto
    then have "r_rev r \<in> r_rev ` ?S" unfolding mx using fin by (intro Max_in) auto
    then have "r_rev r \<le> cap" by auto
    moreover have "r_rev s' \<le> r_rev r" if "s' \<in> ?S" for s'
      unfolding mx using that fin by (intro Max_ge) auto
    ultimately show ?R using s assms by (auto intro!: select_as_of_eqI)
  next
    assume R: ?R
    note r = select_as_of_SomeD [OF conjunct2 [OF R]]
    then have rS: "r \<in> ?S" using R by auto
    moreover have "r_rev r = Max (r_rev ` ?S)"
      using rS r(4) by (intro Max_eqI [symmetric]) auto
    ultimately show ?L by auto
  }
qed

lemma live_at_eq:
  assumes "wf_rows (kv db)"
  shows "live_at pat st cap db =
    filter (\<lambda>r. like pat (r_key r) \<and> st \<le> r_key r \<and> select_as_of (r_key r) cap db = Some r \<and>
      \<not> r_deleted r) (kv db)"
proof -
  have "(r_key r \<in> r_key ` set (filter (\<lambda>r. like pat (r_key r) \<and> st \<le> r_key r \<and> r_rev r \<le> cap) (kv db)) \<and>
      r_rev r = Max (r_rev ` set (filter (\<lambda>s. r_key s = r_key r)
        (filter (\<lambda>r. like pat (r_key r) \<and> st \<le> r_key r \<and> r_rev r \<le> cap) (kv db))))) \<longleftrightarrow>
      like pat (r_key r) \<and> st \<le> r_key r \<and> select_as_of (r_key r) cap db = Some r"
    if "r \<in> set (kv db)" for r
    using latest_iff_as_of [OF assms that, of "\<lambda>k. like pat k \<and> st \<le> k" cap]
    by (simp add: conj_assoc)
  then show ?thesis unfolding live_at_def join_group_max filter_filter
    by (intro filter_cong) auto
qed

lemma live_at_distinct:
  assumes "wf_rows (kv db)"
  shows "distinct (map r_key (live_at pat st cap db))"
proof -
  have "distinct (kv db)" using assms by (auto simp: wf_rows_def distinct_map)
  moreover have "inj_on r_key (set (live_at pat st cap db))"
  proof (rule inj_onI)
    fix r s assume "r \<in> set (live_at pat st cap db)" "s \<in> set (live_at pat st cap db)"
    then have "select_as_of (r_key r) cap db = Some r" "select_as_of (r_key s) cap db = Some s"
      unfolding live_at_eq [OF assms] by (simp_all only: set_filter mem_Collect_eq)
    moreover assume "r_key r = r_key s"
    ultimately show "r = s" by (metis option.inject)
  qed
  ultimately show ?thesis by (simp only: distinct_map live_at_eq [OF assms] distinct_filter)
qed

lemma live_at_keys:
  assumes "wf_rows (kv db)"
  shows "r_key ` set (live_at pat st cap db) = {k \<in> dom (abs_at db cap). like pat k \<and> st \<le> k}"
proof -
  have "k \<in> r_key ` set (live_at pat st cap db) \<longleftrightarrow>
      k \<in> dom (abs_at db cap) \<and> like pat k \<and> st \<le> k" for k
  proof -
    have "k \<in> r_key ` set (live_at pat st cap db) \<longleftrightarrow>
        (\<exists>r. select_as_of k cap db = Some r \<and> \<not> r_deleted r) \<and> like pat k \<and> st \<le> k"
      (is "_ \<longleftrightarrow> ?R")
    proof
      assume "k \<in> r_key ` set (live_at pat st cap db)"
      then obtain r where "r \<in> set (live_at pat st cap db)" "k = r_key r" by blast
      then show ?R unfolding live_at_eq [OF assms] set_filter mem_Collect_eq by blast
    next
      assume ?R
      then obtain r where r: "select_as_of k cap db = Some r" "\<not> r_deleted r" "like pat k" "st \<le> k"
        by blast
      with select_as_of_SomeD(1,2) [OF r(1)] have "r \<in> set (live_at pat st cap db)"
        unfolding live_at_eq [OF assms] set_filter mem_Collect_eq by blast
      with select_as_of_SomeD(2) [OF r(1)] show "k \<in> r_key ` set (live_at pat st cap db)" by blast
    qed
    then show ?thesis by (auto simp: abs_at_def live_def dom_def split: option.splits)
  qed
  then show ?thesis by blast
qed

lemma map_sort_key: "map f (sort_key f xs) = sort (map f xs)"
  by (rule properties_for_sort [symmetric]) simp_all

lemma sorted_keys:
  assumes "distinct (map f xs)"
  shows "map f (sort_key f xs) = sorted_list_of_set (f ` set xs)"
  using assms by (simp add: map_sort_key sorted_list_of_set_sort_remdups distinct_remdups_id
      flip: set_map)

lemma limitClause_map: "map f (limitClause n xs) = limitClause n (map f xs)"
  by (simp add: limitClause_def take_map)

lemma set_limitClause: "set (limitClause n xs) \<subseteq> set xs"
  by (simp add: limitClause_def set_take_subset)

lemma select_list_keys:
  assumes "wf_db db"
  shows "map Key (map scanKV (select_list pat st cap limit db)) =
    limitClause limit (sorted_list_of_set {k \<in> dom (abs_at db cap). like pat k \<and> st \<le> k})"
proof -
  have rows: "wf_rows (kv db)" using assms by (simp add: wf_db_def)
  have "map Key (map scanKV (select_list pat st cap limit db)) =
      limitClause limit (map r_key (sort_key r_key (live_at pat st cap db)))"
    by (simp add: select_list_def limitClause_map comp_def scanKV_def)
  then show ?thesis
    by (simp only: sorted_keys [OF live_at_distinct [OF rows]] live_at_keys [OF rows])
qed

lemma select_list_entries:
  assumes "wf_db db" "k \<in> set (map scanKV (select_list pat st cap limit db))"
  shows "abs_at db cap (Key k) = Some (entry_of k)"
proof -
  have rows: "wf_rows (kv db)" using assms(1) by (simp add: wf_db_def)
  from assms(2) obtain r where r: "k = scanKV r" "r \<in> set (live_at pat st cap db)"
    using set_limitClause [of limit "sort_key r_key (live_at pat st cap db)"]
    by (auto simp: select_list_def)
  then show ?thesis
    by (auto simp: live_at_eq [OF rows] abs_at_def live_def scanKV_def)
qed

text \<open>A prefix without a LIKE metacharacter selects exactly the keys that start with it.\<close>

lemma likePrefix_literal: "like_literal p \<Longrightarrow> like (likePrefix p) k \<longleftrightarrow> HasPrefix k p"
  by (simp add: likePrefix_def like_literal_prefix HasPrefix_iff)

lemma abs_at_grows:
  assumes "wf_db db" "wf_db db'" "grows db db'"
  shows "abs_at db' (current_rev db) = abs_store db"
  using select_as_of_grows [OF assms(2,3)] abs_at_current [OF assms(1)]
  by (simp add: abs_at_def fun_eq_iff)

lemma List_current:
  assumes "wf_db (at_call w)" "wf_db (at_call (served w))" "wf_db (at_call (served (served w)))"
    and "grows (at_call w) (at_call (served (served w)))"
    and "ce_err (this_call w) QCurrentRevision = None"
    and "ce_err (this_call (served w)) QCompactRev = None"
    and "ce_err (this_call (served (served w))) (QList p) = None"
  shows "\<exists>kvs. Store_List p startKey limit 0 w =
      (current_rev (at_call w), compact_rev (at_call (served w)), kvs, None, served (served (served w))) \<and>
    map Key kvs = limitClause limit (sorted_list_of_set
      {k \<in> dom (abs_store (at_call w)). like (likePrefix p) k \<and> startKey \<le> k}) \<and>
    (\<forall>k \<in> set kvs. abs_store (at_call w) (Key k) = Some (entry_of k))"
proof -
  let ?db = "at_call (served (served w))" and ?cap = "current_rev (at_call w)"
  let ?kvs = "map scanKV (select_list (likePrefix p) startKey ?cap limit ?db)"
  have view: "abs_at ?db ?cap = abs_store (at_call w)" by (rule abs_at_grows [OF assms(1,3,4)])
  have eq: "Store_List p startKey limit 0 w =
      (?cap, compact_rev (at_call (served w)), ?kvs, None, served (served (served w)))"
    using assms(5-7) by (simp add: Store_List_def CurrentRevision_eq [OF assms(1)]
        compactRevision_eq [OF assms(2)] single_eq revToTS_current [OF assms(1)])
  have keys: "map Key ?kvs = limitClause limit
      (sorted_list_of_set {k \<in> dom (abs_store (at_call w)). like (likePrefix p) k \<and> startKey \<le> k})"
    unfolding select_list_keys [OF assms(3)] view ..
  have ents: "\<forall>k \<in> set ?kvs. abs_store (at_call w) (Key k) = Some (entry_of k)"
    using select_list_entries [OF assms(3)] view by metis
  show ?thesis by (intro exI [of _ ?kvs] conjI eq keys ents)
qed



text \<open>
  \<open>Count\<close> is the number of keys an unlimited \<open>List\<close> of the same range returns.
\<close>

theorem Count_correct:
  assumes "wf_db (at_call w)" "wf_db (at_call (served w))"
    and "grows (at_call w) (at_call (served w))"
    and "ce_err (this_call w) QCurrentRevision = None"
    and "ce_err (this_call (served w)) (QCount p) = None" and "like_literal p"
  shows "case Store_Count p startKey 0 w of (rv, n, err, w') \<Rightarrow>
    err = None \<and> rv = current_rev (at_call w) \<and>
    n = int (card {k \<in> dom (abs_store (at_call w)). HasPrefix k p \<and> startKey \<le> k})"
proof -
  let ?db = "at_call (served w)"
  have rows: "wf_rows (kv ?db)" using assms(2) by (simp add: wf_db_def)
  let ?rows = "live_at (likePrefix p) startKey (current_rev (at_call w)) ?db"
  have keys: "r_key ` set ?rows = {k \<in> dom (abs_store (at_call w)). HasPrefix k p \<and> startKey \<le> k}"
    unfolding live_at_keys [OF rows] abs_at_grows [OF assms(1,2,3)] likePrefix_literal [OF assms(6)] ..
  have "length ?rows = card (r_key ` set ?rows)"
    using distinct_card [OF live_at_distinct [OF rows]] by (simp only: length_map set_map)
  then show ?thesis using assms(4,5) unfolding keys
    by (simp add: Store_Count_def CurrentRevision_eq [OF assms(1)] single_eq select_count_def
        revToTS_current [OF assms(1)])
qed

theorem Count_correct_witness:
  "case Store_Count [] [] 0 (demo_world demo_db) of (rv, n, err, w') \<Rightarrow>
     err = None \<and> rv = 50 \<and> n = int (card (dom (abs_store demo_db)))"
  using Count_correct [where w = "demo_world demo_db" and p = "[]" and startKey = "[]"] wf_demo grows_refl current_rev_demo
  by (auto simp: like_literal_def dom_def split: prod.splits)

end
