(* ===== verification/Store_Txn.thy ===== *)
theory Store_Txn
  imports Store_Reads
begin

text \<open>
  \<open>AtomicTxn\<close> of \<open>pkg/store/store.go\<close>: compares and operations in one read-write
  transaction.  The variables its callback captures (\<open>succeeded\<close>, \<open>results\<close>,
  \<open>hasMutations\<close>, \<open>commitRev\<close>, \<open>snapshotRev\<close>) are a record; the abstract
  transaction it implements is \<open>a_txn\<close>.
\<close>

section \<open>Data\<close>

datatype TxnOpType = TxnOpPut | TxnOpDelete | TxnOpGet | TxnOpOther int

record TxnOp =
  op_Type :: TxnOpType
  op_Key :: string
  op_Value :: bytes
  op_LeaseID :: int

record TxnResult =
  res_KV :: "KV option"
  res_Ok :: bool

record TxnCompare =
  cmp_Key :: string
  cmp_Evaluate :: "(KV option \<Rightarrow> bool) option"
  cmp_Err :: "goerr option"

record TxnVars =
  v_succeeded :: bool
  v_results :: "TxnResult list"
  v_hasMutations :: bool
  v_commitRev :: int
  v_snapshotRev :: int

section \<open>The transaction\<close>

fun validateCompares :: "TxnCompare list \<Rightarrow> goerr option" where
  "validateCompares [] = None"
| "validateCompares (c # cs) =
     (case cmp_Err c of
        Some e \<Rightarrow> Some e
      | None \<Rightarrow>
          if cmp_Evaluate c = None
          then Some (Errorf (''TxnCompare.Evaluate must not be nil for key '' @ cmp_Key c))
          else validateCompares cs)"

fun evalCompares :: "txn \<Rightarrow> TxnCompare list \<Rightarrow> goerr + bool" where
  "evalCompares t [] = Inr True"
| "evalCompares t (c # cs) =
     (case getLatestTxn t (cmp_Key c) of
        Inl e \<Rightarrow> Inl e
      | Inr k \<Rightarrow> if \<not> the (cmp_Evaluate c) k then Inr False else evalCompares t cs)"

definition mutates :: "TxnOp \<Rightarrow> bool" where
  "mutates op \<longleftrightarrow> op_Type op = TxnOpPut \<or> op_Type op = TxnOpDelete"

text \<open>The first key that a branch mutates twice.\<close>

fun dupMutation :: "string list \<Rightarrow> TxnOp list \<Rightarrow> string option" where
  "dupMutation seen [] = None"
| "dupMutation seen (op # ops) =
     (if mutates op then
        (if op_Key op \<in> set seen then Some (op_Key op) else dupMutation (op_Key op # seen) ops)
      else dupMutation seen ops)"

definition dupError :: "string \<Rightarrow> goerr" where
  "dupError key = Errorf (''duplicate mutation for key '' @ key @ '' in single Txn branch'')"

definition putMutation :: "TxnOp \<Rightarrow> KV option \<Rightarrow> mutation" where
  "putMutation op prev =
     InsertKV CommitTimestamp (op_Key op) (op_Value op)
       (case prev of None \<Rightarrow> None | Some p \<Rightarrow> Value p) (op_LeaseID op) False (prev = None)
       (case prev of None \<Rightarrow> CommitTimestamp | Some p \<Rightarrow> TS (revToTS (CreateRevision p)))
       (case prev of None \<Rightarrow> NullTS | Some p \<Rightarrow> TS (revToTS (Rev p)))"

fun execOps :: "txn \<Rightarrow> TxnOp list \<Rightarrow> mutation list \<Rightarrow> TxnVars \<Rightarrow> (goerr + mutation list) \<times> TxnVars" where
  "execOps t [] ms v = (Inr ms, v)"
| "execOps t (op # ops) ms v =
     (case op_Type op of
        TxnOpGet \<Rightarrow>
          (case getLatestTxn t (op_Key op) of
             Inl e \<Rightarrow> (Inl e, v)
           | Inr k \<Rightarrow>
               execOps t ops ms (v\<lparr>v_results := v_results v @ [\<lparr>res_KV = k, res_Ok = (k \<noteq> None)\<rparr>]\<rparr>))
      | TxnOpPut \<Rightarrow>
          (case getLatestTxn t (op_Key op) of
             Inl e \<Rightarrow> (Inl e, v)
           | Inr prev \<Rightarrow>
               execOps t ops (ms @ [putMutation op prev])
                 (v\<lparr>v_hasMutations := True,
                    v_results := v_results v @ [\<lparr>res_KV = prev, res_Ok = True\<rparr>]\<rparr>))
      | TxnOpDelete \<Rightarrow>
          (case getLatestTxn t (op_Key op) of
             Inl e \<Rightarrow> (Inl e, v)
           | Inr None \<Rightarrow>
               execOps t ops ms (v\<lparr>v_results := v_results v @ [\<lparr>res_KV = None, res_Ok = False\<rparr>]\<rparr>)
           | Inr (Some prev) \<Rightarrow>
               execOps t ops (ms @ [tombstone (op_Key op) prev])
                 (v\<lparr>v_hasMutations := True,
                    v_results := v_results v @ [\<lparr>res_KV = Some prev, res_Ok = True\<rparr>]\<rparr>))
      | TxnOpOther n \<Rightarrow> (Inl (Errorf ''unknown TxnOpType''), v))"

definition select_max_rev :: "database \<Rightarrow> int option" where
  "select_max_rev db = (if kv db = [] then None else Some (Max (r_rev ` set (kv db))))"

definition atomicTxn :: "TxnCompare list \<Rightarrow> TxnOp list \<Rightarrow> TxnOp list \<Rightarrow> TxnVars \<Rightarrow> txn
    \<Rightarrow> (goerr + mutation list) \<times> TxnVars" where
  "atomicTxn compares successOps failureOps v0 t =
     (let v = v0\<lparr>v_succeeded := True, v_results := [], v_hasMutations := False, v_commitRev := 0,
                 v_snapshotRev := 0\<rparr>
      in (case evalCompares t compares of
            Inl e \<Rightarrow> (Inl e, v)
          | Inr s \<Rightarrow>
              (let v1 = v\<lparr>v_succeeded := s\<rparr>;
                   ops = (if s then successOps else failureOps)
               in (case dupMutation [] ops of
                     Some key \<Rightarrow> (Inl (dupError key), v1)
                   | None \<Rightarrow>
                       (case execOps t ops [] v1 of
                          (Inl e, v2) \<Rightarrow> (Inl e, v2)
                        | (Inr ms, v2) \<Rightarrow>
                            (if \<not> v_hasMutations v2 then
                               (case txn_read t QMaxRev select_max_rev of
                                  Inl e \<Rightarrow> (Inl (Wrapped ''snapshot revision query'' e), v2)
                                | Inr None \<Rightarrow> (Inr ms, v2)
                                | Inr (Some ts) \<Rightarrow> (Inr ms, v2\<lparr>v_snapshotRev := tsToRev ts\<rparr>))
                             else (Inr ms, v2)))))))"

definition initVars :: TxnVars where
  "initVars = \<lparr>v_succeeded = False, v_results = [], v_hasMutations = False, v_commitRev = 0,
    v_snapshotRev = 0\<rparr>"

definition Store_AtomicTxn :: "TxnCompare list \<Rightarrow> TxnOp list \<Rightarrow> TxnOp list \<Rightarrow> world
    \<Rightarrow> bool \<times> TxnResult list \<times> int \<times> goerr option \<times> world" where
  "Store_AtomicTxn compares successOps failureOps w =
     (case validateCompares compares of
        Some e \<Rightarrow> (False, [], 0, Some e, w)
      | None \<Rightarrow>
          (case read_write (atomicTxn compares successOps failureOps) initVars w of
             (Inl e, _, w1) \<Rightarrow> (False, [], 0, Some e, w1)
           | (Inr commitTS, v, w1) \<Rightarrow>
               (if v_hasMutations v then
                  (let commitRev = tsToRev commitTS
                   in (v_succeeded v, v_results v, commitRev, None,
                       if commitRev > 0 then notify commitRev w1 else w1))
                else
                  (v_succeeded v, v_results v,
                   if v_snapshotRev v = 0 then 1 else v_snapshotRev v, None, w1))))"

section \<open>The abstract transaction\<close>

definition a_op :: "int \<Rightarrow> TxnOp \<Rightarrow> astore \<Rightarrow> astore" where
  "a_op ts op m =
     (case op_Type op of
        TxnOpPut \<Rightarrow> a_put (op_Key op) (op_Value op) (op_LeaseID op) ts m
      | TxnOpDelete \<Rightarrow> a_delete (op_Key op) m
      | _ \<Rightarrow> m)"

definition a_txn :: "int \<Rightarrow> TxnOp list \<Rightarrow> astore \<Rightarrow> astore" where
  "a_txn ts ops m = fold (a_op ts) ops m"

definition mutated_keys :: "TxnOp list \<Rightarrow> string list" where
  "mutated_keys ops = map op_Key (filter mutates ops)"

text \<open>What one operation buffers and reports, from the state before the transaction.\<close>

definition op_mutations :: "database \<Rightarrow> TxnOp \<Rightarrow> mutation list" where
  "op_mutations db op =
     (case op_Type op of
        TxnOpPut \<Rightarrow> [putMutation op (current db (op_Key op))]
      | TxnOpDelete \<Rightarrow>
          (case current db (op_Key op) of None \<Rightarrow> [] | Some p \<Rightarrow> [tombstone (op_Key op) p])
      | _ \<Rightarrow> [])"

definition op_result :: "database \<Rightarrow> TxnOp \<Rightarrow> TxnResult" where
  "op_result db op =
     \<lparr>res_KV = current db (op_Key op),
      res_Ok = (op_Type op = TxnOpPut \<or> current db (op_Key op) \<noteq> None)\<rparr>"

section \<open>What the callback buffers\<close>

lemma dupMutation_None:
  "dupMutation seen ops = None \<longleftrightarrow>
     distinct (mutated_keys ops) \<and> set (mutated_keys ops) \<inter> set seen = {}"
  by (induction ops arbitrary: seen) (auto simp: mutated_keys_def)

definition note_ops :: "database \<Rightarrow> TxnOp list \<Rightarrow> TxnVars \<Rightarrow> TxnVars" where
  "note_ops db ops v =
     v\<lparr>v_results := v_results v @ map (op_result db) ops,
       v_hasMutations := (v_hasMutations v \<or> concat (map (op_mutations db) ops) \<noteq> [])\<rparr>"

lemma note_ops_Nil: "note_ops db [] v = v"
  by (cases v) (simp add: note_ops_def)

lemma note_ops_Cons: "note_ops db ops (note_ops db [op] v) = note_ops db (op # ops) v"
  by (cases v) (simp add: note_ops_def)

lemma execOps_step:
  assumes "t_err t (QLatest (op_Key op)) = None" "\<And>n. op_Type op \<noteq> TxnOpOther n"
  shows "execOps t (op # ops) ms v =
    execOps t ops (ms @ op_mutations (t_db t) op) (note_ops (t_db t) [op] v)"
  using assms
  by (cases v; cases "op_Type op"; cases "current (t_db t) (op_Key op)")
     (simp_all add: getLatestTxn_eq op_mutations_def op_result_def note_ops_def)

lemma execOps_fail:
  assumes "t_err t (QLatest (op_Key op)) \<noteq> None \<or> op_Type op = TxnOpOther n"
  shows "\<exists>e. fst (execOps t (op # ops) ms v) = Inl e"
  using assms by (auto simp: getLatestTxn_eq split: TxnOpType.splits)

lemma execOps_Inr:
  assumes "execOps t ops ms v = (Inr ms', v')"
  shows "ms' = ms @ concat (map (op_mutations (t_db t)) ops) \<and> v' = note_ops (t_db t) ops v"
  using assms
proof (induction ops arbitrary: ms v)
  case Nil
  then show ?case by (simp add: note_ops_Nil)
next
  case (Cons op ops)
  have "t_err t (QLatest (op_Key op)) = None" "\<And>n. op_Type op \<noteq> TxnOpOther n"
    using execOps_fail [of t op _ ops ms v] Cons.prems by (metis Inl_Inr_False fst_conv)+
  with Cons.prems have "execOps t ops (ms @ op_mutations (t_db t) op) (note_ops (t_db t) [op] v) =
      (Inr ms', v')"
    using execOps_step by metis
  from Cons.IH [OF this] show ?case by (simp add: note_ops_Cons)
qed

lemma execOps_ok:
  assumes "\<And>q. t_err t q = None" "\<And>op n. op \<in> set ops \<Longrightarrow> op_Type op \<noteq> TxnOpOther n"
  shows "\<exists>ms' v'. execOps t ops ms v = (Inr ms', v')"
  using assms
proof (induction ops arbitrary: ms v)
  case (Cons op ops)
  then show ?case using execOps_step [of t op ops ms v] by simp
qed simp

lemma dupMutation_Some: "dupMutation seen ops = Some key \<Longrightarrow> key \<in> set (mutated_keys ops)"
  by (induction ops arbitrary: seen) (auto simp: mutated_keys_def split: if_splits)

lemma evalCompares_Inr:
  "evalCompares t cs = Inr b \<Longrightarrow>
     b = (\<forall>c \<in> set cs. the (cmp_Evaluate c) (current (t_db t) (cmp_Key c)))"
  by (induction cs) (auto simp: getLatestTxn_eq split: option.splits if_splits)

lemma evalCompares_eq:
  assumes "\<And>q. t_err t q = None"
  shows "evalCompares t cs =
    Inr (\<forall>c \<in> set cs. the (cmp_Evaluate c) (current (t_db t) (cmp_Key c)))"
  using assms by (induction cs) (auto simp: getLatestTxn_eq)

section \<open>Committing the buffered mutations\<close>

text \<open>One operation buffers nothing, or one mutation that appends one row of its key.\<close>

lemma apply_op:
  assumes "wf_db db" "1 < ts" "ts < 2 ^ 63" "i \<notin> r_id ` set (kv db)"
    and "mutates op \<Longrightarrow> key_fresh ts (op_Key op) db"
    and "mutates op \<Longrightarrow> current db (op_Key op) = current db0 (op_Key op)"
  shows "op_mutations db0 op = [] \<and> a_op ts op (abs_store db) = abs_store db \<or>
    (\<exists>m r. op_mutations db0 op = [m] \<and> mutates op \<and> r_key r = op_Key op \<and> r_rev r = ts \<and>
      r_id r = i \<and> apply_mutation ts i m db = Some (append_row r db) \<and>
      wf_db (append_row r db) \<and> abs_store (append_row r db) = a_op ts op (abs_store db))"
proof (cases "op_Type op")
  case TxnOpPut
  then have mut: "mutates op" by (simp add: mutates_def)
  show ?thesis
  proof (cases "current db0 (op_Key op)")
    case None
    let ?r = "new_row ts i (op_Key op) (op_Value op) (op_LeaseID op)"
    have "op_mutations db0 op = [putMutation op None]"
      using TxnOpPut None by (simp add: op_mutations_def)
    moreover have "apply_mutation ts i (putMutation op None) db = Some (append_row ?r db)"
      using assms(4) by (simp add: putMutation_def append_row_def new_row_def)
    ultimately show ?thesis
      using new_row_commit [OF assms(1) _ assms(5) [OF mut] assms(2,3,4)] assms(6) [OF mut] None
        mut TxnOpPut by (intro disjI2 exI [of _ "putMutation op None"] exI [of _ ?r])
        (simp add: a_op_def)
  next
    case (Some p)
    let ?r = "over_row ts i (op_Key op) (op_Value op) (op_LeaseID op) False p"
    have "op_mutations db0 op = [putMutation op (Some p)]"
      using TxnOpPut Some by (simp add: op_mutations_def)
    moreover have "apply_mutation ts i (putMutation op (Some p)) db = Some (append_row ?r db)"
      using assms(4) by (simp add: putMutation_def append_row_def over_row_def)
    ultimately show ?thesis
      using over_row_commit [OF assms(1) _ assms(5) [OF mut] assms(2,3,4)] assms(6) [OF mut] Some
        mut TxnOpPut by (intro disjI2 exI [of _ "putMutation op (Some p)"] exI [of _ ?r])
        (simp add: a_op_def)
  qed
next
  case TxnOpDelete
  then have mut: "mutates op" by (simp add: mutates_def)
  show ?thesis
  proof (cases "current db0 (op_Key op)")
    case None
    then show ?thesis using TxnOpDelete assms(6) [OF mut]
      by (auto simp: op_mutations_def a_op_def a_delete_def abs_store_def fun_eq_iff)
  next
    case (Some p)
    let ?r = "over_row ts i (op_Key op) None 0 True p"
    have "op_mutations db0 op = [tombstone (op_Key op) p]"
      using TxnOpDelete Some by (simp add: op_mutations_def)
    moreover have "apply_mutation ts i (tombstone (op_Key op) p) db = Some (append_row ?r db)"
      using assms(4) by (simp add: tombstone_def append_row_def over_row_def)
    ultimately show ?thesis
      using over_row_commit [OF assms(1) _ assms(5) [OF mut] assms(2,3,4)] assms(6) [OF mut] Some
        mut TxnOpDelete
      by (intro disjI2 exI [of _ "tombstone (op_Key op) p"] exI [of _ ?r]) (simp add: a_op_def)
  qed
qed (simp_all add: op_mutations_def a_op_def)

lemma mutated_keys_simps:
  "mutated_keys [] = []"
  "mutated_keys (op # ops) = (if mutates op then op_Key op # mutated_keys ops else mutated_keys ops)"
  by (simp_all add: mutated_keys_def)

lemma apply_ops:
  assumes "wf_db db" "1 < ts" "ts < 2 ^ 63" "inj ids" "range ids \<inter> r_id ` set (kv db) = {}"
    and "distinct (mutated_keys ops)"
    and "\<And>k. k \<in> set (mutated_keys ops) \<Longrightarrow> key_fresh ts k db \<and> current db k = current db0 k"
  shows "\<exists>db'. apply_mutations ts ids (concat (map (op_mutations db0) ops)) db = Some db' \<and>
    wf_db db' \<and> abs_store db' = a_txn ts ops (abs_store db)"
  using assms
proof (induction ops arbitrary: db ids)
  case Nil
  then show ?case by (simp add: a_txn_def)
next
  case (Cons op ops)
  have i0: "ids 0 \<notin> r_id ` set (kv db)" using Cons.prems(5) by blast
  have "op_mutations db0 op = [] \<and> a_op ts op (abs_store db) = abs_store db \<or>
    (\<exists>m r. op_mutations db0 op = [m] \<and> mutates op \<and> r_key r = op_Key op \<and> r_rev r = ts \<and>
      r_id r = ids 0 \<and> apply_mutation ts (ids 0) m db = Some (append_row r db) \<and>
      wf_db (append_row r db) \<and> abs_store (append_row r db) = a_op ts op (abs_store db))"
    using Cons.prems(7) by (intro apply_op [OF Cons.prems(1,2,3) i0]) (simp_all add: mutated_keys_simps)
  then show ?case
  proof (elim disjE conjE exE)
    assume "op_mutations db0 op = []" "a_op ts op (abs_store db) = abs_store db"
    moreover have "distinct (mutated_keys ops)" "set (mutated_keys ops) \<subseteq> set (mutated_keys (op # ops))"
      using Cons.prems(6) by (auto simp: mutated_keys_simps split: if_splits)
    ultimately show ?thesis
      using Cons.IH [OF Cons.prems(1-5)] Cons.prems(7) by (auto simp: a_txn_def)
  next
    fix m r
    assume m: "op_mutations db0 op = [m]" "mutates op" "r_key r = op_Key op" "r_rev r = ts"
      "r_id r = ids 0" "apply_mutation ts (ids 0) m db = Some (append_row r db)"
      "wf_db (append_row r db)" "abs_store (append_row r db) = a_op ts op (abs_store db)"
    let ?db1 = "append_row r db" and ?ids1 = "\<lambda>j. ids (Suc j)"
    have "inj ?ids1" using Cons.prems(4) by (auto simp: inj_def)
    moreover have "range ?ids1 \<inter> r_id ` set (kv ?db1) = {}"
    proof -
      have "ids (Suc j) \<noteq> r_id r \<and> ids (Suc j) \<notin> r_id ` set (kv db)" for j
        using Cons.prems(4,5) m(5) by (auto simp: inj_eq)
      then have "ids (Suc j) \<notin> r_id ` set (kv ?db1)" for j by simp
      then show ?thesis by blast
    qed
    moreover have "distinct (mutated_keys ops)" using Cons.prems(6) m(2) by (simp add: mutated_keys_simps)
    moreover have "key_fresh ts k ?db1 \<and> current ?db1 k = current db0 k"
      if k: "k \<in> set (mutated_keys ops)" for k
    proof -
      have "k \<noteq> op_Key op" using Cons.prems(6) m(2) k by (auto simp: mutated_keys_simps)
      moreover have "key_fresh ts (op_Key op) db"
        using Cons.prems(7) m(2) by (simp add: mutated_keys_simps)
      ultimately show ?thesis using Cons.prems(7) [of k] k m(3,4) current_append [of r db k]
        by (auto simp: key_fresh_def mutated_keys_simps)
    qed
    ultimately obtain db' where
      "apply_mutations ts ?ids1 (concat (map (op_mutations db0) ops)) ?db1 = Some db'"
      "wf_db db'" "abs_store db' = a_txn ts ops (abs_store ?db1)"
      using Cons.IH [OF m(7) Cons.prems(2,3)] by blast
    then show ?thesis using m by (simp add: a_txn_def)
  qed
qed

lemma apply_ops_env:
  assumes "wf_db db" "fresh_env K c db" "distinct (mutated_keys ops)" "set (mutated_keys ops) \<subseteq> K"
  shows "\<exists>db'. apply_mutations (ce_ts c) (ce_id c) (concat (map (op_mutations db) ops)) db = Some db' \<and>
    wf_db db' \<and> abs_store db' = a_txn (ce_ts c) ops (abs_store db)"
proof (rule apply_ops [OF assms(1) fresh_envD(1,2) [OF assms(2)]])
  show "inj (ce_id c)" "range (ce_id c) \<inter> r_id ` set (kv db) = {}"
    using assms(2) by (simp_all add: fresh_env_def)
  show "distinct (mutated_keys ops)" by (rule assms(3))
  show "key_fresh (ce_ts c) k db \<and> current db k = current db k" if "k \<in> set (mutated_keys ops)" for k
    using that assms(4) fresh_envD(3) [OF assms(2), of k] by blast
qed

section \<open>The callback\<close>

definition txn_keys :: "TxnOp list \<Rightarrow> TxnOp list \<Rightarrow> string set" where
  "txn_keys s f = set (mutated_keys s) \<union> set (mutated_keys f)"

definition start_vars :: "bool \<Rightarrow> TxnVars" where
  "start_vars s = \<lparr>v_succeeded = s, v_results = [], v_hasMutations = False, v_commitRev = 0,
     v_snapshotRev = 0\<rparr>"

lemma start_vars_update [simp]: "start_vars b\<lparr>v_succeeded := b'\<rparr> = start_vars b'"
  by (simp add: start_vars_def)

lemma atomicTxn_Inr:
  assumes "fst (atomicTxn cs s f v t) = Inr ms"
  obtains b where "evalCompares t cs = Inr b" "distinct (mutated_keys (if b then s else f))"
    "ms = concat (map (op_mutations (t_db t)) (if b then s else f))"
  using assms
  by (auto simp: atomicTxn_def Let_def dupMutation_None dest!: execOps_Inr
      split: sum.splits option.splits prod.splits if_splits)

lemma atomicTxn_reset: "atomicTxn cs s f u t = atomicTxn cs s f v t"
  by (cases u; cases v) (simp add: atomicTxn_def)

interpretation atomic: txn_callback_total "atomicTxn cs s f" "txn_keys s f"
  for cs s f
proof unfold_locales
  fix v t ms c
  assume a: "fst (atomicTxn cs s f v t) = Inr ms" "wf_db (t_db t)" "fresh_env (txn_keys s f) c (t_db t)"
  from a(1) obtain b where b: "distinct (mutated_keys (if b then s else f))"
    "ms = concat (map (op_mutations (t_db t)) (if b then s else f))"
    by (rule atomicTxn_Inr)
  show "\<exists>db'. apply_mutations (ce_ts c) (ce_id c) ms (t_db t) = Some db' \<and> wf_db db'"
    using apply_ops_env [OF a(2,3) b(1)] b(2) by (auto simp: txn_keys_def)
qed (metis atomicTxn_reset)+

lemma select_max_rev_eq:
  assumes "wf_db db"
  shows "(case select_max_rev db of None \<Rightarrow> 1 | Some ts \<Rightarrow> tsToRev ts) = current_rev db"
    and "select_max_rev db = Some ts \<Longrightarrow> tsToRev ts \<noteq> 0"
proof -
  show "(case select_max_rev db of None \<Rightarrow> 1 | Some ts \<Rightarrow> tsToRev ts) = current_rev db"
  proof (cases "newest (kv db)")
    case None
    then show ?thesis by (simp add: select_max_rev_def current_rev_def)
  next
    case (Some r)
    note r = newest_SomeD [OF Some]
    have "Max (r_rev ` set (kv db)) = r_rev r" using r by (intro Max_eqI) auto
    moreover have "kv db \<noteq> []" using r(1) by auto
    moreover have "tsToRev (r_rev r) = r_rev r"
      using wf_dbD [OF assms r(1)] by (simp add: wf_row_def tsToRev_id)
    ultimately show ?thesis using Some by (simp add: select_max_rev_def current_rev_def)
  qed
qed (metis not_one_le_zero tsToRev_pos)

text \<open>The callback on a database that answers every statement.\<close>

definition compares_hold :: "TxnCompare list \<Rightarrow> database \<Rightarrow> bool" where
  "compares_hold cs db \<longleftrightarrow> (\<forall>c \<in> set cs. the (cmp_Evaluate c) (current db (cmp_Key c)))"

definition known_ops :: "TxnOp list \<Rightarrow> bool" where
  "known_ops ops \<longleftrightarrow> (\<forall>op \<in> set ops. \<forall>n. op_Type op \<noteq> TxnOpOther n)"

lemma atomicTxn_eq:
  assumes "\<And>q. t_err t q = None" "ops = (if compares_hold cs (t_db t) then s else f)"
    and "known_ops ops" "distinct (mutated_keys ops)"
  shows "\<exists>v'. atomicTxn cs s f v t = (Inr (concat (map (op_mutations (t_db t)) ops)), v') \<and>
    v_succeeded v' = compares_hold cs (t_db t) \<and> v_results v' = map (op_result (t_db t)) ops \<and>
    (v_hasMutations v' \<longleftrightarrow> concat (map (op_mutations (t_db t)) ops) \<noteq> []) \<and>
    (\<not> v_hasMutations v' \<longrightarrow>
       v_snapshotRev v' = (case select_max_rev (t_db t) of None \<Rightarrow> 0 | Some ts \<Rightarrow> tsToRev ts))"
proof -
  let ?v = "start_vars (compares_hold cs (t_db t))"
  have ev: "evalCompares t cs = Inr (compares_hold cs (t_db t))"
    using evalCompares_eq [OF assms(1), of cs] by (simp add: compares_hold_def)
  have nd: "dupMutation [] ops = None" using assms(4) by (simp add: dupMutation_None)
  obtain ms v2 where ex: "execOps t ops [] ?v = (Inr ms, v2)"
    using execOps_ok [OF assms(1), of ops "[]" ?v] assms(3) by (auto simp: known_ops_def)
  note eq = execOps_Inr [OF ex]
  have v0: "v\<lparr>v_succeeded := b, v_results := [], v_hasMutations := False, v_commitRev := 0,
      v_snapshotRev := 0\<rparr> = start_vars b" for b
    by (cases v) (simp add: start_vars_def)
  have "atomicTxn cs s f v t =
      (if \<not> v_hasMutations v2
       then (case select_max_rev (t_db t) of
               None \<Rightarrow> (Inr ms, v2) | Some ts \<Rightarrow> (Inr ms, v2\<lparr>v_snapshotRev := tsToRev ts\<rparr>))
       else (Inr ms, v2))"
    using ev nd ex assms(1) v0
    by (simp add: atomicTxn_def Let_def txn_read_def flip: assms(2) split: option.split)
  then show ?thesis using eq
    by (auto simp: note_ops_def start_vars_def split: option.split)
qed

text \<open>Move the value of \<open>a\<close> to \<open>d\<close>, if \<open>a\<close> is still at revision 30.\<close>

definition demo_compares :: "TxnCompare list" where
  "demo_compares = [\<lparr>cmp_Key = ''a'', cmp_Evaluate = Some (\<lambda>k. map_option Rev k = Some 30), cmp_Err = None\<rparr>]"

definition demo_ops :: "TxnOp list" where
  "demo_ops = [\<lparr>op_Type = TxnOpGet, op_Key = ''a'', op_Value = None, op_LeaseID = 0\<rparr>,
     \<lparr>op_Type = TxnOpDelete, op_Key = ''a'', op_Value = None, op_LeaseID = 0\<rparr>,
     \<lparr>op_Type = TxnOpPut, op_Key = ''d'', op_Value = Some ''n'', op_LeaseID = 0\<rparr>]"

lemma demo_compares_hold: "compares_hold demo_compares demo_db"
  by (simp add: compares_hold_def demo_compares_def current_demo)

lemma demo_validate: "validateCompares demo_compares = None"
  by (simp add: demo_compares_def)

lemma demo_branch: "known_ops demo_ops" "distinct (mutated_keys demo_ops)"
  by (simp_all add: demo_ops_def known_ops_def mutated_keys_def mutates_def)

lemma demo_ops_mutations: "concat (map (op_mutations demo_db) demo_ops) \<noteq> []"
  by (simp add: demo_ops_def op_mutations_def)

section \<open>Properties\<close>

text \<open>The world after one call that only appended rows of its own commit.\<close>

definition next_world :: "world \<Rightarrow> world \<Rightarrow> bool" where
  "next_world w w' \<longleftrightarrow> w_env w' = w_env w \<and> w_pos w' = Suc (w_pos w) \<and>
     (\<forall>r \<in> set (kv (w_db w')). r \<in> set (kv (at_call w)) \<or>
        r_rev r = ce_ts (this_call w) \<and> r_id r \<in> range (ce_id (this_call w)))"

fun is_insert :: "mutation \<Rightarrow> bool" where
  "is_insert (InsertKV CommitTimestamp _ _ _ _ _ _ _ _) = True"
| "is_insert _ = False"

lemma is_insert_rows:
  assumes "is_insert m" "apply_mutation ts i m db = Some db'" "r \<in> set (kv db')"
  shows "r \<in> set (kv db) \<or> r_rev r = ts \<and> r_id r = i"
  using assms by (cases m rule: is_insert.cases) (auto split: if_splits)

lemma insert_rows:
  assumes "apply_mutations ts ids ms db = Some db'" "\<forall>m \<in> set ms. is_insert m" "r \<in> set (kv db')"
  shows "r \<in> set (kv db) \<or> r_rev r = ts \<and> r_id r \<in> range ids"
  using assms
proof (induction ms arbitrary: ids db)
  case (Cons m ms)
  then obtain db1 where db1: "apply_mutation ts (ids 0) m db = Some db1"
    "apply_mutations ts (\<lambda>i. ids (Suc i)) ms db1 = Some db'"
    by (auto split: option.splits)
  with Cons.IH [OF db1(2)] Cons.prems(2,3) is_insert_rows [OF _ db1(1), of r] show ?case by auto
qed simp

lemma op_mutations_insert: "m \<in> set (op_mutations db op) \<Longrightarrow> is_insert m"
  by (auto simp: op_mutations_def putMutation_def tombstone_def split: TxnOpType.splits option.splits)

lemma AtomicTxn_step:
  assumes "wf_db (at_call w)" and "fresh_env (txn_keys s f) (this_call w) (at_call w)"
    and "ce_fate (this_call w) = Committed" and "\<And>q. ce_err (this_call w) q = None"
    and "validateCompares cs = None"
    and "ops = (if compares_hold cs (at_call w) then s else f)"
    and "known_ops ops" and "distinct (mutated_keys ops)"
  shows "case Store_AtomicTxn cs s f w of (succeeded, results, rv, err, w') \<Rightarrow>
    err = None \<and> succeeded = compares_hold cs (at_call w) \<and>
    results = map (op_result (at_call w)) ops \<and> wf_db (w_db w') \<and>
    abs_store (w_db w') = a_txn (ce_ts (this_call w)) ops (abs_store (at_call w)) \<and>
    rv = (if concat (map (op_mutations (at_call w)) ops) = [] then current_rev (at_call w)
          else ce_ts (this_call w)) \<and> next_world w w'"
proof -
  let ?ms = "concat (map (op_mutations (at_call w)) ops)"
  obtain v' where cb: "atomicTxn cs s f initVars (handle w) = (Inr ?ms, v')"
    and v': "v_succeeded v' = compares_hold cs (at_call w)"
      "v_results v' = map (op_result (at_call w)) ops" "v_hasMutations v' \<longleftrightarrow> ?ms \<noteq> []"
      "\<not> v_hasMutations v' \<longrightarrow>
        v_snapshotRev v' = (case select_max_rev (at_call w) of None \<Rightarrow> 0 | Some ts \<Rightarrow> tsToRev ts)"
    using atomicTxn_eq [of "handle w" ops cs s f initVars] assms(4,6-8) by auto
  have "set (mutated_keys ops) \<subseteq> txn_keys s f" using assms(6) by (auto simp: txn_keys_def)
  then obtain db' where db': "apply_mutations (ce_ts (this_call w)) (ce_id (this_call w)) ?ms (at_call w) = Some db'"
    "wf_db db'" "abs_store db' = a_txn (ce_ts (this_call w)) ops (abs_store (at_call w))"
    using apply_ops_env [OF assms(1,2,8)] by blast
  have rw: "read_write (atomicTxn cs s f) initVars w =
      (Inr (ce_ts (this_call w)), v', (served w)\<lparr>w_db := db'\<rparr>)"
    using atomic.read_write_committed [of cs s f initVars w ?ms db'] cb db'(1) assms(3) by simp
  have "(if v_snapshotRev v' = 0 then 1 else v_snapshotRev v') = current_rev (at_call w)"
    if "?ms = []"
    using that v'(3,4) select_max_rev_eq [OF assms(1)] by (auto split: option.splits)
  moreover have "\<forall>m \<in> set ?ms. is_insert m" using op_mutations_insert by auto
  then have "next_world w ((served w)\<lparr>w_db := db'\<rparr>)"
    "next_world w (notify x ((served w)\<lparr>w_db := db'\<rparr>))" for x
    using insert_rows [OF db'(1)] by (auto simp: next_world_def)
  ultimately show ?thesis
    using v'(1-3) db' fresh_envD(1,2) [OF assms(2)]
    by (simp add: Store_AtomicTxn_def assms(5) rw Let_def tsToRev_id)
qed

text \<open>
  C1: \<open>AtomicTxn\<close> is one atomic step of the abstract store.  The compares are evaluated
  on the state before the transaction and choose the branch; every operation of the branch is
  answered from that state; the mutations of the branch take effect together at the commit
  timestamp, which is the revision returned.  A branch without mutations changes nothing and
  returns the current revision.
\<close>

theorem AtomicTxn_correct:
  assumes "wf_db (at_call w)" and "fresh_env (txn_keys s f) (this_call w) (at_call w)"
    and "ce_fate (this_call w) = Committed" and "\<And>q. ce_err (this_call w) q = None"
    and "validateCompares cs = None"
    and "ops = (if compares_hold cs (at_call w) then s else f)"
    and "known_ops ops" and "distinct (mutated_keys ops)"
  shows "case Store_AtomicTxn cs s f w of (succeeded, results, rv, err, w') \<Rightarrow>
    err = None \<and> succeeded = compares_hold cs (at_call w) \<and>
    results = map (op_result (at_call w)) ops \<and> wf_db (w_db w') \<and>
    abs_store (w_db w') = a_txn (ce_ts (this_call w)) ops (abs_store (at_call w)) \<and>
    rv = (if concat (map (op_mutations (at_call w)) ops) = [] then current_rev (at_call w)
          else ce_ts (this_call w))"
  using AtomicTxn_step [OF assms] by auto

theorem AtomicTxn_correct_witness:
  "case Store_AtomicTxn demo_compares demo_ops [] (demo_world demo_db) of
     (succeeded, results, rv, err, w') \<Rightarrow>
       succeeded \<and> err = None \<and> rv = 100 \<and>
       abs_store (w_db w') ''a'' = None \<and>
       abs_store (w_db w') ''d'' = Some \<lparr>a_value = Some ''n'', a_lease = 0, a_mod = 100, a_create = 100\<rparr>"
proof -
  let ?w = "demo_world demo_db"
  have pre: "wf_db (at_call ?w)" "fresh_env (txn_keys demo_ops []) (this_call ?w) (at_call ?w)"
    "ce_fate (this_call ?w) = Committed" "\<And>q. ce_err (this_call ?w) q = None"
    "demo_ops = (if compares_hold demo_compares (at_call ?w) then demo_ops else [])"
    using wf_demo fresh_demo demo_compares_hold by simp_all
  note r = AtomicTxn_correct [OF pre(1-4) demo_validate pre(5) demo_branch]
  have "a_txn 100 demo_ops (abs_store demo_db) ''a'' = None"
    "a_txn 100 demo_ops (abs_store demo_db) ''d'' =
      Some \<lparr>a_value = Some ''n'', a_lease = 0, a_mod = 100, a_create = 100\<rparr>"
    by (simp_all add: demo_ops_def a_txn_def a_op_def a_put_def a_delete_def abs_demo)
  with r show ?thesis using demo_compares_hold demo_ops_mutations by (auto simp del: concat_eq_Nil_conv)
qed

text \<open>
  C20: \<open>AtomicTxn\<close> is all or nothing, whatever fails: a statement, the commit, or the
  answer to a commit that went through.  The store afterwards is the store before, or the
  store with every operation of the branch the compares choose; after an error-free return it
  is the latter, and the invariant holds in every case.
\<close>

theorem AtomicTxn_atomic:
  assumes "wf_db (at_call w)" and "fresh_env (txn_keys s f) (this_call w) (at_call w)"
  shows "case Store_AtomicTxn cs s f w of (succeeded, results, rv, err, w') \<Rightarrow>
    w' = w \<and> err \<noteq> None \<or>
    wf_db (w_db w') \<and>
    (let after = a_txn (ce_ts (this_call w)) (if compares_hold cs (at_call w) then s else f)
                   (abs_store (at_call w))
     in abs_store (w_db w') \<in> {abs_store (at_call w), after} \<and>
        (err = None \<longrightarrow> abs_store (w_db w') = after))"
proof (cases "validateCompares cs")
  case (Some e)
  then show ?thesis by (simp add: Store_AtomicTxn_def)
next
  case None
  let ?rw = "read_write (atomicTxn cs s f) initVars w"
  show ?thesis
  proof (cases "fst (atomicTxn cs s f initVars (handle w))")
    case (Inl e)
    then have "?rw = (Inl e, snd (atomicTxn cs s f initVars (handle w)), served w)"
      by (rule atomic.read_write_error)
    then show ?thesis using None assms(1) by (simp add: Store_AtomicTxn_def)
  next
    case (Inr ms)
    let ?ops = "if compares_hold cs (at_call w) then s else f"
    from Inr obtain b where b: "evalCompares (handle w) cs = Inr b"
      "distinct (mutated_keys (if b then s else f))"
      "ms = concat (map (op_mutations (at_call w)) (if b then s else f))"
      by (rule atomicTxn_Inr) auto
    then have hold: "b = compares_hold cs (at_call w)"
      using evalCompares_Inr [of "handle w" cs b] by (simp add: compares_hold_def)
    obtain db' where db': "apply_mutations (ce_ts (this_call w)) (ce_id (this_call w)) ms (at_call w) = Some db'"
      "wf_db db'" "abs_store db' = a_txn (ce_ts (this_call w)) ?ops (abs_store (at_call w))"
      using apply_ops_env [OF assms b(2)] b(3) hold by (auto simp: txn_keys_def)
    have rw: "?rw = (fst (commit (this_call w) ms (served w)),
        snd (atomicTxn cs s f initVars (handle w)), snd (commit (this_call w) ms (served w)))"
      using Inr by (rule atomic.read_write_ok)
    show ?thesis
      using None db' rw assms(1)
      by (cases "ce_fate (this_call w)") (simp_all add: Store_AtomicTxn_def commit_def Let_def)
  qed
qed

theorem AtomicTxn_atomic_witness:
  "case Store_AtomicTxn demo_compares demo_ops [] (demo_world demo_db) of
     (succeeded, results, rv, err, w') \<Rightarrow>
       w' = demo_world demo_db \<and> err \<noteq> None \<or> wf_db (w_db w')"
  using AtomicTxn_atomic [of "demo_world demo_db" demo_ops "[]" demo_compares]
    wf_demo fresh_demo [of 100 "txn_keys demo_ops []"]
  by (auto simp: Let_def split: prod.splits)

text \<open>
  A branch that mutates one key twice is rejected before anything is written.
\<close>

theorem AtomicTxn_duplicate:
  assumes "\<And>q. ce_err (this_call w) q = None" and "validateCompares cs = None"
    and "\<not> distinct (mutated_keys (if compares_hold cs (at_call w) then s else f))"
  shows "\<exists>key \<in> txn_keys s f. Store_AtomicTxn cs s f w = (False, [], 0, Some (dupError key), served w)"
proof -
  let ?ops = "if compares_hold cs (at_call w) then s else f"
  obtain key where key: "dupMutation [] ?ops = Some key"
    using assms(3) dupMutation_None [of "[]" ?ops] by auto
  have "evalCompares (handle w) cs = Inr (compares_hold cs (at_call w))"
    using evalCompares_eq [of "handle w" cs] assms(1) by (simp add: compares_hold_def)
  with key have "fst (atomicTxn cs s f initVars (handle w)) = Inl (dupError key)"
    by (simp add: atomicTxn_def Let_def)
  from atomic.read_write_error [OF this] have
    "Store_AtomicTxn cs s f w = (False, [], 0, Some (dupError key), served w)"
    using assms(2) by (simp add: Store_AtomicTxn_def)
  moreover have "key \<in> txn_keys s f"
    using dupMutation_Some [OF key] by (auto simp: txn_keys_def split: if_splits)
  ultimately show ?thesis by blast
qed

theorem AtomicTxn_duplicate_witness:
  "\<exists>key. Store_AtomicTxn demo_compares (demo_ops @ demo_ops) [] (demo_world demo_db) =
     (False, [], 0, Some (dupError key), served (demo_world demo_db))"
proof -
  have "\<not> distinct (mutated_keys (if compares_hold demo_compares (at_call (demo_world demo_db))
      then demo_ops @ demo_ops else []))"
    using demo_compares_hold by (simp add: demo_ops_def mutated_keys_def mutates_def)
  from AtomicTxn_duplicate [OF _ demo_validate this] show ?thesis by auto
qed

end
