(* ===== verification/Steady.thy ===== *)
theory Steady
  imports Store_Txn
begin

text \<open>
  Sequences of calls.  In a lone world nobody else writes during the next \<open>N\<close> calls and
  Spanner keeps its promises from one commit to the next: timestamps increase and row ids do
  not repeat; statements and commits may fail in any way.  In a steady world they all succeed
  as well.  A served call and a committed write lead to such a world with one call less.
\<close>

definition lone_call :: "database \<Rightarrow> call_env \<Rightarrow> bool" where
  "lone_call db c \<longleftrightarrow> ce_other c = id \<and> 1 < ce_ts c \<and> ce_ts c < 2 ^ 63 \<and> inj (ce_id c) \<and>
     (\<forall>r \<in> set (kv db). r_rev r < ce_ts c) \<and> range (ce_id c) \<inter> r_id ` set (kv db) = {}"

definition call_before :: "call_env \<Rightarrow> call_env \<Rightarrow> bool" where
  "call_before c c' \<longleftrightarrow> ce_ts c < ce_ts c' \<and> range (ce_id c) \<inter> range (ce_id c') = {}"

definition lone :: "nat \<Rightarrow> world \<Rightarrow> bool" where
  "lone N w \<longleftrightarrow> wf_db (w_db w) \<and>
     (\<forall>i < N. lone_call (w_db w) (w_env w (w_pos w + i)) \<and>
        (\<forall>j < i. call_before (w_env w (w_pos w + j)) (w_env w (w_pos w + i))))"

definition answered :: "nat \<Rightarrow> world \<Rightarrow> bool" where
  "answered N w \<longleftrightarrow> (\<forall>i < N. ce_err (w_env w (w_pos w + i)) = (\<lambda>q. None) \<and>
     ce_fate (w_env w (w_pos w + i)) = Committed)"

definition steady :: "nat \<Rightarrow> world \<Rightarrow> bool" where
  "steady N w \<longleftrightarrow> lone N w \<and> answered N w"

lemma loneD:
  assumes "lone (Suc N) w"
  shows "at_call w = w_db w" "wf_db (w_db w)" "fresh_env K (this_call w) (w_db w)"
proof -
  have c: "lone_call (w_db w) (this_call w)"
    using assms by (auto simp: lone_def this_call_def)
  then show "at_call w = w_db w" "fresh_env K (this_call w) (w_db w)"
    by (simp_all add: lone_call_def at_call_def fresh_env_def less_imp_le)
  show "wf_db (w_db w)" using assms by (simp add: lone_def)
qed

lemma steadyD:
  assumes "steady (Suc N) w"
  shows "at_call w = w_db w" "ce_err (this_call w) q = None" "committed K w" "wf_db (w_db w)"
proof -
  have l: "lone (Suc N) w" and a: "ce_err (this_call w) = (\<lambda>q. None)" "ce_fate (this_call w) = Committed"
    using assms by (auto simp: steady_def answered_def this_call_def)
  then show "at_call w = w_db w" "ce_err (this_call w) q = None" "wf_db (w_db w)"
    using loneD [OF l] by simp_all
  with loneD(3) [OF l] a(2) show "committed K w" by (simp add: committed_def)
qed

lemma steady_mono: "steady N w \<Longrightarrow> M \<le> N \<Longrightarrow> steady M w"
  by (simp add: steady_def lone_def answered_def)

lemma lone_mono: "lone N w \<Longrightarrow> M \<le> N \<Longrightarrow> lone M w"
  by (simp add: lone_def)

lemma lone_next:
  assumes "lone (Suc N) w" "next_world w w'" "wf_db (w_db w')"
  shows "lone N w'"
proof -
  have "lone_call (w_db w') (w_env w (w_pos w + Suc i))"
    "\<forall>j < i. call_before (w_env w (w_pos w + Suc j)) (w_env w (w_pos w + Suc i))" if i: "i < N" for i
  proof -
    let ?c = "w_env w (w_pos w + Suc i)"
    have s: "lone_call (w_db w) ?c"
      "\<And>j. j < Suc i \<Longrightarrow> call_before (w_env w (w_pos w + j)) ?c"
      using assms(1) i unfolding lone_def by (metis Suc_less_eq)+
    have b: "call_before (this_call w) ?c" using s(2) [of 0] by (simp add: this_call_def)
    have old: "r_rev r < ce_ts ?c \<and> r_id r \<notin> range (ce_id ?c)" if "r \<in> set (kv (w_db w))" for r
      using s(1) imageI [OF that, of r_id] that unfolding lone_call_def disjoint_iff by auto
    have new: "r_rev r < ce_ts ?c \<and> r_id r \<notin> range (ce_id ?c)"
      if "r_rev r = ce_ts (this_call w) \<and> r_id r \<in> range (ce_id (this_call w))" for r
      using b that unfolding call_before_def disjoint_iff by auto
    have all: "r_rev r < ce_ts ?c \<and> r_id r \<notin> range (ce_id ?c)" if "r \<in> set (kv (w_db w'))" for r
      using assms(2) that loneD(1) [OF assms(1)] old [of r] new [of r]
      unfolding next_world_def by fastforce
    then have "\<forall>r \<in> set (kv (w_db w')). r_rev r < ce_ts ?c" by simp
    moreover have "range (ce_id ?c) \<inter> r_id ` set (kv (w_db w')) = {}"
    proof (rule equals0I, elim IntE)
      fix x assume x: "x \<in> range (ce_id ?c)" "x \<in> r_id ` set (kv (w_db w'))"
      from x(2) obtain r where "r \<in> set (kv (w_db w'))" "x = r_id r" by blast
      with all [of r] x(1) show False by simp
    qed
    ultimately show "lone_call (w_db w') ?c" using s(1) unfolding lone_call_def by blast
    show "\<forall>j < i. call_before (w_env w (w_pos w + Suc j)) ?c"
      using s(2) [of "Suc _"] by simp
  qed
  then show ?thesis using assms(2,3) by (simp add: lone_def next_world_def)
qed

lemma steady_next:
  assumes "steady (Suc N) w" "next_world w w'" "wf_db (w_db w')"
  shows "steady N w'"
proof -
  have "answered N w'" unfolding answered_def
  proof (intro allI impI)
    fix i assume "i < N"
    then show "ce_err (w_env w' (w_pos w' + i)) = (\<lambda>q. None) \<and> ce_fate (w_env w' (w_pos w' + i)) = Committed"
      using assms(1,2) unfolding steady_def answered_def next_world_def
      by (metis Suc_less_eq add_Suc add_Suc_right)
  qed
  with lone_next [OF _ assms(2,3)] assms(1) show ?thesis by (simp add: steady_def)
qed

lemma lone_served:
  assumes "lone (Suc N) w"
  shows "lone N (served w)"
  using loneD(1,2) [OF assms] by (intro lone_next [OF assms]) (simp_all add: next_world_def)

lemma steady_served:
  assumes "steady (Suc N) w"
  shows "steady N (served w)"
  using steadyD(1,4) [OF assms] by (intro steady_next [OF assms]) (simp_all add: next_world_def)

text \<open>The world after a call that appended one row.\<close>

definition after_write :: "kv_row \<Rightarrow> world \<Rightarrow> world" where
  "after_write r w = notify (ce_ts (this_call w)) ((served w)\<lparr>w_db := append_row r (at_call w)\<rparr>)"

lemma after_write_simps [simp]:
  "w_db (after_write r w) = append_row r (at_call w)" "w_env (after_write r w) = w_env w"
  "w_pos (after_write r w) = Suc (w_pos w)"
  by (simp_all add: after_write_def)

lemma steady_after_write:
  assumes "steady (Suc N) w" "wf_db (append_row r (w_db w))"
    and "r_rev r = ce_ts (this_call w)" "r_id r = ce_id (this_call w) i"
  shows "steady N (after_write r w)"
proof (rule steady_next [OF assms(1)])
  show "next_world w (after_write r w)" using assms(3,4) by (auto simp: next_world_def)
  show "wf_db (w_db (after_write r w))" using assms(2) steadyD(1) [OF assms(1)] by simp
qed

lemma lone_demo: "lone 1000 (demo_world demo_db)"
proof -
  have "lone_call demo_db (demo_call (100 + int i))" if "i < 1000" for i
  proof -
    have "\<forall>r \<in> set (kv demo_db). r_rev r < 100 \<and> r_id r < 100" by (simp add: demo_defs)
    then have "\<forall>r \<in> set (kv demo_db). r_rev r < 100 + int i"
      "range (ce_id (demo_call (100 + int i))) \<inter> r_id ` set (kv demo_db) = {}"
      by fastforce+
    then show ?thesis using that by (simp add: lone_call_def inj_def)
  qed
  moreover have "call_before (demo_call (100 + int j)) (demo_call (100 + int i))" if "j < i" "i < 1000" for i j
  proof -
    have "100 + int j + 100000 * x \<noteq> 100 + int i + 100000 * y" for x y
    proof
      assume "100 + int j + 100000 * x = 100 + int i + 100000 * y"
      then have "(100 + int j + 100000 * x) mod 100000 = (100 + int i + 100000 * y) mod 100000"
        by (rule arg_cong)
      with that show False by simp
    qed
    with that show ?thesis by (auto simp: call_before_def)
  qed
  ultimately show ?thesis by (simp add: lone_def wf_demo)
qed

lemma steady_demo: "steady 1000 (demo_world demo_db)"
  by (simp add: steady_def lone_demo answered_def fun_eq_iff)

section \<open>Environments in which every call succeeds\<close>

definition quiet :: "(nat \<Rightarrow> call_env) \<Rightarrow> bool" where
  "quiet env \<longleftrightarrow> (\<forall>i. ce_other (env i) = id \<and> ce_err (env i) = (\<lambda>q. None) \<and> ce_fate (env i) = Committed)"

lemma quietD:
  assumes "quiet (w_env w)"
  shows "at_call w = w_db w" "ce_err (this_call w) q = None" "ce_fate (this_call w) = Committed"
  using assms by (simp_all add: quiet_def at_call_def this_call_def)

definition env_ok :: "(nat \<Rightarrow> call_env) \<Rightarrow> bool" where
  "env_ok env \<longleftrightarrow> (\<forall>i. ce_err (env i) = (\<lambda>q. None) \<and> ce_fate (env i) = Committed)"

lemma env_okD:
  assumes "env_ok (w_env w)"
  shows "ce_err (this_call w) q = None" "ce_fate (this_call w) = Committed"
  using assms by (simp_all add: env_ok_def this_call_def)

lemma quiet_env_ok: "quiet env \<Longrightarrow> env_ok env"
  by (simp add: quiet_def env_ok_def)

lemma quiet_demo: "quiet (w_env (demo_world db))"
  by (simp add: quiet_def fun_eq_iff)

lemma demo_env_ok: "env_ok (w_env (demo_world db))"
  by (simp add: env_ok_def fun_eq_iff)

section \<open>The operations in a steady world\<close>

lemma grows_steady: "steady (Suc (Suc N)) w \<Longrightarrow> at_call (served w) = w_db w"
  using steadyD(1) [OF steady_served] steadyD(1) by fastforce

lemma Get_steady:
  assumes "steady (Suc (Suc N)) w"
  shows "Store_Get key 0 w = (current_rev (w_db w), current (w_db w) key, None, served (served w))"
proof -
  note s1 = steadyD [OF assms] and s2 = steadyD [OF steady_served [OF assms]]
  show ?thesis using Get_current [of w key] s1 s2 by (simp add: grows_refl)
qed

lemma steady_served2: "steady (Suc (Suc N)) w \<Longrightarrow> steady N (served (served w))"
  by (intro steady_served)

lemma Delete_steady:
  assumes "steady (Suc N) w" "current (w_db w) key = Some p"
  shows "\<exists>r. Store_Delete key 0 w = (ce_ts (this_call w), Some p, True, None, after_write r w) \<and>
    steady N (after_write r w) \<and> abs_store (w_db (after_write r w)) = (abs_store (w_db w))(key := None)"
proof -
  note s = steadyD [OF assms(1)]
  let ?r = "over_row (ce_ts (this_call w)) (ce_id (this_call w) 0) key None 0 True p"
  have p: "current (at_call w) key = Some p" using s(1) assms(2) by simp
  have po: "put_over key None 0 True p w = append_row ?r (at_call w)" by (simp add: put_over_def)
  note db = put_over_db [OF s(3) p, unfolded po]
  have "steady N (after_write ?r w)"
    using db(2) s(1) by (intro steady_after_write [OF assms(1)]) simp_all
  moreover have "Store_Delete key 0 w = (ce_ts (this_call w), Some p, True, None, after_write ?r w)"
    using Delete_ok [OF s(3) s(2) p, of 0] by (simp add: po after_write_def)
  ultimately show ?thesis using db(4) s(1) by (auto simp: a_delete_def)
qed

text \<open>The row of a write that sets a value.\<close>

definition written :: "kv_row \<Rightarrow> string \<Rightarrow> bytes \<Rightarrow> world \<Rightarrow> bool" where
  "written r key val w \<longleftrightarrow> r_key r = key \<and> r_value r = val \<and> \<not> r_deleted r \<and> r_rev r = ce_ts (this_call w)"

lemma Create_steady:
  assumes "steady (Suc N) w" "current (w_db w) key = None"
  shows "\<exists>r. Store_Create key val lease w = (ce_ts (this_call w), None, after_write r w) \<and>
    steady N (after_write r w) \<and> written r key val w \<and>
    abs_store (w_db (after_write r w)) = a_put key val lease (ce_ts (this_call w)) (abs_store (w_db w))"
proof -
  note s = steadyD [OF assms(1)]
  let ?r = "new_row (ce_ts (this_call w)) (ce_id (this_call w) 0) key val lease"
  have p: "current (at_call w) key = None" using s(1) assms(2) by simp
  have po: "put_new key val lease w = append_row ?r (at_call w)" by (simp add: put_new_def)
  note db = put_new_db [OF s(3) p, of val lease, unfolded po]
  have "steady N (after_write ?r w)"
    using db(1) s(1) by (intro steady_after_write [OF assms(1)]) simp_all
  moreover have "written ?r key val w" by (simp add: written_def new_row_def)
  moreover have "Store_Create key val lease w = (ce_ts (this_call w), None, after_write ?r w)"
    using Create_new [OF s(3) s(2) p] by (simp add: po after_write_def)
  ultimately show ?thesis using db(2) s(1) by (intro exI [of _ ?r]) simp
qed

lemma Update_steady:
  assumes "steady (Suc N) w" "current (w_db w) key = Some p"
  shows "\<exists>r. Store_Update key val (Rev p) lease w =
      (ce_ts (this_call w), Some p, True, None, after_write r w) \<and>
    steady N (after_write r w) \<and> written r key val w \<and>
    abs_store (w_db (after_write r w)) = a_put key val lease (ce_ts (this_call w)) (abs_store (w_db w))"
proof -
  note s = steadyD [OF assms(1)]
  let ?r = "over_row (ce_ts (this_call w)) (ce_id (this_call w) 0) key val lease False p"
  have p: "current (at_call w) key = Some p" using s(1) assms(2) by simp
  have po: "put_over key val lease False p w = append_row ?r (at_call w)" by (simp add: put_over_def)
  note db = put_over_db(1,3) [OF s(3) p, of val lease, unfolded po]
  have "steady N (after_write ?r w)"
    using db(1) s(1) by (intro steady_after_write [OF assms(1)]) simp_all
  moreover have "written ?r key val w" by (simp add: written_def over_row_def)
  moreover have "Store_Update key val (Rev p) lease w =
      (ce_ts (this_call w), Some p, True, None, after_write ?r w)"
    using Update_ok [OF s(3) s(2) p refl] by (simp add: po after_write_def)
  ultimately show ?thesis using db(2) s(1) by (intro exI [of _ ?r]) simp
qed

lemma List_steady:
  assumes "steady (Suc (Suc (Suc N))) w"
  shows "\<exists>kvs. Store_List p startKey limit 0 w =
      (current_rev (w_db w), compact_rev (w_db w), kvs, None, served (served (served w))) \<and>
    map Key kvs = limitClause limit (sorted_list_of_set
      {k \<in> dom (abs_store (w_db w)). like (likePrefix p) k \<and> startKey \<le> k}) \<and>
    (\<forall>k \<in> set kvs. abs_store (w_db w) (Key k) = Some (entry_of k))"
proof -
  note s1 = steadyD [OF assms] and st2 = steady_served [OF assms]
  note s2 = steadyD [OF st2] and s3 = steadyD [OF steady_served [OF st2]]
  have at: "at_call w = w_db w" "at_call (served w) = w_db w" "at_call (served (served w)) = w_db w"
    using s1(1) s2(1) s3(1) by simp_all
  show ?thesis
    using List_current [of w p startKey limit, unfolded at] s1(2,4) s2(2) s3(2) grows_refl by simp
qed

lemma dom_abs_keys: "dom (abs_store db) \<subseteq> r_key ` set (kv db)"
proof
  fix k assume "k \<in> dom (abs_store db)"
  then obtain r where "select_latest k db = Some r"
    by (auto simp: abs_store_def current_def live_def split: option.splits)
  from select_latest_SomeD(1,2) [OF this] show "k \<in> r_key ` set (kv db)" by blast
qed

lemma finite_dom_abs: "finite (dom (abs_store db))"
  by (rule finite_subset [OF dom_abs_keys]) simp

end
