(* ===== verification/Compaction.thy ===== *)
theory Compaction
  imports Steady
begin

text \<open>
  Compaction, from \<open>pkg/store/store.go\<close>: \<open>Compact\<close>, the background deletion
  \<open>compactRows\<close> / \<open>scanCompactBatch\<close>, one tick of \<open>autoCompactLoop\<close>, and the
  configuration \<open>NewWithConfig\<close> gives it.  The deletion loop runs while other replicas write
  and compact: it is a \<open>partial_function\<close> over the world, and \<open>None\<close> means it never
  returns.  The rows a batch of \<open>LIMIT\<close> without \<open>ORDER BY\<close> picks are the first ones of
  the list \<open>kv\<close>, whose order the environment may change before every call.
\<close>

section \<open>Configuration\<close>

record StoreConfig =
  AutoCompactInterval :: int
  AutoCompactAge :: int

definition compactBatchSize :: int where
  "compactBatchSize = 1000"

definition DefaultAutoCompactInterval :: int where
  "DefaultAutoCompactInterval = 5 * 60 * 10 ^ 9"

definition DefaultAutoCompactAge :: int where
  "DefaultAutoCompactAge = 5 * 60 * 10 ^ 9"

text \<open>The configuration of the new store; the loop runs when its interval is positive.\<close>

definition NewWithConfig :: "StoreConfig \<Rightarrow> goerr + StoreConfig \<times> bool" where
  "NewWithConfig cfg =
     (if AutoCompactAge cfg < 0 then Inl (Errorf ''AutoCompactAge must be >= 0'')
      else
        (let cfg1 = (if AutoCompactInterval cfg < 0 then cfg\<lparr>AutoCompactInterval := -1\<rparr> else cfg);
             cfg2 = (if AutoCompactInterval cfg1 = 0
                     then cfg1\<lparr>AutoCompactInterval := DefaultAutoCompactInterval\<rparr> else cfg1);
             cfg3 = (if AutoCompactAge cfg2 = 0
                     then cfg2\<lparr>AutoCompactAge := DefaultAutoCompactAge\<rparr> else cfg2)
         in Inr (cfg3, AutoCompactInterval cfg3 > 0)))"

section \<open>The code\<close>

definition compactTxn :: "int \<Rightarrow> unit \<Rightarrow> txn \<Rightarrow> (goerr + mutation list) \<times> unit" where
  "compactTxn targetTS u t =
     (case txn_read t QCompactRev (\<lambda>db. kv_rev db CompactRevRow) of
        Inl e \<Rightarrow>
          (if ErrCode e \<noteq> Some NotFound then (Inl e, ())
           else (Inr [InsertOrUpdateKvRev CompactRevRow targetTS], ()))
      | Inr None \<Rightarrow> (Inr [InsertOrUpdateKvRev CompactRevRow targetTS], ())
      | Inr (Some existing) \<Rightarrow>
          (if \<not> existing < targetTS then (Inr [], ())
           else (Inr [InsertOrUpdateKvRev CompactRevRow targetTS], ())))"

text \<open>
  The third component is the revision up to which the goroutine started at the end of
  \<open>Compact\<close> deletes rows, by \<open>compactRows\<close>; there is none on an error.
\<close>

definition Store_Compact :: "int \<Rightarrow> world \<Rightarrow> int \<times> goerr option \<times> int option \<times> world" where
  "Store_Compact targetRev w =
     (case read_write (compactTxn (revToTS targetRev)) () w of
        (Inl e, _, w1) \<Rightarrow> (0, Some e, None, w1)
      | (Inr _, _, w1) \<Rightarrow>
          (let (stored, err, w2) = Store_compactRevision w1;
               effectiveRev = (if err = None \<and> stored > targetRev then stored else targetRev)
           in (targetRev, None, Some effectiveRev, w2)))"

definition eligible :: "int \<Rightarrow> database \<Rightarrow> kv_row \<Rightarrow> bool" where
  "eligible target db r \<longleftrightarrow> r_rev r \<le> target \<and>
     (\<exists>newer \<in> set (kv db). r_key newer = r_key r \<and> r_rev newer > r_rev r)"

definition select_compact :: "int \<Rightarrow> database \<Rightarrow> int list" where
  "select_compact target db =
     limitClause compactBatchSize (map r_id (filter (eligible target db) (kv db)))"

definition scanCompactBatch :: "int \<Rightarrow> world \<Rightarrow> (goerr + int list) \<times> world" where
  "scanCompactBatch targetTS w = single QCompactBatch (select_compact targetTS) w"

partial_function (option) compactLoop :: "int \<Rightarrow> nat \<Rightarrow> world \<Rightarrow> (nat \<times> world) option" where
  "compactLoop targetTS tot w =
     (case scanCompactBatch targetTS w of
        (Inl e, w1) \<Rightarrow> Some (tot, w1)
      | (Inr ids, w1) \<Rightarrow>
          (if ids = [] then Some (tot, w1)
           else
             (case apply_call (map DeleteKV ids) w1 of
                (Inl e, w2) \<Rightarrow> Some (tot, w2)
              | (Inr _, w2) \<Rightarrow>
                  (if int (length ids) < compactBatchSize then Some (tot + length ids, w2)
                   else compactLoop targetTS (tot + length ids) w2))))"

definition compactRows :: "int \<Rightarrow> world \<Rightarrow> (nat \<times> world) option" where
  "compactRows targetRev w = compactLoop (revToTS targetRev) 0 w"

text \<open>One tick; \<open>None\<close> when the deletion does not return.\<close>

definition autoCompactTick :: "StoreConfig \<Rightarrow> world \<Rightarrow> world option" where
  "autoCompactTick cfg w =
     (case Store_CurrentRevision w of
        (_, Some e, w1) \<Rightarrow> Some w1
      | (curRev, None, w1) \<Rightarrow>
          (if curRev \<le> 1 then Some w1
           else
             (let targetRev = tsToRev (revToTS curRev - AutoCompactAge cfg)
              in if targetRev \<le> 1 then Some w1
                 else
                   (let (existingRev, err, w2) = Store_compactRevision w1;
                        targetRev1 =
                          (if err = None \<and> existingRev > targetRev then existingRev else targetRev)
                    in (case read_write (compactTxn (revToTS targetRev1)) () w2 of
                          (Inl e, _, w3) \<Rightarrow> Some w3
                        | (Inr _, _, w3) \<Rightarrow> map_option snd (compactRows targetRev1 w3))))))"

section \<open>Deleting rows by id\<close>

definition drop_rows :: "int set \<Rightarrow> database \<Rightarrow> database" where
  "drop_rows ids db = db\<lparr>kv := filter (\<lambda>r. r_id r \<notin> ids) (kv db)\<rparr>"

lemma drop_rows_simps [simp]:
  "kv (drop_rows ids db) = filter (\<lambda>r. r_id r \<notin> ids) (kv db)"
  "kv_rev (drop_rows ids db) = kv_rev db" "kv_lease (drop_rows ids db) = kv_lease db"
  "kv_cs_cursors (drop_rows ids db) = kv_cs_cursors db"
  by (simp_all add: drop_rows_def)

lemma apply_deletes: "apply_mutations ts ids (map DeleteKV xs) db = Some (drop_rows (set xs) db)"
proof (induction xs arbitrary: db ids)
  case (Cons x xs)
  have "drop_rows (set xs) (drop_rows {x} db) = drop_rows (set (x # xs)) db"
    by (simp add: drop_rows_def conj_commute)
  with Cons show ?case by (simp add: drop_rows_def)
qed (simp add: drop_rows_def)

text \<open>The rows with these ids have been overwritten.\<close>

definition superseded :: "int set \<Rightarrow> database \<Rightarrow> bool" where
  "superseded ids db \<longleftrightarrow> (\<forall>r \<in> set (kv db). r_id r \<in> ids \<longrightarrow>
     (\<exists>s \<in> set (kv db). r_key s = r_key r \<and> r_rev r < r_rev s))"

lemma drop_rows_wf: "wf_db db \<Longrightarrow> wf_db (drop_rows ids db)"
  by (simp add: wf_db_def wf_rows_filter)

lemma drop_rows_latest:
  assumes "wf_db db" "superseded ids db"
  shows "select_latest key (drop_rows ids db) = select_latest key db"
proof (cases "select_latest key db")
  case None
  then show ?thesis by (auto simp: select_latest_def filter_empty_conv)
next
  case (Some r)
  note r = select_latest_SomeD [OF Some]
  have "r_id r \<notin> ids"
    using assms(2) r unfolding superseded_def by (metis not_less)
  then have "select_latest key (drop_rows ids db) = Some r"
    using r drop_rows_wf [OF assms(1), of ids]
    by (intro select_latest_eqI) (auto simp: wf_db_def)
  with Some show ?thesis by simp
qed

lemma drop_rows_abs:
  assumes "wf_db db" "superseded ids db"
  shows "abs_store (drop_rows ids db) = abs_store db"
  using drop_rows_latest [OF assms] by (simp add: abs_store_def current_def fun_eq_iff)

text \<open>The newest row of a key outlives every row that is deleted.\<close>

lemma superseded_latest:
  assumes "wf_db db" "superseded ids db" "r \<in> set (kv db)"
  shows "\<exists>s \<in> set (kv (drop_rows ids db)). r_key s = r_key r \<and> r_rev r \<le> r_rev s"
proof -
  obtain s where s: "select_latest (r_key r) db = Some s"
    using assms(3) by (cases "select_latest (r_key r) db")
      (auto simp: select_latest_def filter_empty_conv)
  have "s \<in> set (kv (drop_rows ids db))" "r_key s = r_key r"
    using select_latest_SomeD(1,2) [of _ "drop_rows ids db"] drop_rows_latest [OF assms(1,2)] s
    by auto
  with select_latest_SomeD(3) [OF s assms(3)] show ?thesis by blast
qed

section \<open>Deletion beside other clients\<close>

text \<open>
  What other clients do to the rows: the newest row of a key gives way to newer ones only, and
  an id is never reused.
\<close>

definition evolves :: "database \<Rightarrow> database \<Rightarrow> bool" where
  "evolves db db' \<longleftrightarrow> wf_db db' \<and>
     (\<forall>r \<in> set (kv db). \<exists>s \<in> set (kv db'). r_key s = r_key r \<and> r_rev r \<le> r_rev s) \<and>
     (\<forall>r \<in> set (kv db). \<forall>s \<in> set (kv db'). r_id s = r_id r \<longrightarrow> s = r)"

lemma superseded_scan:
  assumes "wf_db db" "evolves db db'"
  shows "superseded (set (select_compact target db)) db'"
  unfolding superseded_def
proof (intro ballI impI)
  fix r assume r: "r \<in> set (kv db')" "r_id r \<in> set (select_compact target db)"
  then obtain r0 where r0: "r0 \<in> set (kv db)" "r_id r0 = r_id r" "eligible target db r0"
    using set_limitClause [of compactBatchSize] by (fastforce simp: select_compact_def)
  with r(1) assms(2) have "r = r0" unfolding evolves_def by metis
  moreover from r0(3) obtain s where "s \<in> set (kv db)" "r_key s = r_key r0" "r_rev r0 < r_rev s"
    by (auto simp: eligible_def)
  ultimately show "\<exists>s \<in> set (kv db'). r_key s = r_key r \<and> r_rev r < r_rev s"
    using assms(2) unfolding evolves_def by (metis order_less_le_trans)
qed

definition others_keep :: "(nat \<Rightarrow> call_env) \<Rightarrow> string \<Rightarrow> bool" where
  "others_keep env key \<longleftrightarrow> (\<forall>i db. wf_db db \<longrightarrow>
     evolves db (ce_other (env i) db) \<and> abs_store (ce_other (env i) db) key = abs_store db key)"

lemma others_keepD:
  assumes "others_keep (w_env w) key" "wf_db (w_db w)"
  shows "evolves (w_db w) (at_call w)" "wf_db (at_call w)"
    "abs_store (at_call w) key = abs_store (w_db w) key"
  using assms by (simp_all add: others_keep_def at_call_def this_call_def evolves_def)

text \<open>One batch: scanned from one snapshot, deleted from a later one.\<close>

lemma delete_batch:
  assumes "others_keep (w_env w) key" "wf_db (w_db w)"
    and "apply_call (map DeleteKV (select_compact target (at_call w))) (served w) = (res, w2)"
  shows "wf_db (w_db w2)" "abs_store (w_db w2) key = abs_store (w_db w) key"
    "w_env w2 = w_env w" "w_pos w2 = Suc (Suc (w_pos w))"
    "w_db w2 = at_call (served w) \<or>
     w_db w2 = drop_rows (set (select_compact target (at_call w))) (at_call (served w))"
    "res = Inr ts \<Longrightarrow>
     w_db w2 = drop_rows (set (select_compact target (at_call w))) (at_call (served w))"
proof -
  let ?ids = "set (select_compact target (at_call w))" and ?db = "at_call (served w)"
  note k1 = others_keepD [OF assms(1,2)]
  have k2: "evolves (at_call w) ?db" "wf_db ?db" "abs_store ?db key = abs_store (at_call w) key"
    using others_keepD [of "served w" key] assms(1) k1(2) by simp_all
  have drop: "wf_db (drop_rows ?ids ?db)" "abs_store (drop_rows ?ids ?db) = abs_store ?db"
    using drop_rows_wf [OF k2(2)] drop_rows_abs [OF k2(2) superseded_scan [OF k1(2) k2(1)]] by auto
  have w2: "w_db w2 = ?db \<and> (\<forall>ts. res \<noteq> Inr ts) \<or> w_db w2 = drop_rows ?ids ?db"
    "w_env w2 = w_env w" "w_pos w2 = Suc (Suc (w_pos w))"
    using assms(3) by (auto simp: apply_call_eq commit_def apply_deletes split: commit_fate.splits)
  show "w_env w2 = w_env w" "w_pos w2 = Suc (Suc (w_pos w))" by (rule w2)+
  show "wf_db (w_db w2)" "abs_store (w_db w2) key = abs_store (w_db w) key"
    "w_db w2 = ?db \<or> w_db w2 = drop_rows ?ids ?db"
    "res = Inr ts \<Longrightarrow> w_db w2 = drop_rows ?ids ?db"
    using w2(1) drop k2 k1 by auto
qed

lemma scanCompactBatch_cases:
  obtains e where "scanCompactBatch target w = (Inl e, served w)"
  | "scanCompactBatch target w = (Inr (select_compact target (at_call w)), served w)"
  by (cases "ce_err (this_call w) QCompactBatch") (auto simp: scanCompactBatch_def single_eq)

lemma compactLoop_safe:
  assumes "compactLoop target n w = Some r" "others_keep (w_env w) key" "wf_db (w_db w)"
  shows "wf_db (w_db (snd r)) \<and> abs_store (w_db (snd r)) key = abs_store (w_db w) key"
  using assms
proof (induction rule: compactLoop.raw_induct [rotated, consumes 1, case_names step])
  case (step loop target n w r)
  note keep = others_keepD [OF step.prems]
  show ?case
  proof (cases rule: scanCompactBatch_cases [of target w])
    case (1 e)
    with step.hyps keep show ?thesis by auto
  next
    case 2
    let ?ids = "select_compact target (at_call w)"
    obtain res w2 where ap: "apply_call (map DeleteKV ?ids) (served w) = (res, w2)" by fastforce
    note b = delete_batch [OF step.prems ap]
    show ?thesis
    proof (cases "?ids = [] \<or> (\<exists>e. res = Inl e) \<or> int (length ?ids) < compactBatchSize")
      case True
      with step.hyps 2 ap b(1,2) keep show ?thesis by (auto split: sum.splits if_splits)
    next
      case False
      with step.hyps 2 ap have "loop target (n + length ?ids) w2 = Some r" by (auto split: sum.splits)
      from step.IH [OF this] b(1-3) step.prems show ?thesis by simp
    qed
  qed
qed

section \<open>The loop ends\<close>

text \<open>Other clients add no row at or below the target.\<close>

definition others_newer :: "(nat \<Rightarrow> call_env) \<Rightarrow> int \<Rightarrow> bool" where
  "others_newer env target \<longleftrightarrow> (\<forall>i db.
     \<forall>r \<in> set (kv (ce_other (env i) db)). r_rev r \<le> target \<longrightarrow> r \<in> set (kv db))"

definition old_rows :: "int \<Rightarrow> database \<Rightarrow> kv_row set" where
  "old_rows target db = {r \<in> set (kv db). r_rev r \<le> target}"

lemma others_newerD: "others_newer (w_env w) target \<Longrightarrow> old_rows target (at_call w) \<subseteq> old_rows target (w_db w)"
  by (auto simp: others_newer_def old_rows_def at_call_def this_call_def)

lemma batch_shrinks:
  assumes "others_newer (w_env w) target" "select_compact target (at_call w) \<noteq> []"
  shows "old_rows target (drop_rows (set (select_compact target (at_call w))) (at_call (served w))) \<subset>
    old_rows target (w_db w)"
proof -
  let ?ids = "select_compact target (at_call w)"
  have sub: "old_rows target (at_call (served w)) \<subseteq> old_rows target (at_call w)"
    "old_rows target (at_call w) \<subseteq> old_rows target (w_db w)"
    using others_newerD [of w target] others_newerD [of "served w" target] assms(1) by simp_all
  have "hd ?ids \<in> set ?ids" using assms(2) by simp
  then obtain r where r: "r \<in> set (kv (at_call w))" "eligible target (at_call w) r" "r_id r \<in> set ?ids"
    using set_limitClause [of compactBatchSize "map r_id (filter (eligible target (at_call w)) (kv (at_call w)))"]
    by (auto simp: select_compact_def)
  then have "r \<in> old_rows target (at_call w)" by (simp add: old_rows_def eligible_def)
  moreover have "r \<notin> old_rows target (drop_rows (set ?ids) (at_call (served w)))"
    using r(3) by (simp add: old_rows_def)
  moreover have "old_rows target (drop_rows (set ?ids) (at_call (served w))) \<subseteq>
      old_rows target (at_call (served w))"
    by (auto simp: old_rows_def)
  ultimately show ?thesis using sub by blast
qed

lemma compactLoop_returns:
  assumes "others_newer (w_env w) target"
  shows "\<exists>r. compactLoop target n w = Some r"
  using assms
proof (induction "card (old_rows target (w_db w))" arbitrary: n w rule: less_induct)
  case less
  let ?ids = "select_compact target (at_call w)"
  obtain res w2 where ap: "apply_call (map DeleteKV ?ids) (served w) = (res, w2)" by fastforce
  show ?case
  proof (cases rule: scanCompactBatch_cases [of target w])
    case (1 e)
    then show ?thesis by (subst compactLoop.simps) simp
  next
    case 2
    show ?thesis
    proof (cases "?ids = [] \<or> (\<exists>e. res = Inl e) \<or> int (length ?ids) < compactBatchSize")
      case True
      with 2 ap show ?thesis by (subst compactLoop.simps) (auto split: sum.splits)
    next
      case False
      then obtain ts where res: "res = Inr ts" by (cases res) auto
      have w2: "w_db w2 = drop_rows (set ?ids) (at_call (served w))" "w_env w2 = w_env w"
        using ap res by (auto simp: apply_call_eq commit_def apply_deletes split: commit_fate.splits)
      have "card (old_rows target (w_db w2)) < card (old_rows target (w_db w))"
        using batch_shrinks [OF less.prems] False w2(1)
        by (intro psubset_card_mono) (auto simp: old_rows_def)
      from less.hyps [OF this] w2(2) less.prems obtain r where
        "compactLoop target (n + length ?ids) w2 = Some r" by metis
      with 2 ap res False show ?thesis by (subst compactLoop.simps) auto
    qed
  qed
qed

section \<open>What the loop leaves\<close>

lemma filter_drop_take:
  assumes "distinct (map f xs)" "ys = take n (map f xs)"
  shows "filter (\<lambda>x. f x \<notin> set ys) xs = drop n xs"
proof -
  have xs: "xs = take n xs @ drop n xs" by simp
  have "filter (\<lambda>x. f x \<notin> set ys) (take n xs) = []"
    using assms(2) by (auto simp: take_map filter_empty_conv)
  moreover have "f x \<notin> set ys" if "x \<in> set (drop n xs)" for x
    using assms that by (subst (asm) xs, unfold map_append distinct_append) (auto simp: take_map)
  then have "filter (\<lambda>x. f x \<notin> set ys) (drop n xs) = drop n xs" by (simp add: filter_id_conv)
  ultimately show ?thesis by (subst xs, unfold filter_append) simp
qed

definition compact_db :: "int \<Rightarrow> database \<Rightarrow> database" where
  "compact_db target db = db\<lparr>kv := filter (\<lambda>r. \<not> eligible target db r) (kv db)\<rparr>"

lemma wf_db_id_inj:
  assumes "wf_db db" "r \<in> set (kv db)" "s \<in> set (kv db)" "r_id r = r_id s"
  shows "r = s"
  using assms by (auto simp: wf_db_def wf_rows_def distinct_map inj_on_def)

lemma select_compact_ids:
  assumes "wf_db db" "r \<in> set (kv db)" "r_id r \<in> set (select_compact target db)"
  shows "eligible target db r"
proof -
  from assms(3) obtain s where "s \<in> set (kv db)" "eligible target db s" "r_id s = r_id r"
    using set_limitClause [of compactBatchSize "map r_id (filter (eligible target db) (kv db))"]
    by (auto simp: select_compact_def)
  with wf_db_id_inj [OF assms(1,2)] show ?thesis by metis
qed

lemma evolves_refl: "wf_db db \<Longrightarrow> evolves db db"
  using wf_db_id_inj by (auto simp: evolves_def)

lemma drop_eligible:
  assumes "wf_db db" "superseded ids db" "r \<in> set (kv db)"
  shows "eligible target (drop_rows ids db) r \<longleftrightarrow> eligible target db r"
proof
  assume "eligible target db r"
  then obtain s where s: "r_rev r \<le> target" "s \<in> set (kv db)" "r_key s = r_key r" "r_rev r < r_rev s"
    by (auto simp: eligible_def)
  with superseded_latest [OF assms(1,2) s(2)] show "eligible target (drop_rows ids db) r"
    unfolding eligible_def by (metis order_less_le_trans)
qed (auto simp: eligible_def)

lemma compact_db_step:
  assumes "wf_db db"
  shows "compact_db target (drop_rows (set (select_compact target db)) db) = compact_db target db"
    and "filter (eligible target (drop_rows (set (select_compact target db)) db))
        (kv (drop_rows (set (select_compact target db)) db)) =
      drop (length (select_compact target db)) (filter (eligible target db) (kv db))"
proof -
  let ?ids = "select_compact target db" and ?E = "filter (eligible target db) (kv db)"
  have sup: "superseded (set ?ids) db" by (rule superseded_scan [OF assms evolves_refl [OF assms]])
  note el = drop_eligible [OF assms sup, of _ target]
  have "filter (\<lambda>r. \<not> eligible target (drop_rows (set ?ids) db) r) (kv (drop_rows (set ?ids) db)) =
      filter (\<lambda>r. \<not> eligible target db r) (kv db)"
    using el select_compact_ids [OF assms, of _ target] by (auto intro!: filter_cong)
  then show "compact_db target (drop_rows (set ?ids) db) = compact_db target db"
    by (simp add: compact_db_def drop_rows_def)
  have "filter (eligible target (drop_rows (set ?ids) db)) (kv (drop_rows (set ?ids) db)) =
      filter (\<lambda>r. r_id r \<notin> set ?ids) ?E"
    using el by (auto simp: intro!: filter_cong)
  also have "\<dots> = drop (length ?ids) ?E"
  proof -
    have ids: "?ids = take (length ?ids) (map r_id ?E)"
      by (auto simp: select_compact_def limitClause_def min_def)
    have "distinct (map r_id ?E)"
      using assms by (simp add: wf_db_def wf_rows_def distinct_map_filter)
    then show ?thesis using ids filter_drop_take by metis
  qed
  finally show "filter (eligible target (drop_rows (set ?ids) db)) (kv (drop_rows (set ?ids) db)) =
      drop (length ?ids) ?E" .
qed

lemma compact_db_idle:
  assumes "filter (eligible target db) (kv db) = []"
  shows "compact_db target db = db"
proof -
  have "filter (\<lambda>r. \<not> eligible target db r) (kv db) = kv db"
    using assms by (simp add: filter_empty_conv filter_id_conv)
  then show ?thesis by (simp add: compact_db_def)
qed

lemma compactLoop_quiet:
  assumes "quiet (w_env w)" "wf_db (w_db w)"
  shows "\<exists>w'. compactLoop target n w =
      Some (n + length (filter (eligible target (w_db w)) (kv (w_db w))), w') \<and>
    w_db w' = compact_db target (w_db w)"
  using assms
proof (induction "length (filter (eligible target (w_db w)) (kv (w_db w)))" arbitrary: n w
    rule: less_induct)
  case less
  let ?db = "w_db w"
  let ?ids = "select_compact target ?db" and ?E = "filter (eligible target ?db) (kv ?db)"
  have len: "length ?ids = (if 1000 \<le> length ?E then 1000 else length ?E)"
    by (simp add: select_compact_def limitClause_def compactBatchSize_def)
  have q: "at_call w = ?db" "at_call (served w) = ?db"
    using quietD [OF less.prems(1)] quietD [of "served w"] less.prems(1) by simp_all
  have scan: "scanCompactBatch target w = (Inr ?ids, served w)"
    using quietD [OF less.prems(1)] by (simp add: scanCompactBatch_def single_eq)
  let ?db2 = "drop_rows (set ?ids) ?db"
  define w2 where "w2 = (served (served w))\<lparr>w_db := ?db2\<rparr>"
  have w2: "w_db w2 = ?db2" "w_env w2 = w_env w" by (simp_all add: w2_def)
  obtain ts where ap: "apply_call (map DeleteKV ?ids) (served w) = (Inr ts, w2)"
    using quietD [of "served w"] less.prems(1) q
    by (simp add: apply_call_eq commit_def apply_deletes w2_def)
  note step = compact_db_step [OF less.prems(2), of target]
  show ?case
  proof (cases "length ?E < 1000")
    case True
    have "filter (eligible target ?db2) (kv ?db2) = []" using step(2) True len by simp
    then have "compact_db target ?db2 = ?db2" by (rule compact_db_idle)
    with step(1) have fin: "compact_db target ?db = ?db2" by simp
    show ?thesis
    proof (cases "?ids = []")
      case True
      with len have "?E = []" by (auto split: if_splits)
      with True scan q fin show ?thesis by (subst compactLoop.simps) (simp add: drop_rows_def)
    next
      case False
      with True scan ap len fin w2 show ?thesis
        by (subst compactLoop.simps) (simp add: compactBatchSize_def)
    qed
  next
    case False
    then have E2: "length (filter (eligible target ?db2) (kv ?db2)) = length ?E - 1000"
      unfolding step(2) using len by simp
    from False have lt: "length ?E - 1000 < length ?E" by linarith
    obtain w' where "compactLoop target (n + 1000) w2 =
        Some (n + 1000 + (length ?E - 1000), w')" "w_db w' = compact_db target ?db"
      using less.hyps [of w2 "n + 1000"] E2 lt False w2 less.prems drop_rows_wf step(1) by auto
    with False scan ap len show ?thesis
      by (subst compactLoop.simps) (auto simp: compactBatchSize_def)
  qed
qed

section \<open>History\<close>

lemma select_as_of_compact:
  assumes "wf_db db" "target \<le> cap"
  shows "select_as_of key cap (compact_db target db) =
    (case select_as_of key cap db of
       None \<Rightarrow> None | Some r \<Rightarrow> if eligible target db r then None else Some r)"
proof (cases "select_as_of key cap db")
  case None
  then show ?thesis by (auto simp: select_as_of_def compact_db_def filter_empty_conv)
next
  case (Some r)
  note r = select_as_of_SomeD [OF Some]
  have rows: "wf_rows (kv (compact_db target db))"
    using assms(1) by (simp add: compact_db_def wf_db_def wf_rows_filter)
  show ?thesis
  proof (cases "eligible target db r")
    case True
    then obtain n where n: "n \<in> set (kv db)" "r_key n = r_key r" "r_rev r < r_rev n" "r_rev r \<le> target"
      by (auto simp: eligible_def)
    have "eligible target db s" if "s \<in> set (kv db)" "r_key s = key" "r_rev s \<le> cap" for s
      using r(4) [OF that] n that r(2) unfolding eligible_def
      by (metis order_le_less_trans order_trans)
    then have "select_as_of key cap (compact_db target db) = None"
      by (auto simp: select_as_of_def compact_db_def filter_empty_conv)
    with True Some show ?thesis by simp
  next
    case False
    with r have "select_as_of key cap (compact_db target db) = Some r"
      by (intro select_as_of_eqI [OF rows]) (auto simp: compact_db_def)
    with False Some show ?thesis by simp
  qed
qed

interpretation compact: txn_callback_total "compactTxn (revToTS (wrap64 targetRev))" "{}"
  for targetRev
proof unfold_locales
  fix v t ms c
  assume "fst (compactTxn (revToTS (wrap64 targetRev)) v t) = Inr ms" "wf_db (t_db t)"
  then show "\<exists>db'. apply_mutations (ce_ts c) (ce_id c) ms (t_db t) = Some db' \<and> wf_db db'"
    using wrap64_range [of targetRev]
    by (auto simp: compactTxn_def wf_db_def in_int64_def revToTS_def
        split: sum.splits option.splits if_splits)
qed (auto simp: compactTxn_def)

text \<open>
  The transaction touches the compaction row only, and only forward.  A read of the row answers
  \<open>NotFound\<close> for a row that is missing, not as a failure.
\<close>

definition not_missing :: "world \<Rightarrow> bool" where
  "not_missing w \<longleftrightarrow>
     (\<forall>e. ce_err (this_call w) QCompactRev = Some e \<longrightarrow> ErrCode e \<noteq> Some NotFound)"

lemma compactTxn_result:
  "fst (compactTxn T u (handle w)) \<in> {Inr [], Inr [InsertOrUpdateKvRev CompactRevRow T]} \<or>
   (\<exists>e. fst (compactTxn T u (handle w)) = Inl e)"
  "fst (compactTxn T u (handle w)) = Inr [InsertOrUpdateKvRev CompactRevRow T] \<Longrightarrow> not_missing w \<Longrightarrow>
   kv_rev (at_call w) CompactRevRow = Some t \<Longrightarrow> t < T"
  "fst (compactTxn T u (handle w)) = Inr [] \<Longrightarrow>
   \<exists>t. kv_rev (at_call w) CompactRevRow = Some t \<and> T \<le> t"
  by (auto simp: compactTxn_def txn_read_def not_missing_def split: option.splits if_splits)

lemma compactTxn_commit:
  assumes "in_int64 targetRev" "wf_db (at_call w)"
    and "read_write (compactTxn (revToTS targetRev)) () w = (res, u, w1)"
  shows "wf_db (w_db w1)" "kv (w_db w1) = kv (at_call w)"
    "not_missing w \<Longrightarrow> compact_rev (at_call w) \<le> compact_rev (w_db w1)"
    "w_env w1 = w_env w" "w_pos w1 = Suc (w_pos w)"
    "ce_err (this_call w) QCompactRev = None \<Longrightarrow> res = Inr ts \<Longrightarrow>
      compact_rev (w_db w1) = max (compact_rev (at_call w)) (revToTS targetRev)"
proof -
  let ?T = "revToTS targetRev" and ?db = "at_call w"
  let ?db' = "?db\<lparr>kv_rev := (kv_rev ?db)(CompactRevRow \<mapsto> ?T)\<rparr>"
  have T: "1 \<le> ?T" "?T < 2 ^ 63" using assms(1) by (auto simp: revToTS_def in_int64_def)
  have w1: "w1 = served w \<and> (res = Inr ts \<longrightarrow> (\<exists>t. kv_rev ?db CompactRevRow = Some t \<and> ?T \<le> t)) \<or>
      w1 = (served w)\<lparr>w_db := ?db'\<rparr> \<and>
      (not_missing w \<longrightarrow> (\<forall>t. kv_rev ?db CompactRevRow = Some t \<longrightarrow> t < ?T))"
    using compactTxn_result [of ?T "()" w] assms(3)
    by (auto simp: read_write_eq commit_def split: commit_fate.splits)
  then show "w_env w1 = w_env w" "w_pos w1 = Suc (w_pos w)" "kv (w_db w1) = kv ?db" by auto
  show "wf_db (w_db w1)" using w1 assms(2) T by (auto simp: wf_db_def)
  show "compact_rev ?db \<le> compact_rev (w_db w1)" if "not_missing w"
    using w1 that T by (auto simp: compact_rev_def split: option.splits)
  show "compact_rev (w_db w1) = max (compact_rev ?db) ?T"
    if "ce_err (this_call w) QCompactRev = None" "res = Inr ts"
    using w1 that T by (auto simp: compact_rev_def not_missing_def split: option.splits)
qed

section \<open>Properties\<close>

lemma others_demo:
  "others_keep (w_env (demo_world db)) key" "others_newer (w_env (demo_world db)) target"
  by (simp_all add: others_keep_def others_newer_def evolves_refl)

text \<open>
  C25: deleting old revisions never changes the current state.  While other replicas write and
  compact, a run of \<open>compactRows\<close> leaves every key they do not change with its value, lease
  and revisions, whichever of its statements fail, and keeps the invariant.
\<close>

theorem compactRows_safe:
  assumes "wf_db (w_db w)" and "others_keep (w_env w) key"
    and "compactRows targetRev w = Some (n, w')"
  shows "wf_db (w_db w') \<and> abs_store (w_db w') key = abs_store (w_db w) key"
  using compactLoop_safe [OF assms(3) [unfolded compactRows_def] assms(2,1)] by simp

theorem compactRows_safe_witness:
  "\<exists>n w'. compactRows 35 (demo_world demo_db) = Some (n, w') \<and>
     abs_store (w_db w') ''a'' = abs_store demo_db ''a''"
proof -
  obtain n w' where "compactRows 35 (demo_world demo_db) = Some (n, w')"
    using compactLoop_returns [OF others_demo(2)] by (metis compactRows_def surj_pair)
  with compactRows_safe [OF _ others_demo(1) this] wf_demo show ?thesis by auto
qed

text \<open>
  C26: \<open>compactRows\<close> returns, as long as other clients add no row at or below the target
  (their commit timestamps are later), however many rows they add above it and whatever they
  delete.
\<close>

theorem compactRows_returns:
  assumes "others_newer (w_env w) (revToTS targetRev)"
  shows "\<exists>n w'. compactRows targetRev w = Some (n, w')"
  using compactLoop_returns [OF assms, of 0] by (auto simp: compactRows_def)

theorem compactRows_returns_witness: "\<exists>n w'. compactRows 35 (demo_world demo_db) = Some (n, w')"
  using compactRows_returns [of "demo_world demo_db" 35] others_demo by blast

text \<open>
  C8: undisturbed, \<open>compactRows\<close> deletes in batches exactly the rows at or below the target
  that a newer row of their key supersedes, reports their number, and leaves the abstract
  store alone.
\<close>

theorem compactRows_exact:
  assumes "quiet (w_env w)" and "wf_db (w_db w)"
  shows "\<exists>w'. compactRows targetRev w =
      Some (length (filter (eligible (revToTS targetRev) (w_db w)) (kv (w_db w))), w') \<and>
    w_db w' = compact_db (revToTS targetRev) (w_db w) \<and> abs_store (w_db w') = abs_store (w_db w)"
proof -
  obtain w' where w': "compactRows targetRev w =
      Some (length (filter (eligible (revToTS targetRev) (w_db w)) (kv (w_db w))), w')"
    "w_db w' = compact_db (revToTS targetRev) (w_db w)"
    using compactLoop_quiet [OF assms, of "revToTS targetRev" 0] by (auto simp: compactRows_def)
  have "others_keep (w_env w) key" for key
    using assms(1) evolves_refl by (simp add: others_keep_def quiet_def)
  then have "abs_store (w_db w') key = abs_store (w_db w) key" for key
    using compactLoop_safe [OF w'(1) [unfolded compactRows_def] _ assms(2)] by simp
  with w' show ?thesis by (auto simp: fun_eq_iff)
qed

theorem compactRows_exact_witness:
  "\<exists>w'. compactRows 35 (demo_world demo_db) = Some (2, w') \<and> map r_id (kv (w_db w')) = [3, 4, 5]"
  using compactRows_exact [OF quiet_demo, of demo_db 35] wf_demo
  by (auto simp: compact_db_def eligible_def demo_defs revToTS_def)

text \<open>
  C27: the compaction revision never moves back.  A \<open>Compact\<close> for a lower revision than the
  stored one leaves the stored one, also when two compactions race; when it succeeds the stored
  revision is the larger of the two, and rows are deleted up to that one.
\<close>

theorem Compact_forward:
  assumes "in_int64 targetRev" and "wf_db (at_call w)" and "not_missing w"
    and "ce_other (this_call (served w)) = id" and "ce_err (this_call (served w)) QCompactRev = None"
  shows "case Store_Compact targetRev w of (rv, err, job, w') \<Rightarrow>
    wf_db (w_db w') \<and> abs_store (w_db w') = abs_store (at_call w) \<and>
    compact_rev (at_call w) \<le> compact_rev (w_db w') \<and>
    (err = None \<and> ce_err (this_call w) QCompactRev = None \<longrightarrow> rv = targetRev \<and>
       compact_rev (w_db w') = max (compact_rev (at_call w)) (revToTS targetRev) \<and>
       job = Some (compact_rev (w_db w')))"
proof -
  obtain res u w1 where rw: "read_write (compactTxn (revToTS targetRev)) () w = (res, u, w1)"
    using prod_cases3 by blast
  note c = compactTxn_commit [OF assms(1,2) rw]
  have nxt: "this_call w1 = this_call (served w)" using c(4,5) by (simp add: this_call_def)
  then have at: "at_call w1 = w_db w1" using assms(4) by (simp add: at_call_def)
  have abs: "abs_store (w_db w1) = abs_store (at_call w)"
    using c(2) by (simp add: abs_store_def current_def select_latest_def)
  have "Store_compactRevision w1 = (compact_rev (w_db w1), None, served w1)"
    using compactRevision_eq [of w1] at nxt assms(5) c(1) by simp
  moreover have "targetRev \<le> revToTS targetRev" "compact_rev (w_db w1) \<ge> 1"
    using compact_rev_ge [OF c(1)] by (auto simp: revToTS_def)
  ultimately show ?thesis
    using rw c(1,3,6) abs at assms(3)
    by (cases res) (auto simp: Store_Compact_def Let_def max_def revToTS_def split: if_splits)
qed

theorem Compact_forward_witness:
  "case Store_Compact 35 (demo_world demo_db) of (rv, err, job, w') \<Rightarrow>
     wf_db (w_db w') \<and> abs_store (w_db w') = abs_store demo_db"
  using Compact_forward [of 35 "demo_world demo_db"] wf_demo
  by (auto simp: in_int64_def not_missing_def split: prod.splits)

text \<open>
  What compaction does to reads at older revisions.  At a revision at or above the target,
  a key whose state there was written above the target, or never overwritten, reads as before.
  A key whose state there was written at or below the target and overwritten since, even after
  the revision read, is gone.
\<close>

theorem compaction_history:
  assumes "wf_db db" and "target \<le> rv"
  shows "abs_at (compact_db target db) rv key =
    (case select_as_of key rv db of
       None \<Rightarrow> None
     | Some r \<Rightarrow>
         if r_rev r \<le> target \<and> (\<exists>s \<in> set (kv db). r_key s = key \<and> rv < r_rev s) then None
         else abs_at db rv key)"
proof (cases "select_as_of key rv db")
  case (Some r)
  note r = select_as_of_SomeD [OF Some]
  have "eligible target db r \<longleftrightarrow>
      r_rev r \<le> target \<and> (\<exists>s \<in> set (kv db). r_key s = key \<and> rv < r_rev s)"
    using r(2,3) r(4) unfolding eligible_def by (metis leD leI order_le_less_trans)
  with Some select_as_of_compact [OF assms, of key] show ?thesis by (auto simp: abs_at_def live_def)
qed (use select_as_of_compact [OF assms, of key] in \<open>simp add: abs_at_def live_def\<close>)

theorem compaction_history_witness:
  "abs_at demo_db 25 ''a'' \<noteq> None \<and> abs_at (compact_db 15 demo_db) 25 ''a'' = None"
  using compaction_history [OF wf_demo, of 15 25 "''a''"] abs_at_demo
  by (simp add: select_as_of_def newest_def first_by_def demo_defs)

lemma in_int64_01 [simp]: "in_int64 0" "in_int64 1"
  by (simp_all add: in_int64_def)

lemma read_write_env: "read_write cb v w = (res, u, w1) \<Longrightarrow> w_env w1 = w_env w"
  by (auto simp: read_write_eq commit_def Let_def
      split: sum.splits option.splits commit_fate.splits)

lemma compactRevision_int64:
  "Store_compactRevision w = (rv, err, w') \<Longrightarrow> in_int64 rv \<and> w' = served w"
  by (auto simp: Store_compactRevision_def single_eq tsToRev_int64 split: option.splits if_splits)

lemma record_and_delete_safe:
  assumes "wf_db (w_db w)" "others_keep (w_env w) key" "in_int64 targetRev"
    and "(case read_write (compactTxn (revToTS targetRev)) () w of
            (Inl e, _, w3) \<Rightarrow> Some w3
          | (Inr _, _, w3) \<Rightarrow> map_option snd (compactRows targetRev w3)) = Some w'"
  shows "wf_db (w_db w') \<and> abs_store (w_db w') key = abs_store (w_db w) key"
proof -
  obtain res u w1 where rw: "read_write (compactTxn (revToTS targetRev)) () w = (res, u, w1)"
    using prod_cases3 by blast
  note k = others_keepD [OF assms(2,1)]
  note c = compactTxn_commit [OF assms(3) k(2) rw]
  have abs: "abs_store (w_db w1) key = abs_store (w_db w) key"
    using c(2) k(3) by (simp add: abs_store_def current_def select_latest_def)
  show ?thesis
  proof (cases res)
    case (Inl e)
    with rw assms(4) c(1) abs show ?thesis by auto
  next
    case (Inr ts)
    with rw assms(4) obtain n where "compactLoop (revToTS targetRev) 0 w1 = Some (n, w')"
      by (auto simp: compactRows_def)
    from compactLoop_safe [OF this, of key] c(1,4) assms(2) abs show ?thesis by simp
  qed
qed

lemma autoCompactTick_returns:
  assumes "\<And>target. others_newer (w_env w) target"
  shows "\<exists>w'. autoCompactTick cfg w = Some w'"
proof -
  obtain cur err where cur: "Store_CurrentRevision w = (cur, err, served w)"
    by (rule CurrentRevision_shape)
  obtain ex err2 w2 where ex: "Store_compactRevision (served w) = (ex, err2, w2)"
    using prod_cases3 by blast
  have "\<exists>w'. (case read_write (compactTxn T) () w2 of
      (Inl e, _, w3) \<Rightarrow> Some w3 | (Inr _, _, w3) \<Rightarrow> map_option snd (compactRows t w3)) = Some w'" for T t
  proof -
    obtain res u w3 where rw: "read_write (compactTxn T) () w2 = (res, u, w3)"
      using prod_cases3 by blast
    have "w_env w3 = w_env w" using read_write_env [OF rw] compactRevision_int64 [OF ex] by simp
    then obtain r where "compactRows t w3 = Some r"
      using compactLoop_returns [of w3 "revToTS t" 0] assms by (auto simp: compactRows_def)
    with rw show ?thesis by (cases res) auto
  qed
  with cur ex show ?thesis by (cases err) (auto simp: autoCompactTick_def Let_def)
qed

text \<open>
  One tick of the automatic compaction, from reading the current revision to the last
  batch it deletes, keeps the invariant and leaves every key that nobody else changes as it was.
\<close>

theorem autoCompactTick_safe:
  assumes "wf_db (w_db w)" and "others_keep (w_env w) key" and "autoCompactTick cfg w = Some w'"
  shows "wf_db (w_db w') \<and> abs_store (w_db w') key = abs_store (w_db w) key"
proof -
  note k1 = others_keepD [OF assms(2,1)]
  obtain cur err where cur: "Store_CurrentRevision w = (cur, err, served w)"
    by (rule CurrentRevision_shape)
  obtain ex err2 w2 where ex: "Store_compactRevision (served w) = (ex, err2, w2)"
    using prod_cases3 by blast
  note e = compactRevision_int64 [OF ex]
  let ?t = "tsToRev (revToTS cur - AutoCompactAge cfg)"
  let ?t1 = "if err2 = None \<and> ex > ?t then ex else ?t"
  show ?thesis
  proof (cases "err = None \<and> 1 < cur \<and> 1 < ?t")
    case False
    with assms(3) cur k1 show ?thesis
      by (auto simp: autoCompactTick_def Let_def split: option.splits if_splits)
  next
    case True
    have w2: "wf_db (w_db w2)" "others_keep (w_env w2) key" "abs_store (w_db w2) key = abs_store (w_db w) key"
      using e others_keepD [of "served w" key] assms(2) k1 by auto
    have i: "in_int64 ?t1" using e tsToRev_int64 by simp
    have "(case read_write (compactTxn (revToTS ?t1)) () w2 of
            (Inl e, _, w3) \<Rightarrow> Some w3
          | (Inr _, _, w3) \<Rightarrow> map_option snd (compactRows ?t1 w3)) = Some w'"
      using assms(3) True cur ex by (simp add: autoCompactTick_def Let_def)
    from record_and_delete_safe [OF w2(1,2) i this] show ?thesis unfolding w2(3) .
  qed
qed

theorem autoCompactTick_safe_witness:
  "\<exists>w'. autoCompactTick \<lparr>AutoCompactInterval = 1, AutoCompactAge = 20\<rparr> (demo_world demo_db) = Some w' \<and>
     abs_store (w_db w') ''a'' = abs_store demo_db ''a''"
proof -
  obtain w' where w': "autoCompactTick \<lparr>AutoCompactInterval = 1, AutoCompactAge = 20\<rparr> (demo_world demo_db) = Some w'"
    using autoCompactTick_returns [OF others_demo(2)] by blast
  from autoCompactTick_safe [OF _ others_demo(1) w', of "''a''"] wf_demo w' show ?thesis by auto
qed

end
