(* ===== verification/KVServer.thy ===== *)
theory KVServer
  imports Compaction
begin

text \<open>
  \<open>pkg/server/kv.go\<close>: the KV service of etcd over the store.  A handler returns
  \<open>Inl\<close> a gRPC error or \<open>Inr\<close> its response, with the world after its calls.  The byte
  slices a handler converts to strings before use are strings here.  Requests have the fields
  the handlers read; the other fields of the protocol are ignored by the code.
\<close>

section \<open>Messages\<close>

record KeyValue =
  pk_Key :: string
  pk_Value :: bytes
  pk_ModRevision :: int
  pk_CreateRevision :: int
  pk_Version :: int
  pk_Lease :: int

record ResponseHeader =
  h_ClusterId :: int
  h_MemberId :: int
  h_Revision :: int
  h_RaftTerm :: int

record RangeRequest =
  rr_Key :: string
  rr_RangeEnd :: string
  rr_Limit :: int
  rr_Revision :: int
  rr_KeysOnly :: bool
  rr_CountOnly :: bool

record RangeResponse =
  rs_Header :: ResponseHeader
  rs_Kvs :: "KeyValue list"
  rs_Count :: int

record PutRequest =
  pr_Key :: string
  pr_Value :: bytes
  pr_Lease :: int
  pr_PrevKv :: bool
  pr_IgnoreValue :: bool
  pr_IgnoreLease :: bool

record PutResponse =
  ps_Header :: ResponseHeader
  ps_PrevKv :: "KeyValue option"

record DeleteRangeRequest =
  dr_Key :: string
  dr_RangeEnd :: string
  dr_PrevKv :: bool

record DeleteRangeResponse =
  ds_Header :: ResponseHeader
  ds_Deleted :: int
  ds_PrevKvs :: "KeyValue list"

datatype RequestOp =
    RequestRange RangeRequest | RequestPut PutRequest
  | RequestDeleteRange DeleteRangeRequest | RequestOther

datatype ResponseOp =
    ResponseRange RangeResponse | ResponsePut PutResponse | ResponseDeleteRange DeleteRangeResponse

datatype CompareTarget = VERSION | CREATE | MOD | VALUE | TargetOther string

datatype CompareResult = EQUAL | GREATER | LESS | NOT_EQUAL | ResultOther

datatype TargetUnion =
    TU_Version int | TU_CreateRevision int | TU_ModRevision int | TU_Value bytes | TU_Other

record Compare =
  c_Key :: string
  c_Target :: CompareTarget
  c_Result :: CompareResult
  c_Union :: TargetUnion

record TxnRequest =
  tr_Compare :: "Compare list"
  tr_Success :: "RequestOp list"
  tr_Failure :: "RequestOp list"

record TxnResponse =
  ts_Header :: ResponseHeader
  ts_Succeeded :: bool
  ts_Responses :: "ResponseOp list"

text \<open>The getters of the compare's union return the zero value for another member.\<close>

fun GetVersion :: "TargetUnion \<Rightarrow> int" where
  "GetVersion (TU_Version n) = n" | "GetVersion _ = 0"

fun GetCreateRevision :: "TargetUnion \<Rightarrow> int" where
  "GetCreateRevision (TU_CreateRevision n) = n" | "GetCreateRevision _ = 0"

fun GetModRevision :: "TargetUnion \<Rightarrow> int" where
  "GetModRevision (TU_ModRevision n) = n" | "GetModRevision _ = 0"

fun GetValue :: "TargetUnion \<Rightarrow> bytes" where
  "GetValue (TU_Value v) = v" | "GetValue _ = None"

section \<open>Helpers\<close>

definition header :: "int \<Rightarrow> ResponseHeader" where
  "header rv = \<lparr>h_ClusterId = 1, h_MemberId = 1, h_Revision = rv, h_RaftTerm = 1\<rparr>"

definition kvVersion :: "KV \<Rightarrow> int" where
  "kvVersion k = wrap64 (Rev k - CreateRevision k + 1)"

definition toProtoKV :: "KV \<Rightarrow> KeyValue" where
  "toProtoKV k =
     \<lparr>pk_Key = Key k, pk_Value = Value k, pk_ModRevision = Rev k,
      pk_CreateRevision = CreateRevision k, pk_Version = kvVersion k, pk_Lease = LeaseID k\<rparr>"

definition zero_byte :: string where
  "zero_byte = [CHR 0x00]"

definition rangeToPrefix :: "string \<Rightarrow> string \<Rightarrow> string" where
  "rangeToPrefix key ende =
     (if ende = zero_byte then []
      else if length ende > 0 \<and> length key > 0 then
        (if HasPrefix ende (butlast key) then butlast key else key)
      else key)"

fun compareInt :: "int \<Rightarrow> int \<Rightarrow> CompareResult \<Rightarrow> bool" where
  "compareInt actual expected EQUAL = (actual = expected)"
| "compareInt actual expected NOT_EQUAL = (actual \<noteq> expected)"
| "compareInt actual expected GREATER = (actual > expected)"
| "compareInt actual expected LESS = (actual < expected)"
| "compareInt actual expected ResultOther = False"

fun compareBytes :: "bytes \<Rightarrow> bytes \<Rightarrow> CompareResult \<Rightarrow> bool" where
  "compareBytes actual expected EQUAL = (bytes_string actual = bytes_string expected)"
| "compareBytes actual expected NOT_EQUAL = (bytes_string actual \<noteq> bytes_string expected)"
| "compareBytes actual expected _ = False"

definition boolToInt :: "bool \<Rightarrow> int" where
  "boolToInt b = (if b then 1 else 0)"

text \<open>A field that is filled when the request asks for it and there is something.\<close>

definition opt_list :: "bool \<Rightarrow> 'a option \<Rightarrow> 'a list" where
  "opt_list b x = (if b then (case x of None \<Rightarrow> [] | Some y \<Rightarrow> [y]) else [])"

text \<open>The text of an error; a status error prints its description.\<close>

fun err_Error :: "goerr \<Rightarrow> string" where
  "err_Error ErrKeyNotFound = ''key not found''"
| "err_Error ErrKeyExists = ''key already exists''"
| "err_Error ErrRevisionMismatch = ''revision mismatch''"
| "err_Error ErrCompacted = ''requested revision has been compacted''"
| "err_Error ContextCanceled = ''context canceled''"
| "err_Error ContextDeadlineExceeded = ''context deadline exceeded''"
| "err_Error (Status c s) = s"
| "err_Error (Wrapped s e) = s @ '': '' @ err_Error e"
| "err_Error (Errorf s) = s"

fun toGRPCErr :: "goerr \<Rightarrow> goerr" where
  "toGRPCErr ErrKeyExists = Status AlreadyExists ''key already exists''"
| "toGRPCErr ErrKeyNotFound = Status NotFound ''key not found''"
| "toGRPCErr ErrRevisionMismatch = Status FailedPrecondition ''revision mismatch''"
| "toGRPCErr ErrCompacted = Status OutOfRange ''requested revision has been compacted''"
| "toGRPCErr e = Status Internal (err_Error e)"

text \<open>\<open>status.FromError\<close> finds a status anywhere in the chain.\<close>

definition passStatus :: "goerr \<Rightarrow> goerr" where
  "passStatus e = (if ErrCode e \<noteq> None then e else toGRPCErr e)"

section \<open>Range, Put, DeleteRange\<close>

definition KV_Range :: "RangeRequest \<Rightarrow> world \<Rightarrow> (goerr + RangeResponse) \<times> world" where
  "KV_Range r w =
     (let key = rr_Key r; ende = rr_RangeEnd r
      in if ende = [] then
           (case Store_Get key (rr_Revision r) w of
              (_, _, Some e, w1) \<Rightarrow> (Inl (toGRPCErr e), w1)
            | (curRev, k, None, w1) \<Rightarrow>
                (case k of
                   Some k' \<Rightarrow>
                     (if \<not> Deleted k'
                      then (Inr \<lparr>rs_Header = header curRev, rs_Kvs = [toProtoKV k'], rs_Count = 1\<rparr>, w1)
                      else (Inr \<lparr>rs_Header = header curRev, rs_Kvs = [], rs_Count = 0\<rparr>, w1))
                 | None \<Rightarrow> (Inr \<lparr>rs_Header = header curRev, rs_Kvs = [], rs_Count = 0\<rparr>, w1)))
         else
           (let p = rangeToPrefix key ende
            in if rr_CountOnly r then
                 (case Store_Count p key (rr_Revision r) w of
                    (_, _, Some e, w1) \<Rightarrow> (Inl (toGRPCErr e), w1)
                  | (curRev, n, None, w1) \<Rightarrow>
                      (Inr \<lparr>rs_Header = header curRev, rs_Kvs = [], rs_Count = n\<rparr>, w1))
               else
                 (case Store_List p key (rr_Limit r) (rr_Revision r) w of
                    (_, _, _, Some e, w1) \<Rightarrow> (Inl (toGRPCErr e), w1)
                  | (curRev, _, kvs, None, w1) \<Rightarrow>
                      (Inr \<lparr>rs_Header = header curRev,
                            rs_Kvs = (if \<not> rr_KeysOnly r then map toProtoKV kvs
                                      else map (\<lambda>k. \<lparr>pk_Key = Key k, pk_Value = None, pk_ModRevision = 0,
                                        pk_CreateRevision = 0, pk_Version = 0, pk_Lease = 0\<rparr>) kvs),
                            rs_Count = int (length kvs)\<rparr>, w1))))"

definition KV_Put :: "PutRequest \<Rightarrow> world \<Rightarrow> (goerr + PutResponse) \<times> world" where
  "KV_Put r w =
     (let key = pr_Key r
      in (case Store_Create key (pr_Value r) (pr_Lease r) w of
            (rv, err, w1) \<Rightarrow>
              (if err = Some ErrKeyExists then
                 (case Store_Get key 0 w1 of
                    (_, _, Some gerr, w2) \<Rightarrow> (Inl (toGRPCErr gerr), w2)
                  | (curRev, k, None, w2) \<Rightarrow>
                      (let prevModRev = (case k of None \<Rightarrow> 0 | Some k' \<Rightarrow> Rev k')
                       in (case Store_Update key (pr_Value r) prevModRev (pr_Lease r) w2 of
                             (_, _, _, Some e, w3) \<Rightarrow> (Inl (toGRPCErr e), w3)
                           | (rv2, prev, _, None, w3) \<Rightarrow>
                               (Inr \<lparr>ps_Header = header rv2,
                                     ps_PrevKv = (if pr_PrevKv r then map_option toProtoKV prev else None)\<rparr>,
                                w3))))
               else
                 (case err of
                    Some e \<Rightarrow> (Inl (toGRPCErr e), w1)
                  | None \<Rightarrow> (Inr \<lparr>ps_Header = header rv, ps_PrevKv = None\<rparr>, w1)))))"

text \<open>The loop of a range delete: the accumulators are \<open>deleted\<close>, \<open>prevKvs\<close>, \<open>lastRev\<close>.\<close>

fun deleteEach :: "bool \<Rightarrow> string list \<Rightarrow> int \<times> KeyValue list \<times> int \<Rightarrow> world
    \<Rightarrow> (int \<times> KeyValue list \<times> int) \<times> world" where
  "deleteEach prevKv [] acc w = (acc, w)"
| "deleteEach prevKv (k # ks) (deleted, prevKvs, lastRev) w =
     (case Store_Delete k 0 w of
        (_, _, _, Some e, w1) \<Rightarrow> deleteEach prevKv ks (deleted, prevKvs, lastRev) w1
      | (rv, prev, ok, None, w1) \<Rightarrow>
          (if ok then
             deleteEach prevKv ks
               (deleted + 1,
                prevKvs @ opt_list prevKv (map_option toProtoKV prev),
                rv) w1
           else deleteEach prevKv ks (deleted, prevKvs, lastRev) w1))"

definition KV_DeleteRange :: "DeleteRangeRequest \<Rightarrow> world \<Rightarrow> (goerr + DeleteRangeResponse) \<times> world" where
  "KV_DeleteRange r w =
     (let key = dr_Key r; ende = dr_RangeEnd r
      in if ende = [] then
           (case Store_Delete key 0 w of
              (_, _, _, Some e, w1) \<Rightarrow> (Inl (toGRPCErr e), w1)
            | (rv, prev, ok, None, w1) \<Rightarrow>
                (Inr \<lparr>ds_Header = header rv, ds_Deleted = boolToInt ok,
                      ds_PrevKvs = opt_list (dr_PrevKv r) (map_option toProtoKV prev)\<rparr>, w1))
         else
           (case Store_List (rangeToPrefix key ende) key 0 0 w of
              (_, _, _, Some e, w1) \<Rightarrow> (Inl (toGRPCErr e), w1)
            | (_, _, kvs, None, w1) \<Rightarrow>
                (case deleteEach (dr_PrevKv r) (map Key kvs) (0, [], 0) w1 of
                   ((deleted, prevKvs, lastRev), w2) \<Rightarrow>
                     (let (lastRev1, w3) =
                        (if lastRev = 0
                         then (case Store_CurrentRevision w2 of (c, _, w3) \<Rightarrow> (c, w3))
                         else (lastRev, w2))
                      in (Inr \<lparr>ds_Header = header lastRev1, ds_Deleted = deleted,
                               ds_PrevKvs = prevKvs\<rparr>, w3)))))"

section \<open>Txn\<close>

definition txnNeedsNonAtomicFallback :: "TxnRequest \<Rightarrow> bool" where
  "txnNeedsNonAtomicFallback r =
     list_ex (\<lambda>ops. list_ex (\<lambda>op.
         (case op of
            RequestRange rr \<Rightarrow>
              length (rr_RangeEnd rr) > 0 \<or> rr_Revision rr \<noteq> 0 \<or> rr_CountOnly rr \<or> rr_KeysOnly rr \<or>
              rr_Limit rr \<noteq> 0
          | RequestPut pr \<Rightarrow> pr_IgnoreValue pr \<or> pr_IgnoreLease pr
          | RequestDeleteRange dr \<Rightarrow> length (dr_RangeEnd dr) > 0
          | RequestOther \<Rightarrow> False)) ops)
       [tr_Success r, tr_Failure r]"

definition evalCompare :: "Compare \<Rightarrow> KV option \<Rightarrow> bool" where
  "evalCompare c k =
     (case c_Target c of
        VERSION \<Rightarrow>
          compareInt (case k of None \<Rightarrow> 0 | Some k' \<Rightarrow> kvVersion k') (GetVersion (c_Union c)) (c_Result c)
      | CREATE \<Rightarrow>
          compareInt (case k of None \<Rightarrow> 0 | Some k' \<Rightarrow> CreateRevision k')
            (GetCreateRevision (c_Union c)) (c_Result c)
      | MOD \<Rightarrow>
          compareInt (case k of None \<Rightarrow> 0 | Some k' \<Rightarrow> Rev k') (GetModRevision (c_Union c)) (c_Result c)
      | VALUE \<Rightarrow>
          compareBytes (case k of None \<Rightarrow> None | Some k' \<Rightarrow> Value k') (GetValue (c_Union c)) (c_Result c)
      | TargetOther s \<Rightarrow> False)"

definition unsupportedTarget :: "string \<Rightarrow> goerr" where
  "unsupportedTarget s = Status InvalidArgument (''unsupported compare target: '' @ s)"

definition toTxnCompare :: "Compare \<Rightarrow> TxnCompare" where
  "toTxnCompare c =
     (case c_Target c of
        TargetOther s \<Rightarrow>
          \<lparr>cmp_Key = c_Key c, cmp_Evaluate = None, cmp_Err = Some (unsupportedTarget s)\<rparr>
      | _ \<Rightarrow> \<lparr>cmp_Key = c_Key c, cmp_Evaluate = Some (evalCompare c), cmp_Err = None\<rparr>)"

fun toStoreOps :: "RequestOp list \<Rightarrow> goerr + TxnOp list" where
  "toStoreOps [] = Inr []"
| "toStoreOps (op # ops) =
     (case (case op of
              RequestRange rr \<Rightarrow>
                Inr \<lparr>op_Type = TxnOpGet, op_Key = rr_Key rr, op_Value = None, op_LeaseID = 0\<rparr>
            | RequestPut pr \<Rightarrow>
                Inr \<lparr>op_Type = TxnOpPut, op_Key = pr_Key pr, op_Value = pr_Value pr,
                     op_LeaseID = pr_Lease pr\<rparr>
            | RequestDeleteRange dr \<Rightarrow>
                Inr \<lparr>op_Type = TxnOpDelete, op_Key = dr_Key dr, op_Value = None, op_LeaseID = 0\<rparr>
            | RequestOther \<Rightarrow> Inl (Status InvalidArgument ''unsupported Txn op type'')) of
        Inl e \<Rightarrow> Inl e
      | Inr sop \<Rightarrow>
          (case toStoreOps ops of Inl e \<Rightarrow> Inl e | Inr sops \<Rightarrow> Inr (sop # sops)))"

definition dupStatus :: "string \<Rightarrow> goerr" where
  "dupStatus key =
     Status InvalidArgument (''duplicate mutation for key '' @ key @ '' in single Txn branch'')"

definition zeroResult :: TxnResult where
  "zeroResult = \<lparr>res_KV = None, res_Ok = False\<rparr>"

text \<open>The response to each operation of the branch; a result that is missing is the zero one.\<close>

fun responseOps :: "int \<Rightarrow> RequestOp list \<Rightarrow> TxnResult list \<Rightarrow> ResponseOp list" where
  "responseOps commitRev [] results = []"
| "responseOps commitRev (op # ops) results =
     (let res = (case results of [] \<Rightarrow> zeroResult | x # _ \<Rightarrow> x);
          k = map_option toProtoKV (res_KV res)
      in (case op of
            RequestRange rr \<Rightarrow>
              [ResponseRange \<lparr>rs_Header = header commitRev, rs_Kvs = opt_list True k,
                 rs_Count = (if res_KV res = None then 0 else 1)\<rparr>]
          | RequestPut pr \<Rightarrow>
              [ResponsePut \<lparr>ps_Header = header commitRev,
                 ps_PrevKv = (if pr_PrevKv pr then k else None)\<rparr>]
          | RequestDeleteRange dr \<Rightarrow>
              [ResponseDeleteRange \<lparr>ds_Header = header commitRev, ds_Deleted = boolToInt (res_Ok res),
                 ds_PrevKvs = opt_list (dr_PrevKv dr) k\<rparr>]
          | RequestOther \<Rightarrow> []) @
         responseOps commitRev ops (tl results))"

definition txnAtomic :: "TxnRequest \<Rightarrow> world \<Rightarrow> (goerr + TxnResponse) \<times> world" where
  "txnAtomic r w =
     (let compares = map toTxnCompare (tr_Compare r)
      in (case toStoreOps (tr_Success r) of
            Inl e \<Rightarrow> (Inl e, w)
          | Inr successOps \<Rightarrow>
              (case toStoreOps (tr_Failure r) of
                 Inl e \<Rightarrow> (Inl e, w)
               | Inr failureOps \<Rightarrow>
                   (case dupMutation [] successOps of
                      Some key \<Rightarrow> (Inl (dupStatus key), w)
                    | None \<Rightarrow>
                        (case dupMutation [] failureOps of
                           Some key \<Rightarrow> (Inl (dupStatus key), w)
                         | None \<Rightarrow>
                             (case Store_AtomicTxn compares successOps failureOps w of
                                (_, _, _, Some e, w1) \<Rightarrow> (Inl (passStatus e), w1)
                              | (succeeded, results, commitRev, None, w1) \<Rightarrow>
                                  (let (rv, cerr, w2) =
                                     (if commitRev = 0 then Store_CurrentRevision w1
                                      else (commitRev, None, w1))
                                   in (case cerr of
                                         Some e \<Rightarrow> (Inl (toGRPCErr e), w2)
                                       | None \<Rightarrow>
                                           (Inr \<lparr>ts_Header = header rv, ts_Succeeded = succeeded,
                                              ts_Responses = responseOps rv
                                                (if succeeded then tr_Success r else tr_Failure r)
                                                results\<rparr>, w2)))))))))"

section \<open>The non-atomic path\<close>

fun dupRequestOps :: "string list \<Rightarrow> RequestOp list \<Rightarrow> string option" where
  "dupRequestOps seen [] = None"
| "dupRequestOps seen (op # ops) =
     (let key = (case op of
                   RequestPut pr \<Rightarrow> pr_Key pr
                 | RequestDeleteRange dr \<Rightarrow> if length (dr_RangeEnd dr) = 0 then dr_Key dr else []
                 | _ \<Rightarrow> [])
      in if key \<noteq> [] then
           (if key \<in> set seen then Some key else dupRequestOps (key # seen) ops)
         else dupRequestOps seen ops)"

fun evaluateCompare :: "Compare list \<Rightarrow> world \<Rightarrow> (goerr + bool) \<times> world" where
  "evaluateCompare [] w = (Inr True, w)"
| "evaluateCompare (c # cs) w =
     (case Store_Get (c_Key c) 0 w of
        (_, _, Some e, w1) \<Rightarrow> (Inl e, w1)
      | (_, k, None, w1) \<Rightarrow>
          (case c_Target c of
             TargetOther s \<Rightarrow> (Inl (unsupportedTarget s), w1)
           | _ \<Rightarrow> if \<not> evalCompare c k then (Inr False, w1) else evaluateCompare cs w1))"

definition executeRange :: "RangeRequest \<Rightarrow> world \<Rightarrow> (goerr + ResponseOp \<times> int) \<times> world" where
  "executeRange rr w =
     (case KV_Range rr w of
        (Inl e, w1) \<Rightarrow> (Inl e, w1)
      | (Inr resp, w1) \<Rightarrow>
          (let rEnd = rr_RangeEnd rr;
               resp1 =
                 (if rEnd \<noteq> [] \<and> rEnd \<noteq> zero_byte \<and> \<not> rr_CountOnly rr then
                    (let filtered = filter (\<lambda>k. pk_Key k < rEnd) (rs_Kvs resp)
                     in resp\<lparr>rs_Kvs := filtered, rs_Count := int (length filtered)\<rparr>)
                  else resp)
           in (Inr (ResponseRange resp1, h_Revision (rs_Header resp1)), w1)))"

definition executePut :: "PutRequest \<Rightarrow> world \<Rightarrow> (goerr + ResponseOp \<times> int) \<times> world" where
  "executePut pr w =
     (if pr_IgnoreValue pr \<or> pr_IgnoreLease pr then
        (case Store_Get (pr_Key pr) 0 w of
           (_, _, Some e, w1) \<Rightarrow> (Inl e, w1)
         | (_, None, None, w1) \<Rightarrow> (Inl (Status NotFound ''key not found''), w1)
         | (_, Some cur, None, w1) \<Rightarrow>
             (let val = (if pr_IgnoreValue pr then Value cur else pr_Value pr);
                  leaseID = (if pr_IgnoreLease pr then LeaseID cur else pr_Lease pr)
              in (case Store_Update (pr_Key pr) val (Rev cur) leaseID w1 of
                    (_, _, _, Some e, w2) \<Rightarrow> (Inl (toGRPCErr e), w2)
                  | (newRev, prev, ok, None, w2) \<Rightarrow>
                      (if \<not> ok then
                         (Inl (Status FailedPrecondition
                            ''revision mismatch: concurrent update during IgnoreValue/IgnoreLease''), w2)
                       else
                         (Inr (ResponsePut \<lparr>ps_Header = header newRev,
                                 ps_PrevKv = (if pr_PrevKv pr then map_option toProtoKV prev else None)\<rparr>,
                               newRev), w2)))))
      else
        (case KV_Put pr w of
           (Inl e, w1) \<Rightarrow> (Inl e, w1)
         | (Inr resp, w1) \<Rightarrow> (Inr (ResponsePut resp, h_Revision (ps_Header resp)), w1)))"

fun deleteBelow :: "bool \<Rightarrow> string \<Rightarrow> string list \<Rightarrow> int \<times> KeyValue list \<times> int \<Rightarrow> world
    \<Rightarrow> (goerr + int \<times> KeyValue list \<times> int) \<times> world" where
  "deleteBelow prevKv rangeEnd [] acc w = (Inr acc, w)"
| "deleteBelow prevKv rangeEnd (k # ks) (deleted, prevKvs, rv) w =
     (if rangeEnd \<noteq> zero_byte \<and> rangeEnd \<noteq> [] \<and> k \<ge> rangeEnd then (Inr (deleted, prevKvs, rv), w)
      else
        (case Store_Delete k 0 w of
           (_, _, _, Some e, w1) \<Rightarrow> (Inl (toGRPCErr e), w1)
         | (r, prev, ok, None, w1) \<Rightarrow>
             (if ok then
                deleteBelow prevKv rangeEnd ks
                  (deleted + 1, prevKvs @ opt_list prevKv (map_option toProtoKV prev), r) w1
              else deleteBelow prevKv rangeEnd ks (deleted, prevKvs, rv) w1)))"

definition executeDelete :: "DeleteRangeRequest \<Rightarrow> world \<Rightarrow> (goerr + ResponseOp \<times> int) \<times> world" where
  "executeDelete dr w =
     (if length (dr_RangeEnd dr) > 0 then
        (case Store_List (rangeToPrefix (dr_Key dr) (dr_RangeEnd dr)) (dr_Key dr) 0 0 w of
           (_, _, _, Some e, w1) \<Rightarrow> (Inl (toGRPCErr e), w1)
         | (_, _, kvs, None, w1) \<Rightarrow>
             (case deleteBelow (dr_PrevKv dr) (dr_RangeEnd dr) (map Key kvs) (0, [], 0) w1 of
                (Inl e, w2) \<Rightarrow> (Inl e, w2)
              | (Inr (deleted, prevKvs, rv), w2) \<Rightarrow>
                  (let (rv1, err, w3) =
                     (if rv = 0 then Store_CurrentRevision w2 else (rv, None, w2))
                   in (case err of
                         Some e \<Rightarrow> (Inl (toGRPCErr e), w3)
                       | None \<Rightarrow>
                           (Inr (ResponseDeleteRange \<lparr>ds_Header = header rv1, ds_Deleted = deleted,
                                   ds_PrevKvs = prevKvs\<rparr>, rv1), w3)))))
      else
        (case KV_DeleteRange dr w of
           (Inl e, w1) \<Rightarrow> (Inl e, w1)
         | (Inr resp, w1) \<Rightarrow> (Inr (ResponseDeleteRange resp, h_Revision (ds_Header resp)), w1)))"

fun executeOp :: "RequestOp \<Rightarrow> world \<Rightarrow> (goerr + ResponseOp \<times> int) \<times> world" where
  "executeOp (RequestRange rr) w = executeRange rr w"
| "executeOp (RequestPut pr) w = executePut pr w"
| "executeOp (RequestDeleteRange dr) w = executeDelete dr w"
| "executeOp RequestOther w =
     (Inl (Status InvalidArgument ''unsupported Txn op type in non-atomic path''), w)"

fun executeLoop :: "RequestOp list \<Rightarrow> ResponseOp list \<Rightarrow> int \<Rightarrow> world
    \<Rightarrow> (goerr + ResponseOp list \<times> int) \<times> world" where
  "executeLoop [] responses lastRev w = (Inr (responses, lastRev), w)"
| "executeLoop (op # ops) responses lastRev w =
     (case executeOp op w of
        (Inl e, w1) \<Rightarrow> (Inl e, w1)
      | (Inr (resp, rv), w1) \<Rightarrow> executeLoop ops (responses @ [resp]) rv w1)"

definition executeOps :: "RequestOp list \<Rightarrow> world \<Rightarrow> (goerr + ResponseOp list \<times> int) \<times> world" where
  "executeOps ops w =
     (case executeLoop ops [] 0 w of
        (Inl e, w1) \<Rightarrow> (Inl e, w1)
      | (Inr (responses, lastRev), w1) \<Rightarrow>
          (if lastRev = 0 then
             (case Store_CurrentRevision w1 of
                (_, Some e, w2) \<Rightarrow> (Inl e, w2)
              | (rv, None, w2) \<Rightarrow> (Inr (responses, rv), w2))
           else (Inr (responses, lastRev), w1)))"

definition txnNonAtomic :: "TxnRequest \<Rightarrow> world \<Rightarrow> (goerr + TxnResponse) \<times> world" where
  "txnNonAtomic r w =
     (case dupRequestOps [] (tr_Success r) of
        Some key \<Rightarrow> (Inl (dupStatus key), w)
      | None \<Rightarrow>
          (case dupRequestOps [] (tr_Failure r) of
             Some key \<Rightarrow> (Inl (dupStatus key), w)
           | None \<Rightarrow>
               (case evaluateCompare (tr_Compare r) w of
                  (Inl e, w1) \<Rightarrow> (Inl (passStatus e), w1)
                | (Inr succeeded, w1) \<Rightarrow>
                    (case executeOps (if succeeded then tr_Success r else tr_Failure r) w1 of
                       (Inl e, w2) \<Rightarrow> (Inl (passStatus e), w2)
                     | (Inr (responses, rv), w2) \<Rightarrow>
                         (Inr \<lparr>ts_Header = header rv, ts_Succeeded = succeeded,
                            ts_Responses = responses\<rparr>, w2)))))"

definition KV_Txn :: "TxnRequest \<Rightarrow> world \<Rightarrow> (goerr + TxnResponse) \<times> world" where
  "KV_Txn r w = (if \<not> txnNeedsNonAtomicFallback r then txnAtomic r w else txnNonAtomic r w)"

text \<open>The revision of the deletion that goes on in the background is passed through.\<close>

definition KV_Compact :: "int \<Rightarrow> world \<Rightarrow> (goerr + ResponseHeader) \<times> int option \<times> world" where
  "KV_Compact revision w =
     (case Store_Compact revision w of
        (_, Some e, job, w1) \<Rightarrow> (Inl (toGRPCErr e), job, w1)
      | (rv, None, job, w1) \<Rightarrow> (Inr (header rv), job, w1))"

end
