(* ===== verification/KV_Correct.thy ===== *)
theory KV_Correct
  imports KVServer
begin

text \<open>
  The KV service against the abstract store: the atomic transaction path and the idioms
  Kubernetes builds on it, single-key and prefix ranges on both paths, \<open>Put\<close> and
  \<open>DeleteRange\<close>.
\<close>

section \<open>Requests and store operations\<close>

definition store_op :: "RequestOp \<Rightarrow> TxnOp" where
  "store_op op =
     (case op of
        RequestRange rr \<Rightarrow>
          \<lparr>op_Type = TxnOpGet, op_Key = rr_Key rr, op_Value = None, op_LeaseID = 0\<rparr>
      | RequestPut pr \<Rightarrow>
          \<lparr>op_Type = TxnOpPut, op_Key = pr_Key pr, op_Value = pr_Value pr, op_LeaseID = pr_Lease pr\<rparr>
      | RequestDeleteRange dr \<Rightarrow>
          \<lparr>op_Type = TxnOpDelete, op_Key = dr_Key dr, op_Value = None, op_LeaseID = 0\<rparr>
      | RequestOther \<Rightarrow> \<lparr>op_Type = TxnOpOther 0, op_Key = [], op_Value = None, op_LeaseID = 0\<rparr>)"

lemma toStoreOps_eq: "RequestOther \<notin> set ops \<Longrightarrow> toStoreOps ops = Inr (map store_op ops)"
  by (induction ops) (auto simp: store_op_def split: RequestOp.splits)

lemma known_store_ops: "RequestOther \<notin> set ops \<Longrightarrow> known_ops (map store_op ops)"
  by (auto simp: known_ops_def store_op_def split: RequestOp.splits)

definition supported :: "Compare \<Rightarrow> bool" where
  "supported c \<longleftrightarrow> (case c_Target c of TargetOther s \<Rightarrow> False | _ \<Rightarrow> True)"

lemma validate_supported:
  "\<forall>c \<in> set cs. supported c \<Longrightarrow> validateCompares (map toTxnCompare cs) = None"
  by (induction cs) (auto simp: toTxnCompare_def supported_def split: CompareTarget.splits)

definition compares_true :: "Compare list \<Rightarrow> database \<Rightarrow> bool" where
  "compares_true cs db \<longleftrightarrow> (\<forall>c \<in> set cs. evalCompare c (current db (c_Key c)))"

lemma compares_hold_eq:
  "\<forall>c \<in> set cs. supported c \<Longrightarrow> compares_hold (map toTxnCompare cs) db = compares_true cs db"
  by (induction cs)
     (auto simp: compares_hold_def compares_true_def toTxnCompare_def supported_def
       split: CompareTarget.splits)

text \<open>What each operation answers, from the state before the transaction.\<close>

definition response_to :: "database \<Rightarrow> int \<Rightarrow> RequestOp \<Rightarrow> ResponseOp list" where
  "response_to db rv op =
     (case op of
        RequestRange rr \<Rightarrow>
          [ResponseRange \<lparr>rs_Header = header rv,
             rs_Kvs = opt_list True (map_option toProtoKV (current db (rr_Key rr))),
             rs_Count = (if current db (rr_Key rr) = None then 0 else 1)\<rparr>]
      | RequestPut pr \<Rightarrow>
          [ResponsePut \<lparr>ps_Header = header rv,
             ps_PrevKv = (if pr_PrevKv pr then map_option toProtoKV (current db (pr_Key pr)) else None)\<rparr>]
      | RequestDeleteRange dr \<Rightarrow>
          [ResponseDeleteRange \<lparr>ds_Header = header rv,
             ds_Deleted = (if current db (dr_Key dr) = None then 0 else 1),
             ds_PrevKvs = opt_list (dr_PrevKv dr) (map_option toProtoKV (current db (dr_Key dr)))\<rparr>]
      | RequestOther \<Rightarrow> [])"

lemma responseOps_eq:
  "responseOps rv ops (map (op_result db) (map store_op ops)) = concat (map (response_to db rv) ops)"
  by (induction ops)
     (simp_all add: Let_def response_to_def op_result_def store_op_def boolToInt_def
       split: RequestOp.split)

section \<open>Transactions\<close>

definition plain_txn :: "TxnRequest \<Rightarrow> bool" where
  "plain_txn r \<longleftrightarrow> \<not> txnNeedsNonAtomicFallback r \<and>
     RequestOther \<notin> set (tr_Success r) \<and> RequestOther \<notin> set (tr_Failure r) \<and>
     (\<forall>c \<in> set (tr_Compare r). supported c) \<and>
     distinct (mutated_keys (map store_op (tr_Success r))) \<and>
     distinct (mutated_keys (map store_op (tr_Failure r)))"

definition request_keys :: "TxnRequest \<Rightarrow> string set" where
  "request_keys r = txn_keys (map store_op (tr_Success r)) (map store_op (tr_Failure r))"

lemma Txn_step:
  assumes "plain_txn r" "committed (request_keys r) w" "\<And>q. ce_err (this_call w) q = None"
    and "ops = (if compares_true (tr_Compare r) (at_call w) then tr_Success r else tr_Failure r)"
  shows "\<exists>rv w'. KV_Txn r w =
      (Inr \<lparr>ts_Header = header rv, ts_Succeeded = compares_true (tr_Compare r) (at_call w),
            ts_Responses = concat (map (response_to (at_call w) rv) ops)\<rparr>, w') \<and>
    wf_db (w_db w') \<and>
    abs_store (w_db w') = a_txn (ce_ts (this_call w)) (map store_op ops) (abs_store (at_call w)) \<and>
    rv = (if concat (map (op_mutations (at_call w)) (map store_op ops)) = []
          then current_rev (at_call w) else ce_ts (this_call w)) \<and> next_world w w'"
proof -
  let ?cs = "map toTxnCompare (tr_Compare r)"
  let ?s = "map store_op (tr_Success r)" and ?f = "map store_op (tr_Failure r)"
  let ?ok = "compares_true (tr_Compare r) (at_call w)"
  note p = assms(1) [unfolded plain_txn_def] and c = committedD [OF assms(2)]
  have hold: "compares_hold ?cs (at_call w) = ?ok" using p compares_hold_eq by blast
  have ops: "map store_op ops = (if compares_hold ?cs (at_call w) then ?s else ?f)"
    using assms(4) hold by simp
  have kn: "known_ops (map store_op ops)" "distinct (mutated_keys (map store_op ops))"
    using p known_store_ops assms(4) by auto
  have "validateCompares ?cs = None" using p validate_supported by blast
  from AtomicTxn_step [OF c(1) c(2) [unfolded request_keys_def] c(3) assms(3) this ops kn]
  obtain rv w' where at: "Store_AtomicTxn ?cs ?s ?f w =
      (?ok, map (op_result (at_call w)) (map store_op ops), rv, None, w')"
    and w': "wf_db (w_db w')"
      "abs_store (w_db w') = a_txn (ce_ts (this_call w)) (map store_op ops) (abs_store (at_call w))"
      "rv = (if concat (map (op_mutations (at_call w)) (map store_op ops)) = []
          then current_rev (at_call w) else ce_ts (this_call w))"
      "next_world w w'"
    unfolding hold by (auto split: prod.splits)
  have "rv \<noteq> 0"
    using w'(3) current_rev_ge(2) [OF c(1)] fresh_envD(1) [OF c(2)] by auto
  moreover have "dupMutation [] ?s = None" "dupMutation [] ?f = None"
    using p by (simp_all add: dupMutation_None)
  ultimately have "KV_Txn r w =
      (Inr \<lparr>ts_Header = header rv, ts_Succeeded = ?ok,
            ts_Responses = responseOps rv (if ?ok then tr_Success r else tr_Failure r)
              (map (op_result (at_call w)) (map store_op ops))\<rparr>, w')"
    using p at by (simp add: KV_Txn_def txnAtomic_def toStoreOps_eq)
  then show ?thesis using w' responseOps_eq [of rv ops "at_call w"] assms(4) by simp
qed

text \<open>The compare-and-put and compare-and-delete that the Kubernetes storage layer sends.\<close>

definition mod_is :: "string \<Rightarrow> int \<Rightarrow> Compare" where
  "mod_is key rv = \<lparr>c_Key = key, c_Target = MOD, c_Result = EQUAL, c_Union = TU_ModRevision rv\<rparr>"

definition get_op :: "string \<Rightarrow> RequestOp" where
  "get_op key = RequestRange \<lparr>rr_Key = key, rr_RangeEnd = [], rr_Limit = 0, rr_Revision = 0,
     rr_KeysOnly = False, rr_CountOnly = False\<rparr>"

definition put_op :: "string \<Rightarrow> bytes \<Rightarrow> int \<Rightarrow> RequestOp" where
  "put_op key val lease = RequestPut \<lparr>pr_Key = key, pr_Value = val, pr_Lease = lease,
     pr_PrevKv = False, pr_IgnoreValue = False, pr_IgnoreLease = False\<rparr>"

definition delete_op :: "string \<Rightarrow> RequestOp" where
  "delete_op key = RequestDeleteRange \<lparr>dr_Key = key, dr_RangeEnd = [], dr_PrevKv = False\<rparr>"

definition guarded :: "string \<Rightarrow> int \<Rightarrow> RequestOp \<Rightarrow> TxnRequest" where
  "guarded key rv op =
     \<lparr>tr_Compare = [mod_is key rv], tr_Success = [op], tr_Failure = [get_op key]\<rparr>"

definition mod_rev :: "astore \<Rightarrow> string \<Rightarrow> int" where
  "mod_rev m key = (case m key of None \<Rightarrow> 0 | Some a \<Rightarrow> a_mod a)"

lemma guarded_plain:
  assumes "op = put_op key val lease \<or> op = delete_op key"
  shows "plain_txn (guarded key rv op)" "request_keys (guarded key rv op) = {key}"
  using assms
  by (auto simp: plain_txn_def guarded_def txnNeedsNonAtomicFallback_def put_op_def delete_op_def
      get_op_def mod_is_def supported_def mutated_keys_def mutates_def store_op_def
      request_keys_def txn_keys_def)

lemma guarded_compare:
  "compares_true [mod_is key rv] db \<longleftrightarrow> mod_rev (abs_store db) key = rv"
  by (auto simp: compares_true_def mod_is_def evalCompare_def mod_rev_def abs_store_def entry_of_def
      split: option.split)

lemma guarded_step:
  assumes "op = put_op key val lease \<or> op = delete_op key"
    and "committed {key} w" "\<And>q. ce_err (this_call w) q = None"
  shows "case KV_Txn (guarded key rv op) w of
      (Inl e, w') \<Rightarrow> False
    | (Inr resp, w') \<Rightarrow> wf_db (w_db w') \<and> next_world w w' \<and>
    (ts_Succeeded resp \<longleftrightarrow> mod_rev (abs_store (at_call w)) key = rv) \<and>
    abs_store (w_db w') =
      (if ts_Succeeded resp then a_op (ce_ts (this_call w)) (store_op op) (abs_store (at_call w))
       else abs_store (at_call w))"
proof -
  let ?r = "guarded key rv op"
  have cmp: "compares_true (tr_Compare ?r) (at_call w) \<longleftrightarrow> mod_rev (abs_store (at_call w)) key = rv"
    using guarded_compare by (simp add: guarded_def)
  have br: "tr_Success ?r = [op]" "tr_Failure ?r = [get_op key]" by (simp_all add: guarded_def)
  have "a_op ts (store_op (get_op key)) m = m" for ts m by (simp add: a_op_def store_op_def get_op_def)
  with Txn_step [OF guarded_plain(1) [OF assms(1)] _ assms(3) refl, of rv] guarded_plain(2) [OF assms(1)]
    assms(2) show ?thesis unfolding cmp br
    by (cases "mod_rev (abs_store (at_call w)) key = rv") (auto simp: a_txn_def)
qed

section \<open>Ranges\<close>

text \<open>The end of the range of a prefix: its last byte incremented.\<close>

definition prefix_end :: "string \<Rightarrow> string" where
  "prefix_end key = butlast key @ [char_of ((of_char (last key) :: nat) + 1)]"

definition prefix_key :: "string \<Rightarrow> bool" where
  "prefix_key key \<longleftrightarrow> key \<noteq> [] \<and> (of_char (last key) :: nat) < 255"

lemma list_le_append [simp]: "(p @ xs \<le> p @ ys) = (xs \<le> (ys :: 'a::linorder list))"
  by (induction p) auto

lemma list_less_append [simp]: "(p @ xs < p @ ys) = (xs < (ys :: 'a::linorder list))"
  by (induction p) auto

lemma prefix_interval:
  assumes "prefix_key key" "HasPrefix k (butlast key)"
  shows "key \<le> k \<and> k < prefix_end key \<longleftrightarrow> HasPrefix k key"
proof -
  let ?p = "butlast key" and ?c = "last key"
  let ?d = "char_of ((of_char ?c :: nat) + 1) :: char"
  have key: "key = ?p @ [?c]" using assms(1) by (simp add: prefix_key_def)
  obtain s where s: "k = ?p @ s" using assms(2) by (auto simp: HasPrefix_iff prefix_def)
  have d: "(of_char ?d :: nat) = of_char ?c + 1" using assms(1) by (simp add: prefix_key_def)
  have "HasPrefix k key \<longleftrightarrow> prefix [?c] s"
    using s key by (metis HasPrefix_iff same_prefix_prefix)
  moreover have "key \<le> k \<longleftrightarrow> [?c] \<le> s" "k < prefix_end key \<longleftrightarrow> s < [?d]"
    using s key unfolding prefix_end_def by (metis list_le_append, metis list_less_append)
  moreover have "[?c] \<le> s \<and> s < [?d] \<longleftrightarrow> prefix [?c] s"
    using d by (cases s) (auto simp: less_char_def less_eq_char_def)
  ultimately show ?thesis by blast
qed

lemma HasPrefix_butlast: "HasPrefix k key \<Longrightarrow> HasPrefix k (butlast key)"
  by (metis HasPrefix_iff prefix_order.trans prefixeq_butlast)

lemma prefix_end_nonzero:
  assumes "prefix_key key"
  shows "prefix_end key \<noteq> []" "prefix_end key \<noteq> zero_byte"
proof -
  have "(of_char (last (prefix_end key)) :: nat) = of_char (last key) + 1"
    using assms by (simp add: prefix_end_def prefix_key_def)
  then show "prefix_end key \<noteq> zero_byte" by (auto simp: zero_byte_def)
qed (simp add: prefix_end_def)

lemma rangeToPrefix_prefix:
  assumes "prefix_key key"
  shows "rangeToPrefix key (prefix_end key) = butlast key"
proof -
  have "HasPrefix (prefix_end key) (butlast key)" by (simp add: prefix_end_def HasPrefix_iff)
  then show ?thesis using assms prefix_end_nonzero [OF assms]
    by (simp add: rangeToPrefix_def prefix_key_def)
qed

text \<open>Three strong reads in a row that answer, with nothing compacted away in between.\<close>

definition readable :: "world \<Rightarrow> bool" where
  "readable w \<longleftrightarrow>
     wf_db (at_call w) \<and> wf_db (at_call (served w)) \<and> wf_db (at_call (served (served w))) \<and>
     grows (at_call w) (at_call (served w)) \<and> grows (at_call w) (at_call (served (served w))) \<and>
     (\<forall>q. ce_err (this_call w) q = None \<and> ce_err (this_call (served w)) q = None \<and>
        ce_err (this_call (served (served w))) q = None)"

lemma readableD:
  assumes "readable w"
  shows "wf_db (at_call w)" "wf_db (at_call (served w))" "wf_db (at_call (served (served w)))"
    "grows (at_call w) (at_call (served w))" "grows (at_call w) (at_call (served (served w)))"
    "ce_err (this_call w) q = None" "ce_err (this_call (served w)) q = None"
    "ce_err (this_call (served (served w))) q = None"
  using assms by (simp_all add: readable_def)

lemma readable_demo: "readable (demo_world demo_db)"
  by (simp add: readable_def wf_demo grows_refl)

lemma filter_sorted_list_of_set:
  assumes "finite A"
  shows "filter P (sorted_list_of_set A) = sorted_list_of_set {x \<in> A. P x}"
  using assms by (intro sorted_distinct_set_unique) (auto intro: sorted_wrt_filter)

definition keys_from :: "database \<Rightarrow> string \<Rightarrow> string \<Rightarrow> string set" where
  "keys_from db p key = {k \<in> dom (abs_store db). like (likePrefix p) k \<and> key \<le> k}"

definition proto_matches :: "database \<Rightarrow> KeyValue \<Rightarrow> bool" where
  "proto_matches db pk \<longleftrightarrow> abs_store db (pk_Key pk) =
     Some \<lparr>a_value = pk_Value pk, a_lease = pk_Lease pk, a_mod = pk_ModRevision pk,
       a_create = pk_CreateRevision pk\<rparr>"

lemma Range_list:
  assumes "readable w" "rr_RangeEnd r \<noteq> []" "\<not> rr_CountOnly r" "rr_Revision r = 0"
  shows "\<exists>kvs. KV_Range r w =
      (Inr \<lparr>rs_Header = header (current_rev (at_call w)), rs_Kvs = kvs, rs_Count = int (length kvs)\<rparr>,
       served (served (served w))) \<and>
    map pk_Key kvs = limitClause (rr_Limit r)
      (sorted_list_of_set (keys_from (at_call w) (rangeToPrefix (rr_Key r) (rr_RangeEnd r)) (rr_Key r))) \<and>
    (\<not> rr_KeysOnly r \<longrightarrow> (\<forall>k \<in> set kvs. proto_matches (at_call w) k))"
proof -
  note d = readableD [OF assms(1)]
  obtain kvs where kvs: "Store_List (rangeToPrefix (rr_Key r) (rr_RangeEnd r)) (rr_Key r) (rr_Limit r) 0 w =
      (current_rev (at_call w), compact_rev (at_call (served w)), kvs, None, served (served (served w)))"
    "map Key kvs = limitClause (rr_Limit r)
      (sorted_list_of_set (keys_from (at_call w) (rangeToPrefix (rr_Key r) (rr_RangeEnd r)) (rr_Key r)))"
    "\<forall>k \<in> set kvs. abs_store (at_call w) (Key k) = Some (entry_of k)"
    using List_current [OF d(1-3,5,6,7,8), of "rangeToPrefix (rr_Key r) (rr_RangeEnd r)" "rr_Key r"
        "rr_Limit r"] unfolding keys_from_def by blast
  show ?thesis
  proof (cases "rr_KeysOnly r")
    case True
    then show ?thesis using kvs(1,2) assms(2-4) by (simp add: KV_Range_def Let_def comp_def)
  next
    case False
    then show ?thesis using kvs assms(2-4)
      by (simp add: KV_Range_def Let_def comp_def toProtoKV_def proto_matches_def entry_of_def)
  qed
qed

lemma keys_from_literal:
  "like_literal p \<Longrightarrow> keys_from db p key = {k \<in> dom (abs_store db). HasPrefix k p \<and> key \<le> k}"
  by (simp add: keys_from_def likePrefix_literal)

lemma finite_keys_from: "finite (keys_from db p key)"
  by (rule finite_subset [OF _ finite_dom_abs [of db]]) (auto simp: keys_from_def)

lemma keys_below_end:
  assumes "prefix_key key" "like_literal (butlast key)"
  shows "{k \<in> keys_from db (butlast key) key. k < prefix_end key} =
    {k \<in> dom (abs_store db). HasPrefix k key}"
  using prefix_interval [OF assms(1)] HasPrefix_butlast [of _ key]
  by (auto simp: keys_from_literal [OF assms(2)])

lemma executeRange_keys:
  assumes "readable w" "prefix_key key" "like_literal (butlast key)"
    and "rr_Key r = key" "rr_RangeEnd r = prefix_end key" "rr_Limit r \<le> 0" "rr_Revision r = 0"
    and "\<not> rr_CountOnly r"
  shows "\<exists>kvs w'. executeRange r w =
      (Inr (ResponseRange \<lparr>rs_Header = header (current_rev (at_call w)), rs_Kvs = kvs,
         rs_Count = int (length kvs)\<rparr>, current_rev (at_call w)), w') \<and>
    map pk_Key kvs = sorted_list_of_set {k \<in> dom (abs_store (at_call w)). HasPrefix k key} \<and>
    (\<not> rr_KeysOnly r \<longrightarrow> (\<forall>k \<in> set kvs. proto_matches (at_call w) k))"
proof -
  note nz = prefix_end_nonzero [OF assms(2)]
  obtain kvs where kvs: "KV_Range r w =
      (Inr \<lparr>rs_Header = header (current_rev (at_call w)), rs_Kvs = kvs, rs_Count = int (length kvs)\<rparr>,
       served (served (served w)))"
    "map pk_Key kvs = sorted_list_of_set (keys_from (at_call w) (butlast key) key)"
    "\<not> rr_KeysOnly r \<longrightarrow> (\<forall>k \<in> set kvs. proto_matches (at_call w) k)"
    using Range_list [OF assms(1) _ assms(8,7)] assms(4-6) nz(1)
      rangeToPrefix_prefix [OF assms(2)] by (auto simp: limitClause_def)
  let ?f = "filter (\<lambda>k. pk_Key k < prefix_end key) kvs"
  have "map pk_Key ?f = filter (\<lambda>k. k < prefix_end key) (map pk_Key kvs)"
    by (simp add: filter_map comp_def)
  then have "map pk_Key ?f = sorted_list_of_set {k \<in> dom (abs_store (at_call w)). HasPrefix k key}"
    using kvs(2) filter_sorted_list_of_set [OF finite_keys_from] keys_below_end [OF assms(2,3)]
    by simp
  then show ?thesis using kvs(1,3) nz assms(5,8)
    by (intro exI [of _ ?f] exI [of _ "served (served (served w))"])
       (simp add: executeRange_def Let_def header_def)
qed

section \<open>Range deletes\<close>

lemma current_of_dom: "k \<in> dom (abs_store db) \<Longrightarrow> \<exists>p. current db k = Some p"
  by (auto simp: abs_store_def)

lemma deleteEach_steady:
  assumes "steady (length ks) w" "distinct ks" "set ks \<subseteq> dom (abs_store (w_db w))"
  shows "\<exists>prevs rv w'. deleteEach pk ks (d, ps, l) w = ((d + int (length ks), ps @ prevs, rv), w') \<and>
    w_env w' = w_env w \<and> w_pos w' = w_pos w + length ks \<and>
    abs_store (w_db w') = abs_store (w_db w) |` (- set ks)"
  using assms
proof (induction ks arbitrary: d ps l w)
  case Nil
  then show ?case by auto
next
  case (Cons k ks)
  from Cons.prems(3) obtain p where p: "current (w_db w) k = Some p"
    using current_of_dom by fastforce
  from Cons.prems(1) have st: "steady (Suc (length ks)) w" by simp
  from Delete_steady [OF st p] obtain r where
    r: "Store_Delete k 0 w = (ce_ts (this_call w), Some p, True, None, after_write r w)"
      "steady (length ks) (after_write r w)"
      "abs_store (w_db (after_write r w)) = (abs_store (w_db w))(k := None)"
    by blast
  have "set ks \<subseteq> dom (abs_store (w_db (after_write r w)))"
    using Cons.prems(2,3) r(3) by auto
  from Cons.IH [OF r(2) _ this, of "d + 1" "ps @ opt_list pk (map_option toProtoKV (Some p))"
      "ce_ts (this_call w)"] Cons.prems(2)
  obtain prevs rv w' where ih: "deleteEach pk ks (d + 1, ps @ opt_list pk (map_option toProtoKV (Some p)),
        ce_ts (this_call w)) (after_write r w) =
      ((d + 1 + int (length ks), (ps @ opt_list pk (map_option toProtoKV (Some p))) @ prevs, rv), w')"
    "w_env w' = w_env (after_write r w)" "w_pos w' = w_pos (after_write r w) + length ks"
    "abs_store (w_db w') = abs_store (w_db (after_write r w)) |` (- set ks)"
    unfolding distinct.simps by blast
  have "abs_store (w_db w') = abs_store (w_db w) |` (- set (k # ks))"
    unfolding ih(4) r(3) by (auto simp: restrict_map_def fun_eq_iff)
  then show ?case using r(1) ih(1-3) by (simp add: algebra_simps)
qed

lemma sorted_keys_from:
  "distinct (sorted_list_of_set (keys_from db p key))" "set (sorted_list_of_set (keys_from db p key)) = keys_from db p key"
  using finite_keys_from [of db p key] by auto

lemma DeleteRange_steady:
  assumes "steady (card (keys_from (w_db w) p key) + 4) w"
    and "dr_Key r = key" "dr_RangeEnd r \<noteq> []" "p = rangeToPrefix key (dr_RangeEnd r)"
  shows "\<exists>resp w'. KV_DeleteRange r w = (Inr resp, w') \<and>
    ds_Deleted resp = int (card (keys_from (w_db w) p key)) \<and>
    abs_store (w_db w') = abs_store (w_db w) |` (- keys_from (w_db w) p key)"
proof -
  let ?K = "keys_from (w_db w) p key" and ?w3 = "served (served (served w))"
  let ?ks = "sorted_list_of_set ?K"
  have st: "steady (Suc (Suc (Suc (Suc (card ?K))))) w"
    using assms(1) by (simp add: eval_nat_numeral)
  then obtain kvs where kvs: "Store_List p key 0 0 w =
      (current_rev (w_db w), compact_rev (w_db w), kvs, None, ?w3)" "map Key kvs = ?ks"
    using List_steady [OF st, of p key 0] by (auto simp: keys_from_def limitClause_def)
  have len: "length ?ks = card ?K" by simp
  have st3: "steady (Suc (card ?K)) ?w3" by (intro steady_served st)
  have w3: "w_db ?w3 = w_db w"
    using steadyD(1) [OF st] steadyD(1) [OF steady_served [OF st]]
      steadyD(1) [OF steady_served [OF steady_served [OF st]]] by simp
  have st3': "steady (length ?ks) ?w3" using steady_mono [OF st3, of "length ?ks"] len by simp
  have "set ?ks \<subseteq> dom (abs_store (w_db ?w3))"
    unfolding sorted_keys_from w3 by (auto simp: keys_from_def)
  from deleteEach_steady [OF st3' sorted_keys_from(1) this, of "dr_PrevKv r" 0 "[]" 0]
  obtain prevs rv w' where del: "deleteEach (dr_PrevKv r) ?ks (0, [], 0) ?w3 =
      ((int (card ?K), prevs, rv), w')"
    "abs_store (w_db w') = abs_store (w_db w) |` (- ?K)" "w_env w' = w_env ?w3"
    "w_pos w' = w_pos ?w3 + card ?K"
    unfolding len sorted_keys_from w3 by auto
  obtain c e where cur: "Store_CurrentRevision w' = (c, e, served w')" by (rule CurrentRevision_shape)
  have "at_call w' = w_db w'"
    using st3 del(3,4) by (auto simp: steady_def lone_def lone_call_def at_call_def this_call_def)
  then have "w_db (served w') = w_db w'" by simp
  then show ?thesis
    using kvs del assms(2-4) cur by (cases "rv = 0") (simp_all add: KV_DeleteRange_def Let_def)
qed

section \<open>Put\<close>

lemma Put_row:
  assumes "steady (Suc (Suc (Suc (Suc N)))) w"
  shows "\<exists>resp r w0. KV_Put req w = (Inr resp, after_write r w0) \<and> w_db w0 = w_db w \<and> at_call w0 = w_db w \<and>
    w_notifyCh w0 = w_notifyCh w \<and> committed UNIV w0 \<and> written r (pr_Key req) (pr_Value req) w0 \<and>
    h_Revision (ps_Header resp) = r_rev r \<and> steady N (after_write r w0) \<and>
    abs_store (w_db (after_write r w0)) = a_put (pr_Key req) (pr_Value req) (pr_Lease req) (r_rev r) (abs_store (w_db w))"
proof (cases "current (w_db w) (pr_Key req)")
  case None
  from Create_steady [OF assms this, of "pr_Value req" "pr_Lease req"] obtain r where
    r: "Store_Create (pr_Key req) (pr_Value req) (pr_Lease req) w = (ce_ts (this_call w), None, after_write r w)"
      "steady (Suc (Suc (Suc N))) (after_write r w)" "written r (pr_Key req) (pr_Value req) w"
      "abs_store (w_db (after_write r w)) = a_put (pr_Key req) (pr_Value req) (pr_Lease req) (ce_ts (this_call w)) (abs_store (w_db w))"
    by blast
  have "steady N (after_write r w)" by (rule steady_mono [OF r(2)]) simp
  moreover have "KV_Put req w = (Inr \<lparr>ps_Header = header (ce_ts (this_call w)), ps_PrevKv = None\<rparr>, after_write r w)"
    using r(1) by (simp add: KV_Put_def Let_def)
  ultimately show ?thesis
    using steadyD(1,3) [OF assms] r(3,4) by (intro exI conjI) (auto simp: written_def header_def)
next
  case (Some p)
  note s = steadyD [OF assms]
  let ?w0 = "served (served (served w))"
  have cr: "Store_Create (pr_Key req) (pr_Value req) (pr_Lease req) w = (0, Some ErrKeyExists, served w)"
    using Create_exists [of w "pr_Key req" p] s(1,2) Some by simp
  have st1: "steady (Suc (Suc (Suc N))) (served w)" by (rule steady_served [OF assms])
  note g = Get_steady [OF st1, of "pr_Key req"]
  have db1: "w_db (served w) = w_db w" "w_db ?w0 = w_db w"
    using s(1) steadyD(1) [OF st1] steadyD(1) [OF steady_served [OF st1]] by simp_all
  have st0: "steady (Suc N) ?w0" by (rule steady_served2 [OF st1])
  have "current (w_db ?w0) (pr_Key req) = Some p" using Some db1 by simp
  from Update_steady [OF st0 this, of "pr_Value req" "pr_Lease req"] obtain r where
    r: "Store_Update (pr_Key req) (pr_Value req) (Rev p) (pr_Lease req) ?w0 = (ce_ts (this_call ?w0), Some p, True, None, after_write r ?w0)"
      "steady N (after_write r ?w0)" "written r (pr_Key req) (pr_Value req) ?w0"
      "abs_store (w_db (after_write r ?w0)) = a_put (pr_Key req) (pr_Value req) (pr_Lease req) (ce_ts (this_call ?w0)) (abs_store (w_db ?w0))"
    by blast
  have "\<exists>prev. KV_Put req w = (Inr \<lparr>ps_Header = header (ce_ts (this_call ?w0)), ps_PrevKv = prev\<rparr>, after_write r ?w0)"
    using cr g r(1) Some db1 by (simp add: KV_Put_def Let_def)
  then show ?thesis
    using steadyD(1,3) [OF st0] db1(2) r(2-4) by (elim exE, intro exI conjI) (auto simp: written_def header_def)
qed

lemma Put_steady:
  assumes "steady 4 w" "key = pr_Key r"
  shows "\<exists>resp w' ts. KV_Put r w = (Inr resp, w') \<and> h_Revision (ps_Header resp) = ts \<and>
    abs_store (w_db w') = a_put key (pr_Value r) (pr_Lease r) ts (abs_store (w_db w))"
  using Put_row [of 0 w r] assms by (auto simp: eval_nat_numeral)

text \<open>The case the code does not report: another client writes between the read and the update.\<close>

lemma Put_raced:
  assumes "ce_err (this_call w) (QKeyExists key) = None" "current (at_call w) key = Some p0"
    and "readable (served w)" "current (at_call (served w)) key = Some p1"
    and "ce_err (this_call (served (served (served w)))) (QLatest key) = None"
    and "current (at_call (served (served (served w)))) key = Some p2" "Rev p2 \<noteq> Rev p1"
    and "pr_Key r = key"
  shows "\<exists>resp. KV_Put r w = (Inr resp, served (served (served (served (served w)))))"
proof -
  note d = readableD [OF assms(3)]
  have "Store_Get key 0 (served w) = (current_rev (at_call (served w)), Some p1, None, served (served (served w)))"
    using Get_current [OF d(1,2,4,6,7), of key] assms(4) by simp
  moreover obtain c where "Store_Update key (pr_Value r) (Rev p1) (pr_Lease r) (served (served (served w))) =
      (c, Some p2, False, None, served (served (served (served (served w)))))"
    using Update_failed [OF assms(5), of "Rev p1" "pr_Value r" "pr_Lease r"] assms(6,7) by auto
  ultimately show ?thesis using Create_exists [OF assms(1,2)] assms(8)
    by (simp add: KV_Put_def Let_def)
qed

section \<open>Properties\<close>

text \<open>
  C2: a \<open>Txn\<close> of single-key operations is one atomic step.  It succeeds exactly when its
  compares hold on the state it was served from; the branch chosen takes effect as a whole at
  the commit timestamp; every operation is answered from the state before; all headers carry
  the same revision.
\<close>

theorem Txn_atomic:
  assumes "plain_txn r" and "committed (request_keys r) w" and "\<And>q. ce_err (this_call w) q = None"
  shows "let ok = compares_true (tr_Compare r) (at_call w);
             ops = (if ok then tr_Success r else tr_Failure r)
    in case KV_Txn r w of
         (Inl e, w') \<Rightarrow> False
       | (Inr resp, w') \<Rightarrow>
           (\<exists>rv. resp = \<lparr>ts_Header = header rv, ts_Succeeded = ok,
                    ts_Responses = concat (map (response_to (at_call w) rv) ops)\<rparr> \<and>
              rv \<in> {current_rev (at_call w), ce_ts (this_call w)}) \<and>
           wf_db (w_db w') \<and>
           abs_store (w_db w') = a_txn (ce_ts (this_call w)) (map store_op ops) (abs_store (at_call w))"
  using Txn_step [OF assms refl] by (auto simp: Let_def)

theorem Txn_atomic_witness:
  "case KV_Txn (guarded ''a'' 30 (put_op ''a'' (Some ''n'') 7)) (demo_world demo_db) of
     (Inl e, w') \<Rightarrow> False
   | (Inr resp, w') \<Rightarrow> abs_store (w_db w') ''a'' =
       Some \<lparr>a_value = Some ''n'', a_lease = 7, a_mod = 100, a_create = 10\<rparr>"
proof -
  let ?r = "guarded ''a'' 30 (put_op ''a'' (Some ''n'') 7)" and ?w = "demo_world demo_db"
  have c: "committed (request_keys ?r) ?w"
    using fresh_demo by (simp add: committed_def wf_demo)
  have "compares_true (tr_Compare ?r) (at_call ?w)"
    using guarded_compare [of "''a''" 30 demo_db] abs_demo by (simp add: guarded_def mod_rev_def)
  moreover have "a_txn 100 (map store_op (tr_Success ?r)) (abs_store demo_db) ''a'' =
      Some \<lparr>a_value = Some ''n'', a_lease = 7, a_mod = 100, a_create = 10\<rparr>"
    by (simp add: a_txn_def guarded_def put_op_def store_op_def a_op_def a_put_def abs_demo)
  ultimately show ?thesis
    using Txn_atomic [OF guarded_plain(1) [OF disjI1 [OF refl]] c]
    by (auto simp: Let_def split: prod.splits sum.splits)
qed

text \<open>
  The optimistic lock Kubernetes relies on.  A put or delete guarded by a mod-revision
  takes effect exactly when that is the key's revision (0 for a key that does not exist), and
  changes nothing otherwise.
\<close>

theorem guarded_write:
  assumes "op = put_op key val lease \<or> op = delete_op key"
    and "committed {key} w" and "\<And>q. ce_err (this_call w) q = None"
  shows "case KV_Txn (guarded key rv op) w of
      (Inl e, w') \<Rightarrow> False
    | (Inr resp, w') \<Rightarrow>
        (ts_Succeeded resp \<longleftrightarrow> mod_rev (abs_store (at_call w)) key = rv) \<and>
        abs_store (w_db w') =
          (if \<not> ts_Succeeded resp then abs_store (at_call w)
           else if op = delete_op key then a_delete key (abs_store (at_call w))
           else a_put key val lease (ce_ts (this_call w)) (abs_store (at_call w)))"
proof -
  have "a_op ts (store_op (put_op key val lease)) m = a_put key val lease ts m"
    "a_op ts (store_op (delete_op key)) m = a_delete key m" for ts m
    by (simp_all add: a_op_def store_op_def put_op_def delete_op_def)
  moreover have "put_op key val lease \<noteq> delete_op key" by (simp add: put_op_def delete_op_def)
  ultimately show ?thesis using guarded_step [OF assms, of rv] assms(1)
    by (auto split: prod.splits sum.splits)
qed

theorem guarded_write_witness:
  "case KV_Txn (guarded ''b'' 0 (put_op ''b'' (Some ''n'') 0)) (demo_world demo_db) of
     (Inl e, w') \<Rightarrow> False
   | (Inr resp, w') \<Rightarrow> ts_Succeeded resp"
proof -
  have "committed {''b''} (demo_world demo_db)" using fresh_demo by (simp add: committed_def wf_demo)
  from guarded_write [OF disjI1 [OF refl] this, where val = "Some ''n''" and lease = 0 and rv = 0] show ?thesis
    by (auto simp: mod_rev_def abs_demo split: prod.splits sum.splits)
qed

text \<open>
  C4: no lost update.  Of two puts guarded by the same revision, served one after the other
  with nobody else writing the key in between, the second fails when the first succeeded.
\<close>

theorem guarded_exclusive:
  assumes "committed {key} w" and "\<And>q. ce_err (this_call w) q = None"
    and "KV_Txn (guarded key rv (put_op key val1 lease1)) w = (Inr resp1, w1)" and "ts_Succeeded resp1"
    and "committed {key} w1" and "\<And>q. ce_err (this_call w1) q = None"
    and "abs_store (at_call w1) key = abs_store (w_db w1) key"
  shows "case KV_Txn (guarded key rv (put_op key val2 lease2)) w1 of
      (Inl e, w2) \<Rightarrow> False | (Inr resp2, w2) \<Rightarrow> \<not> ts_Succeeded resp2"
proof -
  let ?ts = "ce_ts (this_call w)"
  have first: "mod_rev (abs_store (at_call w)) key = rv"
    "abs_store (w_db w1) key = a_op ?ts (store_op (put_op key val1 lease1)) (abs_store (at_call w)) key"
    using guarded_step [OF disjI1 [OF refl] assms(1,2), of rv val1 lease1] assms(3,4) by auto
  have "mod_rev (abs_store (at_call w1)) key = ?ts"
    using first(2) assms(7) by (simp add: mod_rev_def a_op_def store_op_def put_op_def a_put_def)
  moreover have "rv < ?ts"
  proof (cases "current (at_call w) key")
    case None
    then show ?thesis using first(1) fresh_envD(1) [OF committedD(2) [OF assms(1)]]
      by (simp add: mod_rev_def abs_store_def)
  next
    case (Some p)
    from current_SomeE [OF committedD(1) [OF assms(1)] Some] obtain s where
      s: "s \<in> set (kv (at_call w))" "r_key s = key" "wf_row s" "p = scanKV s" by metis
    have "r_rev s < ?ts"
      using fresh_envD(3) [OF committedD(2) [OF assms(1)], of key] s by (simp add: key_fresh_def)
    then show ?thesis using first(1) Some s scanKV_wf(1) [OF s(3)]
      by (simp add: mod_rev_def abs_store_def entry_of_def)
  qed
  ultimately show ?thesis
    using guarded_step [OF disjI1 [OF refl] assms(5,6), of rv val2 lease2]
    by (auto split: prod.splits sum.splits)
qed

theorem guarded_exclusive_witness:
  "\<exists>resp1 w1. KV_Txn (guarded ''a'' 30 (put_op ''a'' (Some ''m'') 7)) (demo_world demo_db) = (Inr resp1, w1) \<and>
     ts_Succeeded resp1 \<and>
     (case KV_Txn (guarded ''a'' 30 (put_op ''a'' (Some ''n'') 7)) w1 of
        (Inl e, w2) \<Rightarrow> False | (Inr resp2, w2) \<Rightarrow> \<not> ts_Succeeded resp2)"
proof -
  let ?w = "demo_world demo_db"
  have st: "steady (Suc (Suc 0)) ?w" by (rule steady_mono [OF steady_demo]) simp
  note s = steadyD [OF st]
  have "mod_rev (abs_store (at_call ?w)) ''a'' = 30" by (simp add: mod_rev_def abs_demo)
  with guarded_step [OF disjI1 [OF refl] s(3) s(2), where rv = 30 and key = "''a''" and val = "Some ''m''"
      and lease = 7]
  obtain resp1 w1 where r: "KV_Txn (guarded ''a'' 30 (put_op ''a'' (Some ''m'') 7)) ?w = (Inr resp1, w1)"
    "ts_Succeeded resp1" "wf_db (w_db w1)" "next_world ?w w1"
    by (auto split: prod.splits sum.splits)
  note s1 = steadyD [OF steady_next [OF st r(4,3)]]
  from guarded_exclusive [OF s(3) s(2) r(1,2) s1(3) s1(2)] s1(1) r(1,2) show ?thesis by simp
qed

text \<open>
  Inside a transaction, a range read of the prefix \<open>key\<close> (with the range end a client
  computes for it) returns exactly the live keys that start with it, in order, counted, each as
  it is in the state at the revision reported.
\<close>

theorem executeRange_prefix:
  assumes "readable w" and "prefix_key key" and "like_literal (butlast key)"
    and "r = \<lparr>rr_Key = key, rr_RangeEnd = prefix_end key, rr_Limit = 0, rr_Revision = 0,
              rr_KeysOnly = False, rr_CountOnly = False\<rparr>"
  shows "case executeRange r w of
      (Inr (ResponseRange resp, rv), w') \<Rightarrow>
        rv = current_rev (at_call w) \<and> rs_Count resp = int (length (rs_Kvs resp)) \<and>
        map pk_Key (rs_Kvs resp) =
          sorted_list_of_set {k \<in> dom (abs_store (at_call w)). HasPrefix k key} \<and>
        (\<forall>k \<in> set (rs_Kvs resp). proto_matches (at_call w) k)
    | _ \<Rightarrow> False"
  using executeRange_keys [OF assms(1-3), of r] assms(4) by auto

theorem executeRange_prefix_witness:
  "case executeRange \<lparr>rr_Key = ''a'', rr_RangeEnd = prefix_end ''a'', rr_Limit = 0, rr_Revision = 0,
       rr_KeysOnly = False, rr_CountOnly = False\<rparr> (demo_world demo_db) of
     (Inr (ResponseRange resp, rv), w') \<Rightarrow> rv = 50
   | _ \<Rightarrow> False"
  using executeRange_prefix [OF readable_demo _ _ refl, of "''a''"] current_rev_demo
  by (auto simp: prefix_key_def like_literal_def split: prod.splits sum.splits ResponseOp.splits)

text \<open>
  The bare \<open>Range\<close> RPC for the same prefix does not stop at the range end: it returns
  every live key from \<open>key\<close> on that starts with the prefix without its last byte.  Keys
  that start with \<open>key\<close> are all among them.
\<close>

theorem Range_bare_prefix:
  assumes "readable w" and "prefix_key key" and "like_literal (butlast key)"
    and "r = \<lparr>rr_Key = key, rr_RangeEnd = prefix_end key, rr_Limit = 0, rr_Revision = 0,
              rr_KeysOnly = False, rr_CountOnly = False\<rparr>"
  shows "case KV_Range r w of
      (Inl e, w') \<Rightarrow> False
    | (Inr resp, w') \<Rightarrow>
        set (map pk_Key (rs_Kvs resp)) =
          {k \<in> dom (abs_store (at_call w)). HasPrefix k (butlast key) \<and> key \<le> k} \<and>
        {k \<in> dom (abs_store (at_call w)). HasPrefix k key} =
          {k \<in> set (map pk_Key (rs_Kvs resp)). k < prefix_end key}"
proof -
  obtain kvs where kvs: "KV_Range r w =
      (Inr \<lparr>rs_Header = header (current_rev (at_call w)), rs_Kvs = kvs, rs_Count = int (length kvs)\<rparr>,
       served (served (served w)))"
    "map pk_Key kvs = sorted_list_of_set (keys_from (at_call w) (butlast key) key)"
    using Range_list [OF assms(1), of r] assms(4) prefix_end_nonzero [OF assms(2)]
      rangeToPrefix_prefix [OF assms(2)] by (auto simp: limitClause_def)
  have "set (map pk_Key kvs) = keys_from (at_call w) (butlast key) key"
    unfolding kvs(2) by (rule sorted_keys_from)
  then show ?thesis using kvs(1) keys_below_end [OF assms(2,3), of "at_call w"]
    by (simp add: keys_from_literal [OF assms(3)])
qed

theorem Range_bare_prefix_witness:
  "case KV_Range \<lparr>rr_Key = ''a'', rr_RangeEnd = prefix_end ''a'', rr_Limit = 0, rr_Revision = 0,
       rr_KeysOnly = False, rr_CountOnly = False\<rparr> (demo_world demo_db) of
     (Inl e, w') \<Rightarrow> False
   | (Inr resp, w') \<Rightarrow> ''c'' \<in> set (map pk_Key (rs_Kvs resp)) \<and> \<not> HasPrefix ''c'' ''a''"
proof -
  have "''c'' \<in> dom (abs_store demo_db)" using abs_demo by (simp add: dom_def)
  moreover have "''a'' \<le> ''c''" by (simp add: less_eq_char_def less_char_def)
  ultimately show ?thesis
    using Range_bare_prefix [OF readable_demo _ _ refl, of "''a''"]
    by (auto simp: prefix_key_def like_literal_def HasPrefix_def split: prod.splits sum.splits)
qed

text \<open>
  A bare \<open>DeleteRange\<close> with a range end deletes, one key at a time, exactly the live
  keys that match the LIKE prefix derived from the range and are not before \<open>key\<close>, whatever
  the range end says about them, leaves all others alone, and reports their number.
\<close>

theorem DeleteRange_effect:
  assumes "dr_RangeEnd r \<noteq> []" and "p = rangeToPrefix (dr_Key r) (dr_RangeEnd r)"
    and "steady (card (keys_from (w_db w) p (dr_Key r)) + 4) w"
  shows "case KV_DeleteRange r w of
      (Inl e, w') \<Rightarrow> False
    | (Inr resp, w') \<Rightarrow>
        ds_Deleted resp = int (card (keys_from (w_db w) p (dr_Key r))) \<and>
        abs_store (w_db w') = abs_store (w_db w) |` (- keys_from (w_db w) p (dr_Key r))"
  using DeleteRange_steady [OF assms(3) refl assms(1,2)] by auto

text \<open>A client that deletes the prefix \<open>a\<close> loses the key \<open>c\<close>.\<close>

theorem DeleteRange_effect_witness:
  "case KV_DeleteRange \<lparr>dr_Key = ''a'', dr_RangeEnd = prefix_end ''a'', dr_PrevKv = False\<rparr>
       (demo_world demo_db) of
     (Inl e, w') \<Rightarrow> False
   | (Inr resp, w') \<Rightarrow> abs_store demo_db ''c'' \<noteq> None \<and> abs_store (w_db w') ''c'' = None"
proof -
  let ?r = "\<lparr>dr_Key = ''a'', dr_RangeEnd = prefix_end ''a'', dr_PrevKv = False\<rparr>"
  have pk: "prefix_key ''a''" by (simp add: prefix_key_def)
  have p: "[] = rangeToPrefix (dr_Key ?r) (dr_RangeEnd ?r)" using rangeToPrefix_prefix [OF pk] by simp
  have "dom (abs_store demo_db) \<subseteq> r_key ` set (kv demo_db)" by (rule dom_abs_keys)
  then have "card (keys_from demo_db [] ''a'') \<le> card (r_key ` set (kv demo_db))"
    by (intro card_mono) (auto simp: keys_from_def)
  also have "\<dots> \<le> 5" by (rule order_trans [OF card_image_le]) (auto simp: demo_defs card_insert_if)
  finally have "steady (card (keys_from demo_db [] ''a'') + 4) (demo_world demo_db)"
    by (intro steady_mono [OF steady_demo]) simp
  moreover have "''c'' \<in> keys_from demo_db [] ''a''"
    using abs_demo(3) by (simp add: keys_from_def likePrefix_def like_percent dom_def less_eq_char_def
        less_char_def)
  ultimately show ?thesis
    using DeleteRange_effect [OF _ p, of "demo_world demo_db"] prefix_end_nonzero(1) [OF pk] abs_demo(3)
    by (auto simp: restrict_map_def split: prod.splits sum.splits)
qed

text \<open>
  An undisturbed \<open>Put\<close> creates or overwrites the key, keeps its creation revision and
  reports the revision of the write.
\<close>

theorem Put_correct:
  assumes "steady 4 w"
  shows "case KV_Put r w of
      (Inl e, w') \<Rightarrow> False
    | (Inr resp, w') \<Rightarrow>
        abs_store (w_db w') =
          a_put (pr_Key r) (pr_Value r) (pr_Lease r) (h_Revision (ps_Header resp)) (abs_store (w_db w))"
  using Put_steady [OF assms refl, of r] by auto

theorem Put_correct_witness:
  "case KV_Put \<lparr>pr_Key = ''a'', pr_Value = Some ''n'', pr_Lease = 0, pr_PrevKv = False,
       pr_IgnoreValue = False, pr_IgnoreLease = False\<rparr> (demo_world demo_db) of
     (Inl e, w') \<Rightarrow> False
   | (Inr resp, w') \<Rightarrow> map_option a_value (abs_store (w_db w') ''a'') = Some (Some ''n'')"
proof -
  have "steady 4 (demo_world demo_db)" by (rule steady_mono [OF steady_demo]) simp
  from Put_correct [OF this] show ?thesis by (fastforce simp: a_put_def split: prod.splits sum.splits)
qed

text \<open>
  A \<open>Put\<close> on an existing key is not atomic.  When another client writes the key between
  the read of its revision and the guarded update, the update is refused, nothing of the
  request is written, and the client is still told it succeeded.
\<close>

theorem Put_lost:
  assumes "ce_err (this_call w) (QKeyExists (pr_Key r)) = None"
    and "current (at_call w) (pr_Key r) = Some p0" and "readable (served w)"
    and "current (at_call (served w)) (pr_Key r) = Some p1"
    and "ce_err (this_call (served (served (served w)))) (QLatest (pr_Key r)) = None"
    and "current (at_call (served (served (served w)))) (pr_Key r) = Some p2" and "Rev p2 \<noteq> Rev p1"
  shows "\<exists>resp. KV_Put r w = (Inr resp, served (served (served (served (served w)))))"
  by (rule Put_raced [OF assms refl])

definition raced_row :: kv_row where
  "raced_row = demo_row 6 60 ''a'' (Some ''w'') (Some ''y'') 7 False 10 (Some 30)"

definition raced_world :: world where
  "raced_world = (demo_world demo_db)\<lparr>w_env :=
     (\<lambda>n. if n = 3 then (demo_call 103)\<lparr>ce_other := append_row raced_row\<rparr> else demo_call (100 + int n))\<rparr>"

lemma raced_calls:
  "at_call raced_world = demo_db" "at_call (served raced_world) = demo_db"
  "at_call (served (served raced_world)) = demo_db"
  "at_call (served (served (served raced_world))) = append_row raced_row demo_db"
  "at_call (served (served (served (served raced_world)))) = append_row raced_row demo_db"
  "ce_err (this_call raced_world) q = None" "ce_err (this_call (served raced_world)) q = None"
  "ce_err (this_call (served (served raced_world))) q = None"
  "ce_err (this_call (served (served (served raced_world)))) q = None"
  by (simp_all add: raced_world_def at_call_def this_call_def served_def)

lemma raced_current:
  "current (append_row raced_row demo_db) ''a'' = Some \<lparr>Key = ''a'', Value = Some ''w'',
     OldValue = Some ''y'', LeaseID = 7, Deleted = False, Created = False, Rev = 60,
     CreateRevision = 10, PrevRevision = 30\<rparr>"
  by (simp add: current_def select_latest_def newest_def first_by_def demo_defs raced_row_def live_def
      scanKV_def tsToRev_id)

lemma raced_wf: "wf_db (append_row raced_row demo_db)" "grows demo_db (append_row raced_row demo_db)"
proof -
  have "wf_rows (kv (append_row raced_row demo_db))"
    by (simp add: wf_rows_def demo_defs raced_row_def wf_row_def pair_ok_def follows_def)
  then show "wf_db (append_row raced_row demo_db)" using wf_demo by (simp add: wf_db_def)
  have "r_rev raced_row = 60" by (simp add: raced_row_def demo_row_def)
  then show "grows demo_db (append_row raced_row demo_db)"
    using current_rev_demo by (auto simp: grows_def)
qed

theorem Put_lost_witness:
  "\<exists>resp w'. KV_Put \<lparr>pr_Key = ''a'', pr_Value = Some ''n'', pr_Lease = 0, pr_PrevKv = False,
       pr_IgnoreValue = False, pr_IgnoreLease = False\<rparr> raced_world = (Inr resp, w') \<and>
     map_option a_value (abs_store (w_db w') ''a'') = Some (Some ''w'')"
proof -
  let ?r = "\<lparr>pr_Key = ''a'', pr_Value = Some ''n'', pr_Lease = 0, pr_PrevKv = False,
     pr_IgnoreValue = False, pr_IgnoreLease = False\<rparr>"
  have "readable (served raced_world)"
    by (simp add: readable_def raced_calls wf_demo raced_wf grows_refl)
  with Put_lost [of raced_world ?r "the (current demo_db ''a'')" "the (current demo_db ''a'')"
      "the (current (append_row raced_row demo_db) ''a'')"] obtain resp where
    "KV_Put ?r raced_world = (Inr resp, served (served (served (served (served raced_world)))))"
    by (auto simp: raced_calls current_demo raced_current)
  then show ?thesis by (simp add: raced_calls raced_current abs_store_def entry_of_def)
qed

end
