(* ===== verification/Watch.thy ===== *)
theory Watch
  imports Steady
begin

text \<open>
  \<open>pkg/store/watch.go\<close>: subscribers, the replay of old events, the fan-out of new ones and the
  poll loop.  A subscriber is an object behind a pointer, so the watcher holds a list of
  pointers and a heap.  What the environment decides (a cancelled context, a consumer that does
  not read) is an argument.  This theory has the operations one at a time; their interleaving
  is in \<open>Watch_Steps\<close>.
\<close>

section \<open>State\<close>

definition pollInterval :: int where
  "pollInterval = 10 ^ 9"

definition pollSlowInterval :: int where
  "pollSlowInterval = 30 * 10 ^ 9"

definition pollBatchSize :: int where
  "pollBatchSize = 500"

definition subChannelDepth :: nat where
  "subChannelDepth = 100"

text \<open>\<open>closedSentinel\<close> is the empty batch.\<close>

definition closedSentinel :: "Event list" where
  "closedSentinel = []"

record subscriber =
  sub_prefix :: string
  sub_ch :: "Event list list"
  sub_cancelled :: bool
  sub_closed :: bool

record Watcher =
  wt_subscribers :: "nat list"
  wt_sub :: "nat \<Rightarrow> subscriber"
  wt_next :: nat
  wt_csHealthy :: int

definition newWatcher :: Watcher where
  "newWatcher = \<lparr>wt_subscribers = [],
     wt_sub = (\<lambda>_. \<lparr>sub_prefix = [], sub_ch = [], sub_cancelled = False, sub_closed = False\<rparr>),
     wt_next = 0, wt_csHealthy = 0\<rparr>"

definition upd_sub :: "nat \<Rightarrow> (subscriber \<Rightarrow> subscriber) \<Rightarrow> Watcher \<Rightarrow> Watcher" where
  "upd_sub s f wt = wt\<lparr>wt_sub := (wt_sub wt)(s := f (wt_sub wt s))\<rparr>"

section \<open>Subscribing\<close>

text \<open>The synchronous part: a new subscriber at the end of the list.\<close>

definition subscribe :: "string \<Rightarrow> Watcher \<Rightarrow> nat \<times> Watcher" where
  "subscribe p wt =
     (wt_next wt,
      wt\<lparr>wt_subscribers := wt_subscribers wt @ [wt_next wt],
         wt_sub := (wt_sub wt)(wt_next wt :=
           \<lparr>sub_prefix = p, sub_ch = [], sub_cancelled = False, sub_closed = False\<rparr>),
         wt_next := Suc (wt_next wt)\<rparr>)"

text \<open>The check before the replay: may it start?\<close>

definition replayAllowed :: "int \<Rightarrow> world \<Rightarrow> bool \<times> world" where
  "replayAllowed afterRev w =
     (case Store_compactRevision w of
        (_, Some e, w1) \<Rightarrow> (False, w1)
      | (compactRev, None, w1) \<Rightarrow> (\<not> (compactRev > 1 \<and> afterRev \<le> compactRev), w1))"

text \<open>
  One turn of the replay loop up to the send: an error, or the events of the page, the revision
  to go on from and whether there may be more.
\<close>

definition replayPage :: "string \<Rightarrow> int \<Rightarrow> world \<Rightarrow> (goerr + Event list \<times> int \<times> bool) \<times> world" where
  "replayPage p replayRev w =
     (case Store_After p replayRev pollBatchSize w of
        (_, events, Some e, w1) \<Rightarrow> (Inl e, w1)
      | (_, events, None, w1) \<Rightarrow>
          (Inr (events, if events \<noteq> [] then Rev (ev_KV (last events)) else replayRev,
                \<not> int (length events) < pollBatchSize), w1))"

text \<open>
  The replay loop with the batches it sends.  \<open>full n\<close> says that the \<open>n\<close>-th send was given up
  because the subscription was cancelled while it waited for room.  The result says whether the
  loop ended by catching up.
\<close>

partial_function (option) replayLoop :: "string \<Rightarrow> (nat \<Rightarrow> bool) \<Rightarrow> nat \<Rightarrow> int \<Rightarrow> world
    \<Rightarrow> (Event list list \<times> bool \<times> world) option" where
  "replayLoop p full n replayRev w =
     (case replayPage p replayRev w of
        (Inl e, w1) \<Rightarrow> Some ([], False, w1)
      | (Inr (events, next_rev, again), w1) \<Rightarrow>
          (if events \<noteq> [] \<and> full n then Some ([], False, w1)
           else
             (let sent = (if events \<noteq> [] then [events] else [])
              in if again
                 then Option.bind (replayLoop p full (Suc n) next_rev w1) (\<lambda>(bs, r). Some (sent @ bs, r))
                 else Some (sent, True, w1))))"

text \<open>The goroutine of a subscription up to the wait for its end.\<close>

definition replay :: "string \<Rightarrow> int \<Rightarrow> (nat \<Rightarrow> bool) \<Rightarrow> world \<Rightarrow> (Event list list \<times> bool \<times> world) option" where
  "replay p afterRev full w =
     (if afterRev = 0 then Some ([], True, w)
      else
        (case replayAllowed afterRev w of
           (False, w1) \<Rightarrow> Some ([], False, w1)
         | (True, w1) \<Rightarrow> replayLoop p full 0 (wrap64 (afterRev - 1)) w1))"

section \<open>Teardown\<close>

definition removeSub :: "nat \<Rightarrow> Watcher \<Rightarrow> Watcher" where
  "removeSub s wt =
     (upd_sub s (\<lambda>sub. sub\<lparr>sub_cancelled := True\<rparr>) wt)
       \<lparr>wt_subscribers := filter (\<lambda>t. t \<noteq> s) (wt_subscribers wt)\<rparr>"

definition drainSub :: "subscriber \<Rightarrow> subscriber" where
  "drainSub sub = sub\<lparr>sub_ch := []\<rparr>"

text \<open>A send that succeeds only when the channel has room.\<close>

definition trySend :: "Event list \<Rightarrow> subscriber \<Rightarrow> subscriber option" where
  "trySend batch sub =
     (if length (sub_ch sub) < subChannelDepth then Some (sub\<lparr>sub_ch := sub_ch sub @ [batch]\<rparr>) else None)"

text \<open>The deferred function when nothing comes between its statements.\<close>

definition teardown :: "nat \<Rightarrow> Watcher \<Rightarrow> Watcher" where
  "teardown s wt =
     upd_sub s (\<lambda>sub. case trySend closedSentinel (drainSub sub) of Some sub' \<Rightarrow> sub' | None \<Rightarrow> drainSub sub)
       (removeSub s (upd_sub s (\<lambda>sub. sub\<lparr>sub_closed := True\<rparr>) wt))"

section \<open>Fan-out\<close>

definition matching :: "subscriber \<Rightarrow> Event list \<Rightarrow> Event list" where
  "matching sub events =
     (let p = TrimSuffix (sub_prefix sub) ''%''
      in filter (\<lambda>ev. p = [] \<or> HasPrefix (Key (ev_KV ev)) p) events)"

definition sendOrCancel :: "Event list \<Rightarrow> subscriber \<Rightarrow> subscriber" where
  "sendOrCancel batch sub =
     (case trySend batch sub of Some sub' \<Rightarrow> sub' | None \<Rightarrow> sub\<lparr>sub_cancelled := True\<rparr>)"

definition dispatchOne :: "Event list \<Rightarrow> subscriber \<Rightarrow> subscriber" where
  "dispatchOne events sub =
     (let batch = matching sub events
      in if batch = [] then sub else if sub_closed sub then sub else sendOrCancel batch sub)"

definition dispatchEvents :: "Event list \<Rightarrow> Watcher \<Rightarrow> Watcher" where
  "dispatchEvents events wt =
     (if events = [] then wt
      else fold (\<lambda>s. upd_sub s (dispatchOne events)) (wt_subscribers wt) wt)"

section \<open>The poll loop\<close>

definition doPoll :: "int \<Rightarrow> Watcher \<Rightarrow> world \<Rightarrow> int \<times> Watcher \<times> world" where
  "doPoll lastRev wt w =
     (case Store_After [] lastRev pollBatchSize w of
        (curRev, events, Some e, w1) \<Rightarrow>
          (if e = ErrCompacted then (curRev, wt, w1) else (lastRev, wt, w1))
      | (curRev, events, None, w1) \<Rightarrow>
          (curRev, if events \<noteq> [] then dispatchEvents events wt else wt, w1))"

text \<open>
  What the \<open>select\<close> of the loop can take.  A hint is taken from the notification channel; a
  tick also sets the interval of the ticker.
\<close>

datatype poll_event = StopCh | CtxDone | NotifyCh | TickerC

record poll_state =
  pl_lastRev :: int
  pl_interval :: int
  pl_running :: bool

definition pollStart :: "world \<Rightarrow> poll_state \<times> world" where
  "pollStart w =
     (case Store_CurrentRevision w of
        (lastRev, _, w1) \<Rightarrow>
          (\<lparr>pl_lastRev = lastRev, pl_interval = pollInterval, pl_running = True\<rparr>, w1))"

definition pollStep :: "poll_event \<Rightarrow> poll_state \<Rightarrow> Watcher \<Rightarrow> world \<Rightarrow> poll_state \<times> Watcher \<times> world" where
  "pollStep ev ps wt w =
     (case ev of
        StopCh \<Rightarrow> (ps\<lparr>pl_running := False\<rparr>, wt, w)
      | CtxDone \<Rightarrow> (ps\<lparr>pl_running := False\<rparr>, wt, w)
      | NotifyCh \<Rightarrow>
          (case w_notifyCh w of
             [] \<Rightarrow> (ps, wt, w)
           | hint # rest \<Rightarrow>
               (let w0 = w\<lparr>w_notifyCh := rest\<rparr>
                in if hint > pl_lastRev ps
                   then (case doPoll (pl_lastRev ps) wt w0 of
                           (lastRev, wt1, w1) \<Rightarrow> (ps\<lparr>pl_lastRev := lastRev\<rparr>, wt1, w1))
                   else (ps, wt, w0)))
      | TickerC \<Rightarrow>
          (let ps0 = ps\<lparr>pl_interval := (if wt_csHealthy wt = 1 then pollSlowInterval else pollInterval)\<rparr>
           in (case doPoll (pl_lastRev ps) wt w of
                 (lastRev, wt1, w1) \<Rightarrow> (ps0\<lparr>pl_lastRev := lastRev\<rparr>, wt1, w1))))"

fun pollLoop :: "poll_event list \<Rightarrow> poll_state \<Rightarrow> Watcher \<Rightarrow> world \<Rightarrow> poll_state \<times> Watcher \<times> world" where
  "pollLoop [] ps wt w = (ps, wt, w)"
| "pollLoop (ev # evs) ps wt w =
     (if \<not> pl_running ps then (ps, wt, w)
      else (case pollStep ev ps wt w of (ps1, wt1, w1) \<Rightarrow> pollLoop evs ps1 wt1 w1))"

section \<open>The health of the change stream\<close>

text \<open>
  The two goroutines of \<open>startChangeStream\<close> and what they do to \<open>csHealthy\<close>: the monitor's
  timer of ten seconds, and the return of \<open>reader.Start\<close> with an error.
\<close>

datatype cs_event = HealthyTimer | StartFailed

fun csHealth :: "cs_event \<Rightarrow> Watcher \<Rightarrow> Watcher" where
  "csHealth HealthyTimer wt = wt\<lparr>wt_csHealthy := 1\<rparr>"
| "csHealth StartFailed wt = wt\<lparr>wt_csHealthy := 0\<rparr>"

section \<open>The rows a watcher has not seen\<close>

definition pending :: "string \<Rightarrow> int \<Rightarrow> database \<Rightarrow> kv_row list" where
  "pending p after db =
     sort_key r_rev (filter (\<lambda>r. like (likePrefix p) (r_key r) \<and> after < r_rev r) (kv db))"

lemma select_after_pending:
  "select_after (likePrefix p) after limit db = limitClause limit (pending p after db)"
  by (simp add: select_after_def pending_def)

lemma pending_revToTS: "wf_db db \<Longrightarrow> pending p (revToTS after) db = pending p after db"
  using wf_dbD [of db] by (fastforce simp: pending_def revToTS_def wf_row_def intro!: arg_cong [where f = "sort_key r_rev"] filter_cong)

lemma set_pending: "set (pending p after db) = {r \<in> set (kv db). like (likePrefix p) (r_key r) \<and> after < r_rev r}"
  by (simp add: pending_def)

lemma sorted_pending: "sorted (map r_rev (pending p after db))"
  by (simp add: pending_def)

lemma pending_filter:
  assumes "after \<le> after'"
  shows "pending p after' db = filter (\<lambda>r. after' < r_rev r) (pending p after db)"
proof -
  have "filter (\<lambda>r. after' < r_rev r) (pending p after db) = sort_key r_rev
      (filter (\<lambda>r. after' < r_rev r) (filter (\<lambda>r. like (likePrefix p) (r_key r) \<and> after < r_rev r) (kv db)))"
    by (simp add: pending_def filter_sort)
  also have "\<dots> = pending p after' db"
    using assms unfolding pending_def filter_filter
    by (intro arg_cong [where f = "sort_key r_rev"] filter_cong refl) auto
  finally show ?thesis ..
qed

lemma wf_db_rev: "wf_db db \<Longrightarrow> r \<in> set (kv db) \<Longrightarrow> 1 < r_rev r"
  using wf_dbD [of db r] by (simp add: wf_row_def)

text \<open>The world in which \<open>After\<close> runs its last query.\<close>

definition after_query :: "int \<Rightarrow> world \<Rightarrow> world" where
  "after_query afterRev w = (if afterRev > 0 then served (served w) else served w)"

lemma After_eq:
  assumes "wf_db (at_call w)" "wf_db (at_call (served w))" "wf_db (at_call (after_query afterRev w))"
    and "ce_err (this_call w) QCurrentRevision = None" "ce_err (this_call (served w)) QCompactRev = None"
      "ce_err (this_call (after_query afterRev w)) (QAfter p) = None"
    and "0 < afterRev \<longrightarrow> compact_rev (at_call (served w)) \<le> afterRev"
  shows "Store_After p afterRev limit w =
    (current_rev (at_call w), map rowEvent (limitClause limit (pending p afterRev (at_call (after_query afterRev w)))),
     None, served (after_query afterRev w))"
  using assms pending_revToTS [OF assms(3)]
  by (cases "0 < afterRev") (simp_all add: Store_After_def CurrentRevision_eq compactRevision_eq single_eq
      select_after_pending after_query_def)

lemma After_quiet:
  assumes "quiet (w_env w)" "wf_db (w_db w)" "0 < afterRev \<longrightarrow> compact_rev (w_db w) \<le> afterRev"
  shows "Store_After p afterRev limit w = (current_rev (w_db w),
    map rowEvent (limitClause limit (pending p afterRev (w_db w))), None, served (after_query afterRev w))"
    and "w_db (served (after_query afterRev w)) = w_db w" "w_env (served (after_query afterRev w)) = w_env w"
proof -
  note q = quietD [OF assms(1)] and q1 = quietD [of "served w"] and q2 = quietD [of "served (served w)"]
  have e: "quiet (w_env (served w))" "quiet (w_env (served (served w)))" using assms(1) by simp_all
  show "Store_After p afterRev limit w = (current_rev (w_db w),
    map rowEvent (limitClause limit (pending p afterRev (w_db w))), None, served (after_query afterRev w))"
    using After_eq [of w afterRev p limit] q q1 [OF e(1)] q2 [OF e(2)] assms(2,3)
    by (simp add: after_query_def)
  show "w_db (served (after_query afterRev w)) = w_db w" "w_env (served (after_query afterRev w)) = w_env w"
    using q q1 [OF e(1)] q2 [OF e(2)] by (simp_all add: after_query_def)
qed

section \<open>Replay\<close>

lemma rowEvent_Rev: "wf_row r \<Longrightarrow> Rev (ev_KV (rowEvent r)) = r_rev r"
  by (simp add: rowEvent_def scanKV_def wf_row_def tsToRev_id)

lemma sorted_le_last:
  fixes f :: "'a \<Rightarrow> int"
  shows "sorted (map f ys) \<Longrightarrow> y \<in> set ys \<Longrightarrow> f y \<le> f (last ys)"
  by (induction ys) auto

lemma drop_page:
  fixes f :: "'a \<Rightarrow> int"
  assumes "sorted_wrt (<) (map f xs)" "0 < n" "n \<le> length xs"
  shows "filter (\<lambda>x. f (last (take n xs)) < f x) xs = drop n xs"
proof -
  let ?ys = "take n xs" and ?zs = "drop n xs"
  have ne: "?ys \<noteq> []" using assms(2,3) by auto
  have s: "sorted_wrt (<) (map f ?ys @ map f ?zs)" using assms(1) by (simp flip: map_append)
  then have "sorted (map f ?ys)" by (simp add: sorted_wrt_append strict_sorted_imp_sorted)
  then have "f y \<le> f (last ?ys)" if "y \<in> set ?ys" for y using that by (rule sorted_le_last)
  then have "filter (\<lambda>x. f (last ?ys) < f x) ?ys = []" by (auto simp: filter_empty_conv not_less)
  moreover have "filter (\<lambda>x. f (last ?ys) < f x) ?zs = ?zs"
    using s last_in_set [OF ne] by (auto simp: sorted_wrt_append filter_id_conv)
  ultimately have "filter (\<lambda>x. f (last ?ys) < f x) (?ys @ ?zs) = ?zs" by (metis append_Nil filter_append)
  then show ?thesis by simp
qed

lemma replayPage_quiet:
  fixes p :: string
  assumes "quiet (w_env w)" "wf_db (w_db w)" "compact_rev (w_db w) \<le> max 1 replayRev"
  defines "rows \<equiv> take 500 (pending p replayRev (w_db w))"
  shows "replayPage p replayRev w =
    (Inr (map rowEvent rows, if rows \<noteq> [] then r_rev (last rows) else replayRev, length rows = 500),
     served (after_query replayRev w))"
proof -
  have "wf_row (last rows)" if ne: "rows \<noteq> []"
  proof -
    have "last rows \<in> set (pending p replayRev (w_db w))"
      using last_in_set [OF ne] unfolding rows_def by (rule in_set_takeD)
    then show ?thesis using wf_dbD [OF assms(2)] by (simp add: set_pending)
  qed
  then have "rows \<noteq> [] \<Longrightarrow> Rev (ev_KV (last (map rowEvent rows))) = r_rev (last rows)"
    by (simp add: last_map rowEvent_Rev)
  moreover have "length rows \<le> 500" by (simp add: rows_def)
  moreover have "0 < replayRev \<longrightarrow> compact_rev (w_db w) \<le> replayRev" using assms(3) by (auto simp: max_def)
  note After_quiet(1) [OF assms(1,2) this, of p 500]
  ultimately show ?thesis
    by (simp add: replayPage_def pollBatchSize_def limitClause_def flip: rows_def)
qed

lemma replayLoop_complete:
  assumes "quiet (w_env w)" "wf_db (w_db w)" "compact_rev (w_db w) \<le> max 1 replayRev"
    and "distinct (map r_rev (pending p replayRev (w_db w)))" "\<And>n. \<not> full n"
  shows "\<exists>batches w'. replayLoop p full n replayRev w = Some (batches, True, w') \<and>
    concat batches = map rowEvent (pending p replayRev (w_db w)) \<and> closedSentinel \<notin> set batches \<and>
    w_db w' = w_db w"
  using assms(1-4)
proof (induction "length (pending p replayRev (w_db w))" arbitrary: n replayRev w rule: less_induct)
  case less
  let ?db = "w_db w" and ?w1 = "served (after_query replayRev w)"
  let ?all = "pending p replayRev ?db"
  let ?rows = "take 500 ?all"
  have c0: "0 < replayRev \<longrightarrow> compact_rev ?db \<le> replayRev" using less.prems(3) by (auto simp: max_def)
  note page = replayPage_quiet [OF less.prems(1-3), of p] and w1 = After_quiet(2,3) [OF less.prems(1,2) c0]
  show ?case
  proof (cases "500 \<le> length ?all")
    case False
    then show ?thesis
      using page w1 assms(5) by (subst replayLoop.simps) (auto simp: Let_def closedSentinel_def)
  next
    case True
    let ?r = "r_rev (last ?rows)"
    have ne: "?rows \<noteq> []" "length ?rows = 500" using True by auto
    have last: "last ?rows \<in> set ?all" using last_in_set [OF ne(1)] by (rule in_set_takeD)
    have r: "replayRev < ?r" using last by (simp add: set_pending)
    have "1 < ?r" using last wf_db_rev [OF less.prems(2)] by (simp add: set_pending)
    have strict: "sorted_wrt (<) (map r_rev ?all)"
      using less.prems(4) sorted_pending by (simp add: strict_sorted_iff)
    have rest: "pending p ?r ?db = drop 500 ?all"
      using pending_filter [of replayRev ?r p ?db] r drop_page [OF strict, of 500] True by simp
    then have c: "compact_rev (w_db ?w1) \<le> max 1 ?r" using less.prems(3) r w1 by simp
    have len: "length (drop 500 ?all) < length ?all" using True by simp
    have dist: "distinct (map r_rev (drop 500 ?all))"
      using less.prems(4) by (simp add: distinct_drop flip: drop_map)
    have "\<exists>batches w'. replayLoop p full (Suc n) ?r ?w1 = Some (batches, True, w') \<and>
        concat batches = map rowEvent (drop 500 ?all) \<and> closedSentinel \<notin> set batches \<and> w_db w' = ?db"
      using less.hyps [of ?r ?w1 "Suc n"] less.prems(1,2) c True len dist unfolding w1 rest by blast
    then obtain batches w' where ih: "replayLoop p full (Suc n) ?r ?w1 = Some (batches, True, w')"
      "concat batches = map rowEvent (drop 500 ?all)" "closedSentinel \<notin> set batches" "w_db w' = ?db"
      by blast
    have "replayLoop p full n replayRev w = Some (map rowEvent ?rows # batches, True, w')"
      using page ne ih(1) assms(5) by (subst replayLoop.simps) (simp add: Let_def)
    moreover have "map rowEvent ?rows @ concat batches = map rowEvent ?all"
      using ih(2) by (metis append_take_drop_id map_append)
    moreover have "closedSentinel \<noteq> map rowEvent ?rows" using ne by (auto simp: closedSentinel_def)
    ultimately show ?thesis using ih(3,4) by auto
  qed
qed

lemma replayAllowed_quiet:
  assumes "quiet (w_env w)" "wf_db (w_db w)"
  shows "replayAllowed afterRev w = (\<not> (1 < compact_rev (w_db w) \<and> afterRev \<le> compact_rev (w_db w)), served w)"
  using assms quietD [OF assms(1)] by (simp add: replayAllowed_def compactRevision_eq)

lemma pending_literal:
  "like_literal p \<Longrightarrow> pending p (after - 1) db =
     sort_key r_rev (filter (\<lambda>r. HasPrefix (r_key r) p \<and> after \<le> r_rev r) (kv db))"
proof -
  assume "like_literal p"
  moreover have "after - 1 < r_rev r \<longleftrightarrow> after \<le> r_rev r" for r :: kv_row by auto
  ultimately show ?thesis by (simp only: pending_def likePrefix_literal)
qed

text \<open>
  C34: a watch that starts at a past revision, undisturbed and read by its client, gets every
  event of its prefix from that revision on, in the order of the log and exactly once, and then
  goes live, however many pages of 500 events that takes; a start revision at or below the
  compaction revision ends the watch without an event instead of leaving a gap.  The events of
  the prefix must have different revisions.
\<close>

theorem replay_correct:
  assumes "quiet (w_env w)" "wf_db (w_db w)" "like_literal p" "0 < afterRev" "in_int64 afterRev"
    and "distinct (map r_rev (filter (\<lambda>r. HasPrefix (r_key r) p \<and> afterRev \<le> r_rev r) (kv (w_db w))))"
    and "\<And>n. \<not> full n"
  shows "case replay p afterRev full w of None \<Rightarrow> False | Some (batches, caught_up, w') \<Rightarrow>
    (if 1 < compact_rev (w_db w) \<and> afterRev \<le> compact_rev (w_db w) then \<not> caught_up \<and> batches = []
     else caught_up \<and> closedSentinel \<notin> set batches \<and> concat batches = map rowEvent
       (sort_key r_rev (filter (\<lambda>r. HasPrefix (r_key r) p \<and> afterRev \<le> r_rev r) (kv (w_db w)))))"
proof (cases "1 < compact_rev (w_db w) \<and> afterRev \<le> compact_rev (w_db w)")
  case True
  then show ?thesis using assms(4) by (simp add: replay_def replayAllowed_quiet [OF assms(1,2)])
next
  case False
  note p = pending_literal [OF assms(3), of afterRev "w_db w"]
  have w1: "quiet (w_env (served w))" "w_db (served w) = w_db w" using assms(1) quietD [OF assms(1)] by simp_all
  have c: "compact_rev (w_db (served w)) \<le> max 1 (afterRev - 1)" using False w1 by auto
  have "mset (map r_rev (pending p (afterRev - 1) (w_db w))) =
      mset (map r_rev (filter (\<lambda>r. HasPrefix (r_key r) p \<and> afterRev \<le> r_rev r) (kv (w_db w))))"
    unfolding p by simp
  then have d: "distinct (map r_rev (pending p (afterRev - 1) (w_db (served w))))"
    using assms(6) w1 mset_eq_imp_distinct_iff by metis
  have "wf_db (w_db (served w))" using assms(2) w1 by simp
  from replayLoop_complete [OF w1(1) this c d, where n = 0 and full = full] assms(7)
  obtain batches w' where "replayLoop p full 0 (afterRev - 1) (served w) = Some (batches, True, w')"
    "concat batches = map rowEvent (pending p (afterRev - 1) (w_db w))" "closedSentinel \<notin> set batches"
    unfolding w1(2) by blast
  moreover have "wrap64 (afterRev - 1) = afterRev - 1"
    using assms(4,5) by (intro wrap64_id) (simp add: in_int64_def)
  ultimately show ?thesis
    using False assms(4) by (simp add: replay_def replayAllowed_quiet [OF assms(1,2)] p)
qed

theorem replay_correct_witness:
  "case replay [] 30 (\<lambda>_. False) (demo_world demo_db) of None \<Rightarrow> False | Some (batches, caught_up, w') \<Rightarrow>
     caught_up \<and> map (\<lambda>ev. (Key (ev_KV ev), ev_Type ev)) (concat batches) =
       [(''a'', EventPut), (''b'', EventDelete), (''c'', EventPut)]"
proof -
  let ?rows = "filter (\<lambda>r. HasPrefix (r_key r) [] \<and> 30 \<le> r_rev r) (kv demo_db)"
  have ev: "map (\<lambda>ev. (Key (ev_KV ev), ev_Type ev)) (map rowEvent (sort_key r_rev ?rows)) =
      [(''a'', EventPut), (''b'', EventDelete), (''c'', EventPut)]"
    by (simp add: demo_defs rowEvent_def scanKV_def)
  have d: "distinct (map r_rev ?rows)" by (simp add: demo_defs)
  from replay_correct [OF quiet_demo, of demo_db "[]" 30 "\<lambda>_. False"] wf_demo compact_rev_demo d
  have "case replay [] 30 (\<lambda>_. False) (demo_world demo_db) of None \<Rightarrow> False | Some (batches, caught_up, w') \<Rightarrow>
      caught_up \<and> concat batches = map rowEvent (sort_key r_rev ?rows)"
    by (simp add: like_literal_def in_int64_def split: option.splits prod.splits)
  then show ?thesis using ev by (auto split: option.splits prod.splits)
qed

text \<open>
  When a page ends inside the events of one revision, the next page starts after that revision
  and the rest of them is never sent: here one transaction has written 501 keys.
\<close>

definition gap_row :: "nat \<Rightarrow> kv_row" where
  "gap_row i = demo_row (int i) 10 (replicate i (CHR ''x'')) (Some []) None 0 False 10 None"

definition gap_db :: database where
  "gap_db = demo_db\<lparr>kv := map gap_row [0..<501]\<rparr>"

lemma gap_row_simps [simp]: "r_rev (gap_row i) = 10" "r_key (gap_row i) = replicate i (CHR ''x'')"
  by (simp_all add: gap_row_def demo_row_def)

lemma wf_gap: "wf_db gap_db"
proof -
  have "wf_row (gap_row i)" for i by (simp add: gap_row_def demo_row_def wf_row_def)
  moreover have "pair_ok (gap_row i) (gap_row j)" for i j by (simp add: pair_ok_def)
  moreover have "r_id (gap_row i) = int i" for i by (simp add: gap_row_def demo_row_def)
  ultimately show ?thesis
    by (auto simp: wf_db_def wf_rows_def gap_db_def distinct_map inj_on_def) (simp_all add: demo_defs)
qed

lemma gap_page:
  assumes "quiet (w_env w)" "w_db w = gap_db"
  shows "replayPage [] r w =
    (Inr (if r < 10 then (map rowEvent (map gap_row [0..<500]), 10, True) else ([], r, False)),
     served (after_query r w))"
    and "w_db (served (after_query r w)) = gap_db" "quiet (w_env (served (after_query r w)))"
proof -
  have "sorted (map r_rev (map gap_row [0..<501]))" by (simp add: comp_def map_replicate_const)
  from sort_key_id_if_sorted [OF this]
  have all: "pending [] r gap_db = (if r < 10 then map gap_row [0..<501] else [])"
    by (simp add: pending_def gap_db_def likePrefix_def like_percent comp_def filter_map)
  have c: "compact_rev (w_db w) = 1" using assms(2) by (simp add: gap_db_def compact_rev_def demo_defs)
  have page: "take 500 (map gap_row [0..<501]) = map gap_row [0..<500]" "gap_row 0 # map gap_row [1..<500] \<noteq> []"
    by (simp_all add: take_map)
  show "replayPage [] r w =
    (Inr (if r < 10 then (map rowEvent (map gap_row [0..<500]), 10, True) else ([], r, False)),
     served (after_query r w))"
    using replayPage_quiet [of w r "[]"] assms wf_gap c
    by (simp add: all page last_map del: map_map)
  show "w_db (served (after_query r w)) = gap_db" "quiet (w_env (served (after_query r w)))"
    using After_quiet(2,3) [OF assms(1), of r] assms wf_gap c by simp_all
qed

lemma replay_gap:
  "case replay [] 10 (\<lambda>_. False) (demo_world gap_db) of None \<Rightarrow> False | Some (batches, caught_up, w') \<Rightarrow>
     caught_up \<and> length (concat batches) = 500 \<and> length (pending [] 9 (w_db w')) = 501"
proof -
  let ?w1 = "served (demo_world gap_db)"
  let ?w2 = "served (after_query 9 ?w1)"
  have w1: "quiet (w_env ?w1)" "w_db ?w1 = gap_db" using quiet_demo by simp_all
  note p1 = gap_page [OF w1, of 9]
  note p2 = gap_page [OF p1(3,2), of 10]
  have "replayLoop [] (\<lambda>_. False) 1 10 ?w2 = Some ([], True, served (after_query 10 ?w2))"
    by (subst replayLoop.simps) (simp add: p2(1))
  then have "replayLoop [] (\<lambda>_. False) 0 9 ?w1 =
      Some ([map rowEvent (map gap_row [0..<500])], True, served (after_query 10 ?w2))"
    by (subst replayLoop.simps) (simp add: p1(1) del: map_map)
  moreover have "replayAllowed 10 (demo_world gap_db) = (True, ?w1)"
    by (simp add: replayAllowed_quiet quiet_demo wf_gap) (simp add: gap_db_def compact_rev_def demo_defs)
  moreover have "length (pending [] 9 gap_db) = 501"
    by (simp add: pending_def gap_db_def likePrefix_def like_percent)
  ultimately show ?thesis using p2(2) by (simp add: replay_def wrap64_def)
qed

section \<open>Polling\<close>

lemma dispatchEvents_Nil [simp]: "dispatchEvents [] wt = wt"
  by (simp add: dispatchEvents_def)

lemma fold_upd_sub:
  "distinct ss \<Longrightarrow> fold (\<lambda>s. upd_sub s f) ss wt = wt\<lparr>wt_sub := (\<lambda>s. if s \<in> set ss then f (wt_sub wt s) else wt_sub wt s)\<rparr>"
  by (induction ss arbitrary: wt) (auto simp: upd_sub_def fun_eq_iff)

lemma dispatchEvents_sub:
  assumes "distinct (wt_subscribers wt)"
  shows "wt_sub (dispatchEvents events wt) s =
    (if s \<in> set (wt_subscribers wt) then dispatchOne events (wt_sub wt s) else wt_sub wt s)"
  using fold_upd_sub [OF assms, of "dispatchOne events" wt]
  by (cases "events = []") (simp_all add: dispatchEvents_def dispatchOne_def matching_def)

text \<open>
  One poll, whatever others commit during it: it dispatches from the database its last query
  sees and goes on from the revision its first query saw.
\<close>

lemma doPoll_eq:
  assumes "wf_db (at_call w)" "wf_db (at_call (served w))" "wf_db (at_call (after_query lastRev w))"
    and "ce_err (this_call w) QCurrentRevision = None" "ce_err (this_call (served w)) QCompactRev = None"
      "ce_err (this_call (after_query lastRev w)) (QAfter []) = None"
    and "0 < lastRev \<longrightarrow> compact_rev (at_call (served w)) \<le> lastRev"
  shows "doPoll lastRev wt w = (current_rev (at_call w),
    dispatchEvents (map rowEvent (take 500 (pending [] lastRev (at_call (after_query lastRev w))))) wt,
    served (after_query lastRev w))"
  using After_eq [OF assms, of 500] by (auto simp: doPoll_def pollBatchSize_def limitClause_def)

lemma all_keys [simp]: "like (likePrefix []) k"
  by (simp add: likePrefix_def like_percent)

lemma mset_filter_split:
  fixes f :: "'a \<Rightarrow> int"
  shows "a \<le> b \<Longrightarrow> mset (filter (\<lambda>x. a < f x) xs) =
    mset (filter (\<lambda>x. a < f x \<and> f x \<le> b) xs) + mset (filter (\<lambda>x. b < f x) xs)"
  by (induction xs) auto

text \<open>A row newer than all others is the only one a poll from the current revision on finds.\<close>

lemma newest_appended:
  assumes "wf_db db" "wf_db (append_row r db)" "\<forall>s \<in> set (kv db). r_rev s < r_rev r"
  shows "current_rev (append_row r db) = r_rev r" "pending [] (current_rev db) (append_row r db) = [r]"
    "current_rev db < r_rev r"
proof -
  have r: "1 < r_rev r" by (rule wf_db_rev [OF assms(2)]) simp
  show less: "current_rev db < r_rev r"
  proof (cases "newest (kv db)")
    case None
    then show ?thesis using r by (simp add: current_rev_def)
  next
    case (Some s)
    then have "s \<in> set (kv db)" by (rule newest_SomeD(1))
    then show ?thesis using assms(3) Some by (simp add: current_rev_def)
  qed
  have "filter (\<lambda>s. current_rev db < r_rev s) (kv db) = []"
    using current_rev_ge(1) [OF assms(1)] by (auto simp: filter_empty_conv not_less)
  then show "pending [] (current_rev db) (append_row r db) = [r]" using less by (simp add: pending_def)
  show "current_rev (append_row r db) = r_rev r"
    using newest_append [of "kv db" r] assms(3) by (simp add: current_rev_def)
qed

lemma pending_grows:
  assumes "wf_db db" "wf_db db'" "grows db db'" "lastRev \<le> current_rev db"
  shows "set (pending [] (current_rev db) db') = set (kv db') - set (kv db)"
    and "mset (pending [] lastRev db') = mset (pending [] lastRev db) + mset (pending [] (current_rev db) db')"
proof -
  have old: "r \<in> set (kv db) \<longleftrightarrow> r \<in> set (kv db') \<and> r_rev r \<le> current_rev db" for r
    using current_rev_ge(1) [OF assms(1), of r] assms(3) by (auto simp: grows_def)
  show "set (pending [] (current_rev db) db') = set (kv db') - set (kv db)"
    unfolding set_pending by (auto simp: old not_le)
  have d: "distinct (kv db)" "distinct (kv db')"
    using assms(1,2) by (simp_all add: wf_db_def wf_rows_def distinct_map)
  have "mset (filter (\<lambda>r. lastRev < r_rev r \<and> r_rev r \<le> current_rev db) (kv db')) =
      mset (filter (\<lambda>r. lastRev < r_rev r) (kv db))"
    using d by (intro set_eq_iff_mset_eq_distinct [THEN iffD1]) (auto simp: old)
  then show "mset (pending [] lastRev db') = mset (pending [] lastRev db) + mset (pending [] (current_rev db) db')"
    using mset_filter_split [OF assms(4), of r_rev "kv db'"] by (simp add: pending_def)
qed

text \<open>
  C35: a poll that no commit interrupts dispatches exactly the rows newer than the last revision,
  in the order of the log, and moves the last revision to the newest one, so that for every
  later state of the log the next poll finds exactly the rows added since: together the polls
  deliver every row once.  The backlog must fit in one batch of 500.
\<close>

theorem doPoll_exactly_once:
  assumes "wf_db db" "at_call w = db" "at_call (served w) = db" "at_call (served (served w)) = db"
    and "ce_err (this_call w) = (\<lambda>q. None)" "ce_err (this_call (served w)) = (\<lambda>q. None)"
      "ce_err (this_call (served (served w))) = (\<lambda>q. None)"
    and "compact_rev db \<le> lastRev" "lastRev \<le> current_rev db" "length (pending [] lastRev db) \<le> 500"
    and "wf_db db'" "grows db db'"
  shows "case doPoll lastRev wt w of (lastRev', wt', w') \<Rightarrow>
    lastRev' = current_rev db \<and>
    wt' = dispatchEvents (map rowEvent (pending [] lastRev db)) wt \<and>
    set (pending [] lastRev' db') = set (kv db') - set (kv db) \<and>
    mset (pending [] lastRev db') = mset (pending [] lastRev db) + mset (pending [] lastRev' db')"
proof -
  have c: "1 \<le> compact_rev db" using assms(1) by (rule compact_rev_ge)
  have "doPoll lastRev wt w = (current_rev db, dispatchEvents (map rowEvent (pending [] lastRev db)) wt,
      served (served (served w)))"
    using doPoll_eq [of w lastRev wt] assms c by (simp add: after_query_def)
  then show ?thesis using pending_grows [OF assms(1,11,12,9)] by simp
qed

theorem doPoll_exactly_once_witness:
  "case doPoll 30 newWatcher (demo_world demo_db) of (lastRev', wt', w') \<Rightarrow>
     lastRev' = 50 \<and> map r_key (pending [] 30 demo_db) = [''b'', ''c''] \<and>
     wt' = dispatchEvents (map rowEvent (pending [] 30 demo_db)) newWatcher"
proof -
  have p: "map r_key (pending [] 30 demo_db) = [''b'', ''c'']" by (simp add: pending_def demo_defs)
  from arg_cong [OF this, of length] have "length (pending [] 30 demo_db) \<le> 500" by simp
  with p show ?thesis
    using doPoll_exactly_once [of demo_db "demo_world demo_db" 30 demo_db newWatcher]
      wf_demo current_rev_demo compact_rev_demo grows_refl
    by (auto simp: fun_eq_iff split: prod.splits)
qed

text \<open>
  A longer backlog loses its tail: no later poll looks at it.
\<close>

lemma doPoll_drops:
  assumes "quiet (w_env w)" "w_db w = db" "wf_db db" "compact_rev db \<le> lastRev"
    and "doPoll lastRev wt w = (lastRev', wt', w')" "r \<in> set (drop 500 (pending [] lastRev db))"
  shows "r \<in> set (kv db)" "wt' = dispatchEvents (map rowEvent (take 500 (pending [] lastRev db))) wt"
    "r \<notin> set (pending [] lastRev' db')"
proof -
  have "1 \<le> compact_rev db" using assms(3) by (rule compact_rev_ge)
  then have eq: "lastRev' = current_rev db" "wt' = dispatchEvents (map rowEvent (take 500 (pending [] lastRev db))) wt"
    using assms(5) After_quiet(1) [OF assms(1), of lastRev "[]" 500] assms(2-4)
    by (auto simp: doPoll_def pollBatchSize_def limitClause_def split: if_splits)
  from assms(6) have "r \<in> set (pending [] lastRev db)" by (rule in_set_dropD)
  then show r: "r \<in> set (kv db)" by (simp add: set_pending)
  show "wt' = dispatchEvents (map rowEvent (take 500 (pending [] lastRev db))) wt" by (rule eq)
  show "r \<notin> set (pending [] lastRev' db')"
    using current_rev_ge(1) [OF assms(3) r] eq(1) by (auto simp: set_pending)
qed

text \<open>
  A row committed while the poll runs is dispatched by this poll and found again by the next.
\<close>

lemma doPoll_repeats:
  assumes "wf_db (at_call w)" "wf_db (at_call (served w))" "wf_db (at_call (served (served w)))"
    and "\<And>q. ce_err (this_call w) q = None" "\<And>q. ce_err (this_call (served w)) q = None"
      "\<And>q. ce_err (this_call (served (served w))) q = None"
    and "0 < lastRev" "compact_rev (at_call (served w)) \<le> lastRev"
    and "doPoll lastRev wt w = (lastRev', wt', w')"
    and "r \<in> set (take 500 (pending [] lastRev (at_call (served (served w)))))" "current_rev (at_call w) < r_rev r"
  shows "r \<in> set (pending [] lastRev' (w_db w'))"
  using doPoll_eq [of w lastRev wt] assms in_set_takeD [OF assms(10)]
  by (simp add: after_query_def set_pending)

text \<open>
  The monitor does not know that the reader failed: ten seconds after the start the stream
  counts as healthy, and from then on the ticks are thirty seconds apart.
\<close>

lemma failed_stream_counts_as_healthy:
  "wt_csHealthy (csHealth HealthyTimer (csHealth StartFailed wt)) = 1"
  by simp

end
