(* ===== verification/WatchServer.thy ===== *)
theory WatchServer
  imports KVServer Watch
begin

text \<open>
  \<open>pkg/server/watch.go\<close>: the Watch service.  One stream multiplexes many watches: its receive
  loop creates and cancels them, and a goroutine per watch turns the batches of its subscription
  into responses.  The events of a \<open>select\<close> are arguments.  A blocking send on the response
  channel has the outcomes of its \<open>select\<close>; the channel holds the responses in the order in
  which the send loop passes them to the stream.
\<close>

section \<open>Messages\<close>

datatype pb_event_type = PUT | DELETE

record pb_Event =
  pe_Type :: pb_event_type
  pe_Kv :: KeyValue
  pe_PrevKv :: "KeyValue option"

record WatchResponse =
  wr_Header :: ResponseHeader
  wr_WatchId :: int
  wr_Created :: bool
  wr_Canceled :: bool
  wr_CompactRevision :: int
  wr_Events :: "pb_Event list"

definition watchResponse :: "int \<Rightarrow> int \<Rightarrow> WatchResponse" where
  "watchResponse rv watchID =
     \<lparr>wr_Header = header rv, wr_WatchId = watchID, wr_Created = False, wr_Canceled = False,
      wr_CompactRevision = 0, wr_Events = []\<rparr>"

record WatchCreateRequest =
  cr_Key :: string
  cr_RangeEnd :: string
  cr_StartRevision :: int

datatype RequestUnion = CreateRequest WatchCreateRequest | CancelRequest int | ProgressRequest

section \<open>Helpers\<close>

definition toWatchEvent :: "Event \<Rightarrow> pb_Event" where
  "toWatchEvent ev =
     (let k = ev_KV ev
      in \<lparr>pe_Type = (if ev_Type ev = EventDelete then DELETE else PUT),
          pe_Kv = toProtoKV k,
          pe_PrevKv =
            (if PrevRevision k > 0 \<and> OldValue k \<noteq> None
             then Some \<lparr>pk_Key = Key k, pk_Value = OldValue k, pk_ModRevision = PrevRevision k,
                        pk_CreateRevision = CreateRevision k, pk_Version = 0, pk_Lease = 0\<rparr>
             else None)\<rparr>)"

definition watchPrefix :: "string \<Rightarrow> string \<Rightarrow> string" where
  "watchPrefix key rangeEnd =
     (if rangeEnd = [] then key
      else if rangeEnd = zero_byte then []
      else if length key > 0 \<and> length rangeEnd = length key then take (length key - 1) key
      else key)"

section \<open>The goroutine of a watch\<close>

text \<open>
  What its \<open>select\<close> can take: the end of its context, a batch of the subscription, a tick of the
  progress ticker.  \<open>ctx_done\<close> says that the context ended while the response waited for room.
  The goroutine returns with the watch id it sends to the receive loop, if there is room there.
\<close>

datatype loop_event = LoopDone | LoopEvents "Event list" | LoopTick

definition maxRev :: "Event list \<Rightarrow> int" where
  "maxRev events = fold (\<lambda>ev m. if Rev (ev_KV ev) > m then Rev (ev_KV ev) else m) events 0"

datatype loop_result = LoopGoOn | LoopReturn | LoopCancelled int

definition watchLoopStep :: "int \<Rightarrow> loop_event \<Rightarrow> bool \<Rightarrow> world
    \<Rightarrow> WatchResponse list \<times> loop_result \<times> world" where
  "watchLoopStep watchID ev ctx_done w =
     (case ev of
        LoopDone \<Rightarrow> ([], LoopReturn, w)
      | LoopEvents events \<Rightarrow>
          (if events = closedSentinel then
             (case Store_compactRevision w of
                (compactRev, _, w1) \<Rightarrow>
                  (if ctx_done then []
                   else [(watchResponse 0 watchID)\<lparr>wr_Canceled := True, wr_CompactRevision := compactRev\<rparr>],
                   LoopCancelled watchID, w1))
           else if ctx_done then ([], LoopReturn, w)
           else ([(watchResponse (maxRev events) watchID)\<lparr>wr_Events := map toWatchEvent events\<rparr>], LoopGoOn, w))
      | LoopTick \<Rightarrow>
          (case Store_CurrentRevision w of
             (curRev, _, w1) \<Rightarrow>
               if ctx_done then ([], LoopReturn, w1) else ([watchResponse curRev watchID], LoopGoOn, w1)))"

fun watchLoop :: "int \<Rightarrow> (loop_event \<times> bool) list \<Rightarrow> world \<Rightarrow> WatchResponse list \<times> loop_result \<times> world" where
  "watchLoop watchID [] w = ([], LoopGoOn, w)"
| "watchLoop watchID ((ev, ctx_done) # evs) w =
     (case watchLoopStep watchID ev ctx_done w of
        (rs, LoopGoOn, w1) \<Rightarrow>
          (case watchLoop watchID evs w1 of (rs', r, w2) \<Rightarrow> (rs @ rs', r, w2))
      | (rs, r, w1) \<Rightarrow> (rs, r, w1))"

section \<open>The receive loop of a stream\<close>

text \<open>
  The loop's variables.  \<open>wv_watches\<close> are the ids in the map \<open>watches\<close>, \<open>wv_cancelled\<close> the watches
  whose context the loop has cancelled, \<open>wv_started\<close> the goroutines it has started, with the
  arguments of their subscriptions.
\<close>

datatype stream_end = Running | Finished "goerr option"

record WatchStream =
  wv_watches :: "int list"
  wv_nextID :: int
  wv_respCh :: "WatchResponse list"
  wv_cancelledCh :: "int list"
  wv_cancelled :: "int list"
  wv_started :: "(int \<times> string \<times> int) list"
  wv_end :: stream_end

definition newStream :: WatchStream where
  "newStream = \<lparr>wv_watches = [], wv_nextID = 0, wv_respCh = [], wv_cancelledCh = [], wv_cancelled = [],
     wv_started = [], wv_end = Running\<rparr>"

definition cancelWatch :: "int \<Rightarrow> WatchStream \<Rightarrow> WatchStream" where
  "cancelWatch wid st =
     (if wid \<in> set (wv_watches st)
      then st\<lparr>wv_watches := removeAll wid (wv_watches st), wv_cancelled := wid # wv_cancelled st\<rparr>
      else st)"

definition drainCancelled :: "WatchStream \<Rightarrow> WatchStream" where
  "drainCancelled st = fold cancelWatch (wv_cancelledCh st) (st\<lparr>wv_cancelledCh := []\<rparr>)"

text \<open>The code after the loop.\<close>

definition endStream :: "goerr option \<Rightarrow> WatchStream \<Rightarrow> WatchStream" where
  "endStream sendErr st =
     st\<lparr>wv_cancelled := wv_watches st @ wv_cancelled st,
        wv_end := Finished
          (case sendErr of
             None \<Rightarrow> None
           | Some e \<Rightarrow> if ErrCode e = Some Canceled then None else Some e)\<rparr>"

datatype send_outcome = Sent | StreamDone | SendFailed goerr

definition respond :: "WatchResponse \<Rightarrow> send_outcome \<Rightarrow> WatchStream \<Rightarrow> WatchStream" where
  "respond r out st =
     (case out of
        Sent \<Rightarrow> st\<lparr>wv_respCh := wv_respCh st @ [r]\<rparr>
      | StreamDone \<Rightarrow> endStream None st
      | SendFailed e \<Rightarrow> endStream (Some e) st)"

datatype stream_event =
    StreamCtxDone
  | StreamSendErr goerr
  | StoreCancelled
  | RecvEOF
  | RecvError goerr
  | Recv RequestUnion send_outcome

text \<open>
  An error of \<open>Recv\<close> other than a cancellation is returned at once: the watches are not cancelled
  by the loop then.
\<close>

definition streamStep :: "stream_event \<Rightarrow> WatchStream \<Rightarrow> WatchStream" where
  "streamStep ev st =
     (case ev of
        StreamCtxDone \<Rightarrow> endStream None st
      | StreamSendErr e \<Rightarrow> endStream (Some e) st
      | StoreCancelled \<Rightarrow>
          (case wv_cancelledCh st of
             [] \<Rightarrow> st
           | wid # rest \<Rightarrow> cancelWatch wid (st\<lparr>wv_cancelledCh := rest\<rparr>))
      | RecvEOF \<Rightarrow> endStream None st
      | RecvError e \<Rightarrow>
          if ErrCode e = Some Canceled then endStream None st else st\<lparr>wv_end := Finished (Some e)\<rparr>
      | Recv req out \<Rightarrow>
          (let st0 = drainCancelled st
           in (case req of
                 CreateRequest cr \<Rightarrow>
                   (let wid = wv_nextID st0;
                        st1 = st0\<lparr>wv_nextID := wrap64 (wid + 1), wv_watches := wv_watches st0 @ [wid]\<rparr>;
                        st2 = respond ((watchResponse 0 wid)\<lparr>wr_Created := True\<rparr>) out st1
                    in if out = Sent
                       then st2\<lparr>wv_started := wv_started st2 @
                              [(wid, watchPrefix (cr_Key cr) (cr_RangeEnd cr), cr_StartRevision cr)]\<rparr>
                       else st2)
               | CancelRequest wid \<Rightarrow>
                   respond ((watchResponse 0 wid)\<lparr>wr_Canceled := True\<rparr>) out (cancelWatch wid st0)
               | ProgressRequest \<Rightarrow> st0)))"

text \<open>What the goroutines of the stream's watches put on the two channels.\<close>

definition watchLoopSend :: "WatchResponse list \<Rightarrow> loop_result \<Rightarrow> WatchStream \<Rightarrow> WatchStream" where
  "watchLoopSend rs res st =
     (let st1 = st\<lparr>wv_respCh := wv_respCh st @ rs\<rparr>
      in (case res of
            LoopCancelled wid \<Rightarrow>
              if length (wv_cancelledCh st1) < 64 then st1\<lparr>wv_cancelledCh := wv_cancelledCh st1 @ [wid]\<rparr> else st1
          | _ \<Rightarrow> st1))"

fun runStream :: "stream_event list \<Rightarrow> WatchStream \<Rightarrow> WatchStream" where
  "runStream [] st = st"
| "runStream (ev # evs) st = (if wv_end st \<noteq> Running then st else runStream evs (streamStep ev st))"

section \<open>Events\<close>

text \<open>
  The event of a row of the log carries the row itself and, when the row replaces an earlier
  one that is still in the log and had a value, exactly that value with its revision and the
  creation revision of the key; the event of a new key carries no previous value, and the event
  is a deletion exactly when the row is a tombstone.
\<close>

theorem watch_event_prev:
  assumes "wf_db db" "r \<in> set (kv db)"
  shows "pe_Type (toWatchEvent (rowEvent r)) = (if r_deleted r then DELETE else PUT) \<and>
    pe_Kv (toWatchEvent (rowEvent r)) = toProtoKV (scanKV r) \<and>
    (r_created r \<longrightarrow> pe_PrevKv (toWatchEvent (rowEvent r)) = None) \<and>
    (\<forall>s \<in> set (kv db). r_key s = r_key r \<and> r_prev_revision r = Some (r_rev s) \<and> r_value s \<noteq> None \<longrightarrow>
       pe_PrevKv (toWatchEvent (rowEvent r)) =
         Some \<lparr>pk_Key = r_key s, pk_Value = r_value s, pk_ModRevision = r_rev s,
               pk_CreateRevision = CreateRevision (scanKV s), pk_Version = 0, pk_Lease = 0\<rparr>)"
proof -
  have r: "wf_row r" by (rule wf_dbD [OF assms])
  have "pe_PrevKv (toWatchEvent (rowEvent r)) =
      Some \<lparr>pk_Key = r_key s, pk_Value = r_value s, pk_ModRevision = r_rev s,
            pk_CreateRevision = CreateRevision (scanKV s), pk_Version = 0, pk_Lease = 0\<rparr>"
    if s: "s \<in> set (kv db)" "r_key s = r_key r" "r_prev_revision r = Some (r_rev s)" "r_value s \<noteq> None" for s
  proof -
    from r s(3) obtain c where c: "r_create_revision r = Some c" "1 < c" "c \<le> r_rev s" "r_rev s < r_rev r"
      "r_rev r < 2 ^ 63"
      by (auto simp: wf_row_def split: option.splits)
    have "pair_ok s r" using assms s(1) by (simp add: wf_db_def wf_rows_def)
    with s(2) c(4) have "follows s r" by (simp add: pair_ok_def)
    with s(3) c have "r_old_value r = r_value s" "r_create_revision s = Some c" by (simp_all add: follows_def)
    with s c show ?thesis
      by (simp add: toWatchEvent_def rowEvent_def scanKV_def Let_def tsToRev_id)
  qed
  moreover have "r_created r \<Longrightarrow> r_prev_revision r = None"
    using r by (auto simp: wf_row_def split: option.splits)
  ultimately show ?thesis
    by (auto simp: toWatchEvent_def rowEvent_def scanKV_def Let_def)
qed

theorem watch_event_prev_witness:
  "\<exists>r \<in> set (kv demo_db). r_key r = ''b'' \<and>
     pe_Type (toWatchEvent (rowEvent r)) = DELETE \<and>
     map_option pk_Value (pe_PrevKv (toWatchEvent (rowEvent r))) = Some (Some ''v'')"
proof -
  let ?r = "demo_row 4 40 ''b'' None (Some ''v'') 0 True 20 (Some 20)"
  let ?s = "demo_row 2 20 ''b'' (Some ''v'') None 0 False 20 None"
  have r: "?r \<in> set (kv demo_db)" "?s \<in> set (kv demo_db)" by (simp_all add: demo_db_def)
  from watch_event_prev [OF wf_demo r(1)] r(2)
  have "pe_Type (toWatchEvent (rowEvent ?r)) = DELETE" "pe_PrevKv (toWatchEvent (rowEvent ?r)) =
      Some \<lparr>pk_Key = r_key ?s, pk_Value = r_value ?s, pk_ModRevision = r_rev ?s,
            pk_CreateRevision = CreateRevision (scanKV ?s), pk_Version = 0, pk_Lease = 0\<rparr>"
    by (auto simp: demo_row_def)
  then show ?thesis using r(1) by (intro bexI [of _ ?r]) (auto simp: demo_row_def)
qed

section \<open>Ranges\<close>

text \<open>
  The range end that stands for all keys with prefix \<open>key\<close>: the last byte that is not the largest
  one is incremented and what follows it dropped.
\<close>

fun prefix_end :: "string \<Rightarrow> string" where
  "prefix_end [] = zero_byte"
| "prefix_end (c # cs) =
     (if \<exists>d \<in> set cs. of_char d \<noteq> (255 :: nat) then c # prefix_end cs
      else if of_char c = (255 :: nat) then zero_byte
      else [char_of (of_char c + 1 :: nat)])"

text \<open>The keys a watch request asks for.\<close>

definition in_range :: "string \<Rightarrow> string \<Rightarrow> string \<Rightarrow> bool" where
  "in_range key rangeEnd k =
     (if rangeEnd = [] then k = key
      else if rangeEnd = zero_byte then key \<le> k
      else key \<le> k \<and> k < rangeEnd)"

lemma of_char_bound: "of_char c \<le> (255 :: nat)"
proof -
  have "of_char c \<in> {0..<256 :: nat}" using range_nat_of_char by blast
  then show ?thesis unfolding atLeastLessThan_iff by linarith
qed

lemma largest_prefix: "\<forall>d \<in> set cs. of_char d = (255 :: nat) \<Longrightarrow> cs \<le> ks \<Longrightarrow> prefix cs ks"
proof (induction cs arbitrary: ks)
  case (Cons c cs)
  then obtain k ks' where ks: "ks = k # ks'" by (cases ks) auto
  have "\<not> c < k" using Cons.prems(1) of_char_bound [of k] by (auto simp: less_char_def)
  then show ?case using Cons ks by auto
qed simp

lemma prefix_range:
  assumes "\<exists>d \<in> set key. of_char d \<noteq> (255 :: nat)" "key \<le> k" "k < prefix_end key"
  shows "prefix key k"
  using assms
proof (induction key arbitrary: k)
  case (Cons c cs)
  then obtain k0 ks where k: "k = k0 # ks" by (cases k) auto
  show ?case
  proof (cases "\<exists>d \<in> set cs. of_char d \<noteq> (255 :: nat)")
    case True
    with Cons.prems k have "k0 = c" "cs \<le> ks" "ks < prefix_end cs" by auto
    with Cons.IH [OF True] k show ?thesis by simp
  next
    case False
    with Cons.prems(1) have "of_char c \<noteq> (255 :: nat)" by auto
    with of_char_bound [of c] have c: "of_char c + 1 < (256 :: nat)" by linarith
    with False Cons.prems(3) k have "k0 < char_of (of_char c + 1 :: nat)" by (auto split: if_splits)
    with c have "\<not> c < k0" by (simp add: less_char_def)
    with Cons.prems(2) k have "k0 = c" "cs \<le> ks" by auto
    with False largest_prefix [of cs ks] k show ?thesis by auto
  qed
qed simp

lemma prefix_end_zero: "prefix_end key = zero_byte \<longleftrightarrow> (\<forall>d \<in> set key. of_char d = (255 :: nat))"
proof (cases key)
  case (Cons c cs)
  have "prefix_end cs \<noteq> []" by (cases cs) (simp_all add: zero_byte_def)
  moreover have "char_of (of_char c + 1 :: nat) \<noteq> CHR 0x00" if "of_char c \<noteq> (255 :: nat)"
  proof
    assume "char_of (of_char c + 1 :: nat) = CHR 0x00"
    then have "of_char (char_of (of_char c + 1 :: nat)) = (0 :: nat)" by simp
    with that of_char_bound [of c] show False by (simp add: of_char_of)
  qed
  ultimately show ?thesis using Cons by (auto simp: zero_byte_def)
qed simp

lemma prefix_TrimSuffix: "prefix (TrimSuffix p s) p"
  by (simp add: TrimSuffix_def take_is_prefix)

lemma watchPrefix_covers:
  assumes "rangeEnd \<in> {[], zero_byte, prefix_end key}" "in_range key rangeEnd k"
  shows "prefix (TrimSuffix (watchPrefix key rangeEnd) ''%'') k"
proof -
  have "prefix key k" if "rangeEnd \<noteq> zero_byte"
    using assms that prefix_range [of key k] prefix_end_zero [of key]
    by (cases "rangeEnd = []") (auto simp: in_range_def)
  then have "prefix (watchPrefix key rangeEnd) k"
    using prefix_order.trans [OF take_is_prefix, of key k] by (auto simp: watchPrefix_def zero_byte_def)
  then show ?thesis using prefix_order.trans [OF prefix_TrimSuffix] by blast
qed



text \<open>
  A prefix range is watched without its last byte, and a single key as a prefix: events of keys
  outside the request are delivered, too.
\<close>

lemma watch_delivers_other_keys:
  "\<not> in_range ''/a/'' (prefix_end ''/a/'') ''/ab''"
  "HasPrefix ''/ab'' (watchPrefix ''/a/'' (prefix_end ''/a/''))"
  "\<not> in_range ''/a'' [] ''/ab''" "HasPrefix ''/ab'' (watchPrefix ''/a'' [])"
  by code_simp+

text \<open>A general range can lose events.\<close>

lemma watch_misses_keys:
  "in_range ''ab'' ''cc'' ''b''" "\<not> HasPrefix ''b'' (watchPrefix ''ab'' ''cc'')"
  by code_simp+

section \<open>The goroutine of a watch\<close>

text \<open>
  The batches it takes before the end of the subscription, or before it stops, reach the client
  in order.
\<close>

fun taken :: "(loop_event \<times> bool) list \<Rightarrow> Event list" where
  "taken [] = []"
| "taken ((LoopDone, d) # evs) = []"
| "taken ((LoopEvents events, d) # evs) = (if events = closedSentinel \<or> d then [] else events @ taken evs)"
| "taken ((LoopTick, d) # evs) = (if d then [] else taken evs)"

lemma watchLoop_forwards:
  "watchLoop watchID evs w = (rs, res, w') \<Longrightarrow>
     concat (map wr_Events rs) = map toWatchEvent (taken evs) \<and> (\<forall>r \<in> set rs. wr_WatchId r = watchID \<and> \<not> wr_Created r)"
proof (induction evs arbitrary: w rs rule: taken.induct)
  case (3 events d evs)
  then show ?case
    by (auto simp: watchLoopStep_def watchResponse_def split: if_splits prod.splits)
next
  case (4 d evs)
  then show ?case
    by (auto simp: watchLoopStep_def watchResponse_def split: if_splits prod.splits)
qed (auto simp: watchLoopStep_def)

text \<open>The announcement of the end becomes one cancelled response with the compaction revision.\<close>

lemma watchLoop_announces_end:
  assumes "wf_db (at_call w)" "ce_err (this_call w) QCompactRev = None"
  shows "watchLoop watchID [(LoopEvents closedSentinel, False)] w =
    ([(watchResponse 0 watchID)\<lparr>wr_Canceled := True, wr_CompactRevision := compact_rev (at_call w)\<rparr>],
     LoopCancelled watchID, served w)"
  using assms by (simp add: watchLoopStep_def compactRevision_eq)

section \<open>The stream\<close>

text \<open>
  The invariant of the receive loop: the ids it hands out are new, the created responses are
  those of the goroutines it started, in that order, and every one of these is still in the map
  or has been cancelled.
\<close>

definition stream_inv :: "WatchStream \<Rightarrow> bool" where
  "stream_inv st \<longleftrightarrow>
     distinct (wv_watches st) \<and> distinct (map fst (wv_started st)) \<and> 0 \<le> wv_nextID st \<and>
     (\<forall>i \<in> set (wv_watches st) \<union> fst ` set (wv_started st). 0 \<le> i \<and> i < wv_nextID st) \<and>
     map wr_WatchId (filter wr_Created (wv_respCh st)) = map fst (wv_started st) \<and>
     fst ` set (wv_started st) \<subseteq> set (wv_watches st) \<union> set (wv_cancelled st)"

text \<open>What can happen to a stream: a turn of its loop, or output of one of its goroutines.\<close>

datatype stream_input = LoopTurn stream_event | FromWatch int "(loop_event \<times> bool) list" world

fun streamInput :: "stream_input \<Rightarrow> WatchStream \<Rightarrow> WatchStream" where
  "streamInput (LoopTurn ev) st = (if wv_end st = Running then streamStep ev st else st)"
| "streamInput (FromWatch watchID evs w) st =
     (case watchLoop watchID evs w of (rs, res, w') \<Rightarrow> watchLoopSend rs res st)"

lemma cancelWatch_inv: "stream_inv st \<Longrightarrow> stream_inv (cancelWatch wid st)"
  by (auto simp: stream_inv_def cancelWatch_def distinct_removeAll)

lemma cancelWatch_fields [simp]:
  "wv_nextID (cancelWatch wid st) = wv_nextID st" "wv_end (cancelWatch wid st) = wv_end st"
  by (simp_all add: cancelWatch_def)

lemma fold_cancelWatch:
  "stream_inv st \<Longrightarrow> stream_inv (fold cancelWatch wids st) \<and> wv_nextID (fold cancelWatch wids st) = wv_nextID st \<and>
     wv_end (fold cancelWatch wids st) = wv_end st"
  by (induction wids arbitrary: st) (simp_all add: cancelWatch_inv)

lemma drainCancelled_inv:
  assumes "stream_inv st"
  shows "stream_inv (drainCancelled st)" "wv_nextID (drainCancelled st) = wv_nextID st"
    "wv_end (drainCancelled st) = wv_end st"
proof -
  have "stream_inv (st\<lparr>wv_cancelledCh := []\<rparr>)" using assms by (simp add: stream_inv_def)
  then show "stream_inv (drainCancelled st)" "wv_nextID (drainCancelled st) = wv_nextID st"
    "wv_end (drainCancelled st) = wv_end st"
    using fold_cancelWatch by (simp_all add: drainCancelled_def)
qed

lemma endStream_inv: "stream_inv st \<Longrightarrow> stream_inv (endStream e st)"
  by (auto simp: stream_inv_def endStream_def)

lemma register_inv:
  assumes "stream_inv st" "n = wv_nextID st"
  shows "stream_inv (st\<lparr>wv_nextID := n + 1, wv_watches := wv_watches st @ [n]\<rparr>)" "n \<notin> fst ` set (wv_started st)"
proof -
  have b: "0 \<le> i \<and> i < n" if "i \<in> set (wv_watches st) \<union> fst ` set (wv_started st)" for i
    using assms that by (simp add: stream_inv_def)
  from b [of n] have new: "n \<notin> set (wv_watches st) \<union> fst ` set (wv_started st)" by blast
  then show "n \<notin> fst ` set (wv_started st)" by simp
  have "\<forall>i \<in> set (wv_watches st @ [n]) \<union> fst ` set (wv_started st). 0 \<le> i \<and> i < n + 1"
    using assms b by (fastforce simp: stream_inv_def)
  then show "stream_inv (st\<lparr>wv_nextID := n + 1, wv_watches := wv_watches st @ [n]\<rparr>)"
    using assms new by (simp add: stream_inv_def) blast
qed

lemma started_inv:
  assumes "stream_inv st" "n \<in> set (wv_watches st)" "n \<notin> fst ` set (wv_started st)" "wr_Created r" "wr_WatchId r = n"
  shows "stream_inv (st\<lparr>wv_respCh := wv_respCh st @ [r], wv_started := wv_started st @ [(n, x)]\<rparr>)"
  using assms by (simp add: stream_inv_def)

lemma create_inv:
  assumes "stream_inv st" "wv_nextID st + 1 < 2 ^ 63"
  shows "stream_inv (streamStep (Recv (CreateRequest cr) out) st)"
proof -
  let ?st0 = "drainCancelled st" and ?n = "wv_nextID st"
  let ?st1 = "?st0\<lparr>wv_nextID := ?n + 1, wv_watches := wv_watches ?st0 @ [?n]\<rparr>"
  note d = drainCancelled_inv [OF assms(1)]
  have w: "wrap64 (?n + 1) = ?n + 1" using assms by (intro wrap64_id) (auto simp: stream_inv_def in_int64_def)
  note st1 = register_inv [OF d(1) d(2) [symmetric]]
  show ?thesis
  proof (cases out)
    case Sent
    have "stream_inv (?st1\<lparr>wv_respCh := wv_respCh ?st1 @ [(watchResponse 0 ?n)\<lparr>wr_Created := True\<rparr>],
        wv_started := wv_started ?st1 @ [(?n, watchPrefix (cr_Key cr) (cr_RangeEnd cr), cr_StartRevision cr)]\<rparr>)"
      using st1 by (intro started_inv) (simp_all add: watchResponse_def)
    with Sent show ?thesis by (simp add: streamStep_def Let_def respond_def d(2) w)
  next
    case StreamDone
    then show ?thesis using endStream_inv [OF st1(1), of None] by (simp add: streamStep_def Let_def respond_def d(2) w)
  next
    case (SendFailed e)
    then show ?thesis using endStream_inv [OF st1(1), of "Some e"] by (simp add: streamStep_def Let_def respond_def d(2) w)
  qed
qed

lemma cancel_inv:
  assumes "stream_inv st"
  shows "stream_inv (streamStep (Recv (CancelRequest wid) out) st)"
proof -
  have "stream_inv (cancelWatch wid (drainCancelled st))" (is "stream_inv ?st")
    using assms by (intro cancelWatch_inv drainCancelled_inv)
  moreover from this have "stream_inv (?st\<lparr>wv_respCh := wv_respCh ?st @ [(watchResponse 0 wid)\<lparr>wr_Canceled := True\<rparr>]\<rparr>)"
    by (simp add: stream_inv_def watchResponse_def)
  ultimately show ?thesis
    by (cases out) (simp_all add: streamStep_def respond_def endStream_inv Let_def)
qed

text \<open>
  On a watch stream, whatever requests, errors and store-side cancellations come in which
  order, every watch has its own id, the client is told of the creation of exactly the watches
  that were started, in the order they were started, and no started watch is forgotten: it is
  registered or it has been cancelled.
\<close>

theorem stream_invariant:
  assumes "stream_inv st" "wv_nextID st + 1 < 2 ^ 63"
  shows "stream_inv (streamInput input st)"
proof (cases input)
  case (FromWatch watchID evs w)
  obtain rs res w' where l: "watchLoop watchID evs w = (rs, res, w')" by (rule prod_cases3)
  have "filter wr_Created rs = []" using watchLoop_forwards [OF l] by (auto simp: filter_empty_conv)
  then show ?thesis
    using assms(1) FromWatch l by (cases res) (simp_all add: stream_inv_def watchLoopSend_def Let_def)
next
  case (LoopTurn ev)
  have "stream_inv (streamStep ev st)" if run: "wv_end st = Running"
  proof (cases ev)
    case StoreCancelled
    have "stream_inv (st\<lparr>wv_cancelledCh := xs\<rparr>)" for xs using assms(1) by (simp add: stream_inv_def)
    then show ?thesis
      using StoreCancelled assms(1) by (auto simp: streamStep_def intro: cancelWatch_inv split: list.splits)
  next
    case (Recv req out)
    then show ?thesis
      using assms create_inv [OF assms] cancel_inv drainCancelled_inv
      by (cases req) (simp_all add: streamStep_def Let_def)
  qed (use assms(1) in \<open>simp_all add: streamStep_def endStream_inv\<close>, simp add: stream_inv_def)
  with LoopTurn assms(1) show ?thesis by simp
qed

theorem stream_invariant_witness:
  "stream_inv newStream \<and>
   stream_inv (streamInput (LoopTurn (Recv (CreateRequest \<lparr>cr_Key = ''a'', cr_RangeEnd = [], cr_StartRevision = 0\<rparr>) Sent)) newStream)"
proof -
  have i: "stream_inv newStream" by (simp add: stream_inv_def newStream_def)
  have n: "wv_nextID newStream + 1 < 2 ^ 63" by (simp add: newStream_def)
  from i stream_invariant [OF i n] show ?thesis by blast
qed

text \<open>When the loop ends in any way but an error of \<open>Recv\<close>, nothing is left running.\<close>

lemma stream_end_cancels:
  "stream_inv st \<Longrightarrow> fst ` set (wv_started (endStream e st)) \<subseteq> set (wv_cancelled (endStream e st))"
  by (auto simp: endStream_def stream_inv_def)

end
