(* ===== verification/Stream_Steps.thy ===== *)
theory Stream_Steps
  imports WatchServer
begin

text \<open>
  One watch stream of \<open>pkg/server/watch.go\<close> with its goroutines interleaved: the receive loop of
  \<open>Watch\<close>, the goroutine that calls \<open>Send\<close>, the one that calls \<open>Recv\<close>, one goroutine per watch, and
  the two that pass the end of the stream's context on to the context of a watch
  (\<open>pkg/server/helpers.go\<close>).  A step is what one of them does between two points where it can block.
  What the client, gRPC and the subscriptions do are steps of the environment.
\<close>

section \<open>State\<close>

datatype recv_result = RecvReq RequestUnion | RecvErr goerr | RecvEnd

text \<open>
  Where each goroutine is.  The receive loop waits to send a response with the watch it starts
  afterwards, if any; the goroutine of a watch with whether it ends afterwards.
\<close>

datatype main_pc = MainSelect | MainSend WatchResponse "(int \<times> string \<times> int) option" | MainDone "goerr option"

datatype sender_pc = SenderSelect | SenderSend WatchResponse | SenderDone

datatype receiver_pc = ReceiverRecv | ReceiverPut recv_result | ReceiverDone

datatype loop_pc = LoopUnborn | LoopSelect | LoopSend WatchResponse bool | LoopNotify | LoopEnded

text \<open>
  \<open>ss_watchCtx\<close> and \<open>ss_stdCtx\<close> say which watches have a done context, as the receive loop made it
  and as the goroutine of the watch derived its own from it.
\<close>

record stream_sys =
  ss_main :: main_pc
  ss_sender :: sender_pc
  ss_receiver :: receiver_pc
  ss_loop :: "int \<Rightarrow> loop_pc"
  ss_watches :: "int list"
  ss_nextID :: int
  ss_respCh :: "WatchResponse list"
  ss_cancelledCh :: "int list"
  ss_sendErrCh :: "goerr option"
  ss_reqCh :: "recv_result option"
  ss_ctxDone :: bool
  ss_watchCtx :: "int \<Rightarrow> bool"
  ss_stdCtx :: "int \<Rightarrow> bool"
  ss_world :: world

definition respChDepth :: nat where
  "respChDepth = 64"

definition init_stream :: "world \<Rightarrow> stream_sys" where
  "init_stream w =
     \<lparr>ss_main = MainSelect, ss_sender = SenderSelect, ss_receiver = ReceiverRecv, ss_loop = (\<lambda>_. LoopUnborn),
      ss_watches = [], ss_nextID = 0, ss_respCh = [], ss_cancelledCh = [], ss_sendErrCh = None, ss_reqCh = None,
      ss_ctxDone = False, ss_watchCtx = (\<lambda>_. False), ss_stdCtx = (\<lambda>_. False), ss_world = w\<rparr>"

section \<open>The receive loop\<close>

definition cancelEntry :: "int \<Rightarrow> stream_sys \<Rightarrow> stream_sys" where
  "cancelEntry wid sys =
     (if wid \<in> set (ss_watches sys)
      then sys\<lparr>ss_watches := removeAll wid (ss_watches sys), ss_watchCtx := (ss_watchCtx sys)(wid := True)\<rparr>
      else sys)"

text \<open>The code after the loop.\<close>

definition endMain :: "goerr option \<Rightarrow> stream_sys \<Rightarrow> stream_sys" where
  "endMain sendErr sys =
     sys\<lparr>ss_watchCtx := (\<lambda>i. i \<in> set (ss_watches sys) \<or> ss_watchCtx sys i),
         ss_main := MainDone
           (case sendErr of None \<Rightarrow> None | Some e \<Rightarrow> if ErrCode e = Some Canceled then None else Some e)\<rparr>"

definition handleRequest :: "RequestUnion \<Rightarrow> stream_sys \<Rightarrow> stream_sys" where
  "handleRequest req sys0 =
     (let sys = fold cancelEntry (ss_cancelledCh sys0) (sys0\<lparr>ss_cancelledCh := []\<rparr>)
      in (case req of
            CreateRequest cr \<Rightarrow>
              (let wid = ss_nextID sys
               in sys\<lparr>ss_nextID := wrap64 (wid + 1), ss_watches := List.insert wid (ss_watches sys),
                      ss_watchCtx := (ss_watchCtx sys)(wid := False),
                      ss_main := MainSend ((watchResponse 0 wid)\<lparr>wr_Created := True\<rparr>)
                        (Some (wid, watchPrefix (cr_Key cr) (cr_RangeEnd cr), cr_StartRevision cr))\<rparr>)
          | CancelRequest wid \<Rightarrow>
              (cancelEntry wid sys)\<lparr>ss_main := MainSend ((watchResponse 0 wid)\<lparr>wr_Canceled := True\<rparr>) None\<rparr>
          | ProgressRequest \<Rightarrow> sys))"

definition mainTakesReq :: "stream_sys \<Rightarrow> stream_sys option" where
  "mainTakesReq sys =
     (case (ss_main sys, ss_reqCh sys) of
        (MainSelect, Some rr) \<Rightarrow>
          (let sys0 = sys\<lparr>ss_reqCh := None\<rparr>
           in Some (case rr of
                      RecvEnd \<Rightarrow> endMain None sys0
                    | RecvErr e \<Rightarrow>
                        if ErrCode e = Some Canceled then endMain None sys0
                        else sys0\<lparr>ss_main := MainDone (Some e)\<rparr>
                    | RecvReq req \<Rightarrow> handleRequest req sys0))
      | _ \<Rightarrow> None)"

definition mainTakesCancelled :: "stream_sys \<Rightarrow> stream_sys option" where
  "mainTakesCancelled sys =
     (case (ss_main sys, ss_cancelledCh sys) of
        (MainSelect, wid # rest) \<Rightarrow> Some (cancelEntry wid (sys\<lparr>ss_cancelledCh := rest\<rparr>))
      | _ \<Rightarrow> None)"

text \<open>The two ways out that both \<open>select\<close> statements of the loop have.\<close>

definition mainTakesCtx :: "stream_sys \<Rightarrow> stream_sys option" where
  "mainTakesCtx sys =
     (case ss_main sys of
        MainDone e \<Rightarrow> None
      | _ \<Rightarrow> if ss_ctxDone sys then Some (endMain None sys) else None)"

definition mainTakesSendErr :: "stream_sys \<Rightarrow> stream_sys option" where
  "mainTakesSendErr sys =
     (case (ss_main sys, ss_sendErrCh sys) of
        (MainDone e, _) \<Rightarrow> None
      | (_, None) \<Rightarrow> None
      | (_, Some e) \<Rightarrow> Some (endMain (Some e) (sys\<lparr>ss_sendErrCh := None\<rparr>)))"

definition mainSends :: "stream_sys \<Rightarrow> stream_sys option" where
  "mainSends sys =
     (case ss_main sys of
        MainSend r st \<Rightarrow>
          if length (ss_respCh sys) < respChDepth
          then Some (sys\<lparr>ss_respCh := ss_respCh sys @ [r], ss_main := MainSelect,
                 ss_loop := (case st of None \<Rightarrow> ss_loop sys | Some (wid, _) \<Rightarrow> (ss_loop sys)(wid := LoopSelect)),
                 ss_stdCtx := (case st of None \<Rightarrow> ss_stdCtx sys | Some (wid, _) \<Rightarrow> (ss_stdCtx sys)(wid := False))\<rparr>)
          else None
      | _ \<Rightarrow> None)"

section \<open>The goroutines that send and receive\<close>

definition senderTakes :: "stream_sys \<Rightarrow> stream_sys option" where
  "senderTakes sys =
     (case (ss_sender sys, ss_respCh sys) of
        (SenderSelect, r # rs) \<Rightarrow> Some (sys\<lparr>ss_sender := SenderSend r, ss_respCh := rs\<rparr>)
      | _ \<Rightarrow> None)"

text \<open>\<open>Send\<close> returns; an error is left for the receive loop if there is room.\<close>

definition senderReturns :: "goerr option \<Rightarrow> stream_sys \<Rightarrow> stream_sys option" where
  "senderReturns err sys =
     (case ss_sender sys of
        SenderSend r \<Rightarrow>
          Some (case err of
                  None \<Rightarrow> sys\<lparr>ss_sender := SenderSelect\<rparr>
                | Some e \<Rightarrow>
                    sys\<lparr>ss_sender := SenderDone,
                        ss_sendErrCh := (if ss_sendErrCh sys = None then Some e else ss_sendErrCh sys)\<rparr>)
      | _ \<Rightarrow> None)"

definition senderEnds :: "stream_sys \<Rightarrow> stream_sys option" where
  "senderEnds sys =
     (if ss_sender sys = SenderSelect \<and> ss_ctxDone sys then Some (sys\<lparr>ss_sender := SenderDone\<rparr>) else None)"

definition receiverGets :: "recv_result \<Rightarrow> stream_sys \<Rightarrow> stream_sys option" where
  "receiverGets rr sys =
     (if ss_receiver sys = ReceiverRecv then Some (sys\<lparr>ss_receiver := ReceiverPut rr\<rparr>) else None)"

definition receiverPuts :: "stream_sys \<Rightarrow> stream_sys option" where
  "receiverPuts sys =
     (case (ss_receiver sys, ss_reqCh sys) of
        (ReceiverPut rr, None) \<Rightarrow>
          Some (sys\<lparr>ss_reqCh := Some rr,
                    ss_receiver := (case rr of RecvReq req \<Rightarrow> ReceiverRecv | _ \<Rightarrow> ReceiverDone)\<rparr>)
      | _ \<Rightarrow> None)"

definition receiverEnds :: "stream_sys \<Rightarrow> stream_sys option" where
  "receiverEnds sys =
     (case ss_receiver sys of
        ReceiverPut rr \<Rightarrow> if ss_ctxDone sys then Some (sys\<lparr>ss_receiver := ReceiverDone\<rparr>) else None
      | _ \<Rightarrow> None)"

section \<open>The contexts and the goroutine of a watch\<close>

text \<open>The goroutine of the first helper runs from the creation of a watch on, the other one with its loop.\<close>

definition contextWithCancel :: "int \<Rightarrow> stream_sys \<Rightarrow> stream_sys option" where
  "contextWithCancel wid sys =
     (if 0 \<le> wid \<and> wid < ss_nextID sys \<and> ss_ctxDone sys \<and> \<not> ss_watchCtx sys wid
      then Some (sys\<lparr>ss_watchCtx := (ss_watchCtx sys)(wid := True)\<rparr>) else None)"

definition streamContextWithCancel :: "int \<Rightarrow> stream_sys \<Rightarrow> stream_sys option" where
  "streamContextWithCancel wid sys =
     (if ss_loop sys wid \<noteq> LoopUnborn \<and> ss_watchCtx sys wid \<and> \<not> ss_stdCtx sys wid
      then Some (sys\<lparr>ss_stdCtx := (ss_stdCtx sys)(wid := True)\<rparr>) else None)"

text \<open>The goroutine returns; the deferred call cancels the context of its subscription.\<close>

definition loopReturns :: "int \<Rightarrow> stream_sys \<Rightarrow> stream_sys" where
  "loopReturns wid sys =
     sys\<lparr>ss_loop := (ss_loop sys)(wid := LoopEnded), ss_stdCtx := (ss_stdCtx sys)(wid := True)\<rparr>"

text \<open>Its \<open>select\<close> takes an event; the response is the one \<open>watchLoopStep\<close> makes of it.\<close>

definition loopTakes :: "int \<Rightarrow> loop_event \<Rightarrow> stream_sys \<Rightarrow> stream_sys option" where
  "loopTakes wid ev sys =
     (if ss_loop sys wid \<noteq> LoopSelect then None
      else if ev = LoopDone then (if ss_stdCtx sys wid then Some (loopReturns wid sys) else None)
      else
        (case watchLoopStep wid ev False (ss_world sys) of
           (rs, res, w) \<Rightarrow>
             Some (sys\<lparr>ss_world := w, ss_loop := (ss_loop sys)(wid := LoopSend (hd rs) (res \<noteq> LoopGoOn))\<rparr>)))"

definition afterSend :: "int \<Rightarrow> bool \<Rightarrow> stream_sys \<Rightarrow> stream_sys" where
  "afterSend wid ends sys = sys\<lparr>ss_loop := (ss_loop sys)(wid := (if ends then LoopNotify else LoopSelect))\<rparr>"

definition loopSends :: "int \<Rightarrow> stream_sys \<Rightarrow> stream_sys option" where
  "loopSends wid sys =
     (case ss_loop sys wid of
        LoopSend r ends \<Rightarrow>
          if length (ss_respCh sys) < respChDepth
          then Some (afterSend wid ends (sys\<lparr>ss_respCh := ss_respCh sys @ [r]\<rparr>)) else None
      | _ \<Rightarrow> None)"

definition loopGivesUp :: "int \<Rightarrow> stream_sys \<Rightarrow> stream_sys option" where
  "loopGivesUp wid sys =
     (case ss_loop sys wid of
        LoopSend r ends \<Rightarrow>
          if ss_stdCtx sys wid then Some (if ends then afterSend wid True sys else loopReturns wid sys) else None
      | _ \<Rightarrow> None)"

definition loopNotifies :: "int \<Rightarrow> stream_sys \<Rightarrow> stream_sys option" where
  "loopNotifies wid sys =
     (if ss_loop sys wid = LoopNotify
      then Some (loopReturns wid
             (if length (ss_cancelledCh sys) < 64 then sys\<lparr>ss_cancelledCh := ss_cancelledCh sys @ [wid]\<rparr> else sys))
      else None)"

section \<open>Runs\<close>

datatype stream_step =
    CtxEnds
  | MainTakesReq | MainTakesCancelled | MainTakesCtx | MainTakesSendErr | MainSends
  | SenderTakes | SenderReturns "goerr option" | SenderEnds
  | ReceiverGets recv_result | ReceiverPuts | ReceiverEnds
  | WatchCtxEnds int | StdCtxEnds int
  | LoopTakes int loop_event | LoopSends int | LoopGivesUp int | LoopNotifies int
  | WorldChanges world

fun sexec :: "stream_step \<Rightarrow> stream_sys \<Rightarrow> stream_sys option" where
  "sexec CtxEnds sys = Some (sys\<lparr>ss_ctxDone := True\<rparr>)"
| "sexec MainTakesReq sys = mainTakesReq sys"
| "sexec MainTakesCancelled sys = mainTakesCancelled sys"
| "sexec MainTakesCtx sys = mainTakesCtx sys"
| "sexec MainTakesSendErr sys = mainTakesSendErr sys"
| "sexec MainSends sys = mainSends sys"
| "sexec SenderTakes sys = senderTakes sys"
| "sexec (SenderReturns err) sys = senderReturns err sys"
| "sexec SenderEnds sys = senderEnds sys"
| "sexec (ReceiverGets rr) sys = receiverGets rr sys"
| "sexec ReceiverPuts sys = receiverPuts sys"
| "sexec ReceiverEnds sys = receiverEnds sys"
| "sexec (WatchCtxEnds wid) sys = contextWithCancel wid sys"
| "sexec (StdCtxEnds wid) sys = streamContextWithCancel wid sys"
| "sexec (LoopTakes wid ev) sys = loopTakes wid ev sys"
| "sexec (LoopSends wid) sys = loopSends wid sys"
| "sexec (LoopGivesUp wid) sys = loopGivesUp wid sys"
| "sexec (LoopNotifies wid) sys = loopNotifies wid sys"
| "sexec (WorldChanges w) sys = Some (sys\<lparr>ss_world := w\<rparr>)"

text \<open>
  What has happened: the responses put on the channel and those the client was sent, the watches
  started, the number of create requests, and the batches each watch took from its subscription.
\<close>

record stream_hist =
  sh_put :: "WatchResponse list"
  sh_client :: "WatchResponse list"
  sh_started :: "(int \<times> string \<times> int) list"
  sh_creates :: nat
  sh_taken :: "int \<Rightarrow> Event list list"

definition no_stream_hist :: stream_hist where
  "no_stream_hist = \<lparr>sh_put = [], sh_client = [], sh_started = [], sh_creates = 0, sh_taken = (\<lambda>_. [])\<rparr>"

fun snote :: "stream_step \<Rightarrow> stream_sys \<Rightarrow> stream_hist \<Rightarrow> stream_hist" where
  "snote MainTakesReq sys h =
     (case ss_reqCh sys of
        Some (RecvReq (CreateRequest cr)) \<Rightarrow> h\<lparr>sh_creates := Suc (sh_creates h)\<rparr>
      | _ \<Rightarrow> h)"
| "snote MainSends sys h =
     (case ss_main sys of
        MainSend r st \<Rightarrow>
          h\<lparr>sh_put := sh_put h @ [r], sh_started := sh_started h @ (case st of None \<Rightarrow> [] | Some x \<Rightarrow> [x])\<rparr>
      | _ \<Rightarrow> h)"
| "snote (SenderReturns None) sys h =
     (case ss_sender sys of SenderSend r \<Rightarrow> h\<lparr>sh_client := sh_client h @ [r]\<rparr> | _ \<Rightarrow> h)"
| "snote (LoopTakes wid (LoopEvents events)) sys h =
     h\<lparr>sh_taken := (sh_taken h)(wid := sh_taken h wid @ [events])\<rparr>"
| "snote (LoopSends wid) sys h =
     (case ss_loop sys wid of LoopSend r ends \<Rightarrow> h\<lparr>sh_put := sh_put h @ [r]\<rparr> | _ \<Rightarrow> h)"
| "snote _ sys h = h"

inductive sreach :: "stream_sys \<Rightarrow> stream_hist \<Rightarrow> bool" where
  sreach_start: "sreach (init_stream w) no_stream_hist"
| sreach_step: "sreach sys h \<Longrightarrow> sexec st sys = Some sys' \<Longrightarrow> sreach sys' (snote st sys h)"

fun srun :: "stream_step list \<Rightarrow> stream_sys \<Rightarrow> stream_hist \<Rightarrow> (stream_sys \<times> stream_hist) option" where
  "srun [] sys h = Some (sys, h)"
| "srun (st # sts) sys h = (case sexec st sys of None \<Rightarrow> None | Some sys' \<Rightarrow> srun sts sys' (snote st sys h))"

section \<open>The invariant\<close>

definition started :: "stream_hist \<Rightarrow> int set" where
  "started h = fst ` set (sh_started h)"

text \<open>
  Between the client and the channel there is at most the response the sender holds, or the one
  whose \<open>Send\<close> failed.
\<close>

definition chan_inv :: "stream_sys \<Rightarrow> stream_hist \<Rightarrow> bool" where
  "chan_inv sys h \<longleftrightarrow>
     (\<exists>held. sh_put h = sh_client h @ held @ ss_respCh sys \<and>
        (case ss_sender sys of SenderSelect \<Rightarrow> held = [] | SenderSend r \<Rightarrow> held = [r] | SenderDone \<Rightarrow> length held \<le> 1)) \<and>
     length (ss_respCh sys) \<le> respChDepth \<and> length (ss_cancelledCh sys) \<le> 64"

fun main_ok :: "main_pc \<Rightarrow> int set \<Rightarrow> int set \<Rightarrow> bool" where
  "main_ok (MainSend r None) ids watches \<longleftrightarrow> wr_Events r = [] \<and> \<not> wr_Created r"
| "main_ok (MainSend r (Some (wid, x))) ids watches \<longleftrightarrow>
     wr_Events r = [] \<and> wr_Created r \<and> wr_WatchId r = wid \<and> wid \<notin> ids \<and> wid \<in> watches"
| "main_ok pc ids watches \<longleftrightarrow> True"

definition pending_ok :: "stream_sys \<Rightarrow> stream_hist \<Rightarrow> bool" where
  "pending_ok sys h \<longleftrightarrow>
     main_ok (ss_main sys) (started h) (set (ss_watches sys)) \<and>
     (\<forall>wid r ends. ss_loop sys wid = LoopSend r ends \<longrightarrow> \<not> wr_Created r \<and> wr_WatchId r = wid)"

definition id_inv :: "stream_sys \<Rightarrow> stream_hist \<Rightarrow> bool" where
  "id_inv sys h \<longleftrightarrow>
     ss_nextID sys = int (sh_creates h) \<and> distinct (map fst (sh_started h)) \<and>
     (\<forall>wid. wid \<in> set (ss_watches sys) \<or> wid \<in> started h \<longrightarrow> 0 \<le> wid \<and> wid < ss_nextID sys) \<and>
     map wr_WatchId (filter wr_Created (sh_put h)) = map fst (sh_started h) \<and>
     (\<forall>wid. ss_loop sys wid \<noteq> LoopUnborn \<longleftrightarrow> wid \<in> started h) \<and>
     (\<forall>wid. wid \<in> started h \<longrightarrow> wid \<in> set (ss_watches sys) \<or> ss_watchCtx sys wid)"

definition events_for :: "int \<Rightarrow> WatchResponse list \<Rightarrow> pb_Event list" where
  "events_for wid rs = concat (map wr_Events (filter (\<lambda>r. wr_WatchId r = wid) rs))"

text \<open>The events of a watch that are on the channel or beyond, and those its goroutine still holds.\<close>

fun rest_ok :: "loop_pc \<Rightarrow> pb_Event list \<Rightarrow> bool" where
  "rest_ok (LoopSend r ends) rest \<longleftrightarrow> rest = wr_Events r"
| "rest_ok LoopSelect rest \<longleftrightarrow> rest = []"
| "rest_ok LoopUnborn rest \<longleftrightarrow> rest = []"
| "rest_ok pc rest \<longleftrightarrow> True"

definition event_inv :: "stream_sys \<Rightarrow> stream_hist \<Rightarrow> int \<Rightarrow> bool" where
  "event_inv sys h wid \<longleftrightarrow>
     (\<exists>rest. events_for wid (sh_put h) @ rest = map toWatchEvent (concat (sh_taken h wid)) \<and>
        rest_ok (ss_loop sys wid) rest)"

definition created_first :: "WatchResponse list \<Rightarrow> bool" where
  "created_first rs \<longleftrightarrow>
     (\<forall>n < length rs. wr_Events (rs ! n) \<noteq> [] \<longrightarrow>
        (\<exists>m < n. wr_Created (rs ! m) \<and> wr_WatchId (rs ! m) = wr_WatchId (rs ! n)))"

definition sinv :: "stream_sys \<Rightarrow> stream_hist \<Rightarrow> bool" where
  "sinv sys h \<longleftrightarrow> chan_inv sys h \<and> pending_ok sys h \<and> id_inv sys h \<and> (\<forall>wid. event_inv sys h wid) \<and>
     created_first (sh_put h)"

subsection \<open>Helpers\<close>

lemma events_for_simps [simp]:
  "events_for wid [] = []" "events_for wid (rs @ rs') = events_for wid rs @ events_for wid rs'"
  "events_for wid [r] = (if wr_WatchId r = wid then wr_Events r else [])"
  by (simp_all add: events_for_def)

lemma created_first_snoc:
  assumes "created_first rs" "wr_Events r \<noteq> [] \<Longrightarrow> wr_WatchId r \<in> set (map wr_WatchId (filter wr_Created rs))"
  shows "created_first (rs @ [r])"
  unfolding created_first_def
proof (intro allI impI)
  fix n assume n: "n < length (rs @ [r])" "wr_Events ((rs @ [r]) ! n) \<noteq> []"
  show "\<exists>m < n. wr_Created ((rs @ [r]) ! m) \<and> wr_WatchId ((rs @ [r]) ! m) = wr_WatchId ((rs @ [r]) ! n)"
  proof (cases "n < length rs")
    case True
    with n assms(1) obtain m where "m < n" "wr_Created (rs ! m)" "wr_WatchId (rs ! m) = wr_WatchId (rs ! n)"
      by (auto simp: created_first_def nth_append)
    with True show ?thesis by (intro exI [of _ m]) (simp add: nth_append)
  next
    case False
    with n have nl: "n = length rs" "wr_Events r \<noteq> []" by (auto simp: nth_append)
    with assms(2) obtain x where x: "x \<in> set rs" "wr_Created x" "wr_WatchId x = wr_WatchId r" by auto
    then obtain m where "m < length rs" "rs ! m = x" by (auto simp: in_set_conv_nth)
    with nl x show ?thesis by (intro exI [of _ m]) (simp add: nth_append)
  qed
qed

lemma created_first_prefix:
  assumes "created_first (rs @ rs')"
  shows "created_first rs"
  unfolding created_first_def
proof (intro allI impI)
  fix n assume n: "n < length rs" "wr_Events (rs ! n) \<noteq> []"
  then have "n < length (rs @ rs')" "wr_Events ((rs @ rs') ! n) \<noteq> []" by (simp_all add: nth_append)
  with assms obtain m where m: "m < n" "wr_Created ((rs @ rs') ! m)" "wr_WatchId ((rs @ rs') ! m) = wr_WatchId ((rs @ rs') ! n)"
    unfolding created_first_def by blast
  then have "m < length rs" using n(1) by simp
  with m n(1) show "\<exists>m < n. wr_Created (rs ! m) \<and> wr_WatchId (rs ! m) = wr_WatchId (rs ! n)"
    by (intro exI [of _ m]) (simp add: nth_append)
qed

text \<open>Cancelling entries changes the map and the contexts only, and loses no watch.\<close>

definition only_cancels :: "stream_sys \<Rightarrow> stream_sys \<Rightarrow> bool" where
  "only_cancels sys sys' \<longleftrightarrow>
     (\<exists>ws cs. sys' = sys\<lparr>ss_watches := ws, ss_watchCtx := cs\<rparr> \<and> set ws \<subseteq> set (ss_watches sys) \<and>
        (\<forall>i. ss_watchCtx sys i \<longrightarrow> cs i) \<and> (\<forall>i \<in> set (ss_watches sys). i \<in> set ws \<or> cs i))"

lemma only_cancels_refl: "only_cancels sys sys"
  unfolding only_cancels_def
  by (intro exI [of _ "ss_watches sys"] exI [of _ "ss_watchCtx sys"]) simp

lemma only_cancels_trans:
  assumes "only_cancels s1 s2" "only_cancels s2 s3"
  shows "only_cancels s1 s3"
proof -
  from assms obtain ws cs ws' cs' where
    "s2 = s1\<lparr>ss_watches := ws, ss_watchCtx := cs\<rparr>" "set ws \<subseteq> set (ss_watches s1)"
    "\<forall>i. ss_watchCtx s1 i \<longrightarrow> cs i" "\<forall>i \<in> set (ss_watches s1). i \<in> set ws \<or> cs i"
    "s3 = s2\<lparr>ss_watches := ws', ss_watchCtx := cs'\<rparr>" "set ws' \<subseteq> set (ss_watches s2)"
    "\<forall>i. ss_watchCtx s2 i \<longrightarrow> cs' i" "\<forall>i \<in> set (ss_watches s2). i \<in> set ws' \<or> cs' i"
    unfolding only_cancels_def by metis
  then show ?thesis unfolding only_cancels_def by (intro exI [of _ ws'] exI [of _ cs']) auto
qed

lemma cancelEntry_only: "only_cancels sys (cancelEntry wid sys)"
proof (cases "wid \<in> set (ss_watches sys)")
  case True
  then show ?thesis
    unfolding only_cancels_def cancelEntry_def
    by (intro exI [of _ "removeAll wid (ss_watches sys)"] exI [of _ "(ss_watchCtx sys)(wid := True)"]) auto
qed (simp add: cancelEntry_def only_cancels_refl)

lemma drain_only: "only_cancels sys (fold cancelEntry wids sys)"
  by (induction wids arbitrary: sys) (auto intro: only_cancels_refl only_cancels_trans cancelEntry_only)

lemma endMain_only: "\<exists>e. only_cancels (sys\<lparr>ss_main := MainDone e\<rparr>) (endMain err sys)"
  unfolding only_cancels_def endMain_def
  by (intro exI [of _ "case err of None \<Rightarrow> None | Some e \<Rightarrow> if ErrCode e = Some Canceled then None else Some e"]
      exI [of _ "ss_watches sys"] exI [of _ "\<lambda>i. i \<in> set (ss_watches sys) \<or> ss_watchCtx sys i"]) simp

lemma only_cancelsD:
  assumes "only_cancels sys sys'"
  shows "ss_main sys' = ss_main sys" "ss_sender sys' = ss_sender sys" "ss_receiver sys' = ss_receiver sys"
    "ss_loop sys' = ss_loop sys" "ss_nextID sys' = ss_nextID sys" "ss_respCh sys' = ss_respCh sys"
    "ss_cancelledCh sys' = ss_cancelledCh sys" "ss_sendErrCh sys' = ss_sendErrCh sys" "ss_reqCh sys' = ss_reqCh sys"
    "ss_ctxDone sys' = ss_ctxDone sys" "ss_stdCtx sys' = ss_stdCtx sys"
    "set (ss_watches sys') \<subseteq> set (ss_watches sys)" "ss_watchCtx sys i \<Longrightarrow> ss_watchCtx sys' i"
    "i \<in> set (ss_watches sys) \<Longrightarrow> i \<in> set (ss_watches sys') \<or> ss_watchCtx sys' i"
  using assms unfolding only_cancels_def by auto

lemma watchLoopStep_response:
  assumes "watchLoopStep wid ev False w = (rs, res, w')" "ev \<noteq> LoopDone"
  shows "wr_WatchId (hd rs) = wid" "\<not> wr_Created (hd rs)"
    "wr_Events (hd rs) = (case ev of LoopEvents events \<Rightarrow> map toWatchEvent events | _ \<Rightarrow> [])"
  using assms
  by (auto simp: watchLoopStep_def watchResponse_def closedSentinel_def split: loop_event.splits prod.splits if_splits)

subsection \<open>Every step keeps it\<close>

lemma sinvD:
  assumes "sinv sys h"
  shows "chan_inv sys h" "pending_ok sys h" "id_inv sys h" "event_inv sys h wid" "created_first (sh_put h)"
  using assms by (simp_all add: sinv_def)

text \<open>A step that touches neither the response channel nor a goroutine of a watch.\<close>

lemma quiet_step:
  assumes "sinv sys h"
    and "ss_sender sys' = ss_sender sys" "ss_respCh sys' = ss_respCh sys" "ss_loop sys' = ss_loop sys"
      "ss_nextID sys' = ss_nextID sys" "length (ss_cancelledCh sys') \<le> 64"
    and "set (ss_watches sys') \<subseteq> set (ss_watches sys)" "\<And>i. ss_watchCtx sys i \<Longrightarrow> ss_watchCtx sys' i"
      "\<And>i. i \<in> set (ss_watches sys) \<Longrightarrow> i \<in> set (ss_watches sys') \<or> ss_watchCtx sys' i"
    and "(\<exists>e. ss_main sys' = MainDone e) \<or> ss_main sys' = MainSelect \<or>
         ss_main sys' = ss_main sys \<and> ss_watches sys' = ss_watches sys"
  shows "sinv sys' h"
proof -
  note i = sinvD [OF assms(1)]
  have "chan_inv sys' h" using i(1) assms(2,3,6) by (simp add: chan_inv_def)
  moreover have "pending_ok sys' h" using i(2) assms(4,10) by (auto simp: pending_ok_def)
  moreover have "id_inv sys' h"
    using i(3) assms(7-9) unfolding id_inv_def assms(4,5) by blast
  moreover have "event_inv sys' h wid" for wid using i(4) [of wid] assms(4) by (simp add: event_inv_def)
  ultimately show ?thesis using i(5) by (simp add: sinv_def)
qed

lemma only_cancels_sinv:
  assumes "sinv sys h" "only_cancels sys sys'" "ss_main sys = MainSelect \<or> (\<exists>e. ss_main sys = MainDone e)"
  shows "sinv sys' h"
proof (rule quiet_step [OF assms(1)])
  show "length (ss_cancelledCh sys') \<le> 64"
    using sinvD(1) [OF assms(1)] only_cancelsD(7) [OF assms(2)] by (simp add: chan_inv_def)
qed (use assms(3) only_cancelsD [OF assms(2)] in auto)

lemma drop_cancelledCh:
  "sinv sys h \<Longrightarrow> length ids \<le> 64 \<Longrightarrow> sinv (sys\<lparr>ss_cancelledCh := ids\<rparr>) h"
  by (rule quiet_step) auto

lemma endMain_sinv: "sinv sys h \<Longrightarrow> sinv (endMain err sys) h"
proof -
  assume i: "sinv sys h"
  obtain e where e: "only_cancels (sys\<lparr>ss_main := MainDone e\<rparr>) (endMain err sys)" using endMain_only by metis
  have "length (ss_cancelledCh sys) \<le> 64" using sinvD(1) [OF i] by (simp add: chan_inv_def)
  then have "sinv (sys\<lparr>ss_main := MainDone e\<rparr>) h" by (intro quiet_step [OF i]) auto
  from only_cancels_sinv [OF this e] show ?thesis by simp
qed

text \<open>A goroutine of a watch that stops taking events.\<close>

lemma loop_stops:
  assumes "sinv sys h" "ss_loop sys wid \<noteq> LoopUnborn" "pc \<in> {LoopNotify, LoopEnded}"
  shows "sinv (sys\<lparr>ss_loop := (ss_loop sys)(wid := pc), ss_stdCtx := cs\<rparr>) h" (is "sinv ?sys h")
proof -
  note i = sinvD [OF assms(1)]
  have "chan_inv ?sys h" using i(1) by (simp add: chan_inv_def)
  moreover have "pending_ok ?sys h"
    using i(2) assms(3) by (auto simp: pending_ok_def)
  moreover have "id_inv ?sys h" using i(3) assms(2,3) unfolding id_inv_def by auto
  moreover have "event_inv ?sys h v" for v using i(4) [of v] assms(3) by (auto simp: event_inv_def)
  ultimately show ?thesis using i(5) by (simp add: sinv_def)
qed

lemma loopReturns_sinv: "sinv sys h \<Longrightarrow> ss_loop sys wid \<noteq> LoopUnborn \<Longrightarrow> sinv (loopReturns wid sys) h"
  unfolding loopReturns_def by (rule loop_stops) simp_all

lemma loopTakes_sinv:
  assumes "sinv sys h" "loopTakes wid ev sys = Some sys'"
  shows "sinv sys' (snote (LoopTakes wid ev) sys h)"
proof (cases "ev = LoopDone")
  case True
  then show ?thesis using assms loopReturns_sinv by (auto simp: loopTakes_def split: if_splits)
next
  case False
  obtain rs res w where l: "watchLoopStep wid ev False (ss_world sys) = (rs, res, w)" by (rule prod_cases3)
  note r = watchLoopStep_response [OF l False]
  have pc: "ss_loop sys wid = LoopSelect"
    and sys': "sys' = sys\<lparr>ss_world := w, ss_loop := (ss_loop sys)(wid := LoopSend (hd rs) (res \<noteq> LoopGoOn))\<rparr>"
    using assms(2) l False by (auto simp: loopTakes_def split: if_splits)
  let ?h = "snote (LoopTakes wid ev) sys h"
  have h: "sh_put ?h = sh_put h" "sh_client ?h = sh_client h" "sh_started ?h = sh_started h" "sh_creates ?h = sh_creates h"
    "sh_taken ?h v = (if v = wid then sh_taken h wid @ (case ev of LoopEvents es \<Rightarrow> [es] | _ \<Rightarrow> []) else sh_taken h v)" for v
    by (cases ev; simp)+
  have st: "started ?h = started h" by (simp add: started_def h)
  note i = sinvD [OF assms(1)]
  have "chan_inv sys' ?h" using i(1) by (simp add: chan_inv_def h sys')
  moreover have "pending_ok sys' ?h" using i(2) r(1,2) unfolding pending_ok_def st h sys' by auto
  moreover have "id_inv sys' ?h"
  proof -
    have "wid \<in> started h" using i(3) pc unfolding id_inv_def by (metis loop_pc.distinct(1))
    with i(3) show ?thesis unfolding id_inv_def st h sys' by auto
  qed
  moreover have "event_inv sys' ?h v" for v
    using i(4) [of v] pc r(3) False unfolding event_inv_def h sys' by (auto split: loop_event.splits)
  ultimately show ?thesis using i(5) by (simp add: sinv_def h)
qed

lemma afterSend_simps [simp]:
  "ss_main (afterSend wid b sys) = ss_main sys" "ss_sender (afterSend wid b sys) = ss_sender sys"
  "ss_loop (afterSend wid b sys) = (ss_loop sys)(wid := (if b then LoopNotify else LoopSelect))"
  "ss_watches (afterSend wid b sys) = ss_watches sys" "ss_nextID (afterSend wid b sys) = ss_nextID sys"
  "ss_respCh (afterSend wid b sys) = ss_respCh sys" "ss_cancelledCh (afterSend wid b sys) = ss_cancelledCh sys"
  "ss_watchCtx (afterSend wid b sys) = ss_watchCtx sys"
  by (simp_all add: afterSend_def)

lemma chan_put:
  assumes "chan_inv sys h" "length (ss_respCh sys) < respChDepth"
    and "ss_respCh sys' = ss_respCh sys @ [r]" "ss_sender sys' = ss_sender sys" "ss_cancelledCh sys' = ss_cancelledCh sys"
    and "sh_put h' = sh_put h @ [r]" "sh_client h' = sh_client h"
  shows "chan_inv sys' h'"
  using assms unfolding chan_inv_def by auto

lemma loopSends_sinv:
  assumes "sinv sys h" "loopSends wid sys = Some sys'"
  shows "sinv sys' (snote (LoopSends wid) sys h)"
proof -
  obtain r ends where pc: "ss_loop sys wid = LoopSend r ends" and room: "length (ss_respCh sys) < respChDepth"
    and sys': "sys' = afterSend wid ends (sys\<lparr>ss_respCh := ss_respCh sys @ [r]\<rparr>)"
    using assms(2) by (auto simp: loopSends_def split: loop_pc.splits if_splits)
  let ?h = "h\<lparr>sh_put := sh_put h @ [r]\<rparr>"
  have st: "started ?h = started h" by (simp add: started_def)
  note i = sinvD [OF assms(1)]
  have r: "\<not> wr_Created r" "wr_WatchId r = wid" using i(2) pc unfolding pending_ok_def by blast+
  have born: "wid \<in> started h" using i(3) pc unfolding id_inv_def by (metis loop_pc.distinct(3))
  have "chan_inv sys' ?h" by (rule chan_put [OF i(1) room]) (simp_all add: sys')
  moreover have "pending_ok sys' ?h" using i(2) unfolding pending_ok_def st sys' by auto
  moreover have "id_inv sys' ?h" using i(3) r(1) born unfolding id_inv_def st sys' by auto
  moreover have "event_inv sys' ?h v" for v using i(4) [of v] pc r(2) unfolding event_inv_def sys' by (cases "v = wid") auto
  moreover have "created_first (sh_put ?h)"
  proof -
    have "wr_WatchId r \<in> set (map wr_WatchId (filter wr_Created (sh_put h)))"
      using i(3) born r(2) by (simp add: id_inv_def started_def)
    then show ?thesis using created_first_snoc [OF i(5), of r] by simp
  qed
  ultimately show ?thesis using pc by (simp add: sinv_def)
qed

lemma mainSends_sinv:
  assumes "sinv sys h" "mainSends sys = Some sys'"
  shows "sinv sys' (snote MainSends sys h)"
proof -
  obtain r st where pc: "ss_main sys = MainSend r st" and room: "length (ss_respCh sys) < respChDepth"
    using assms(2) by (auto simp: mainSends_def split: main_pc.splits if_splits)
  note i = sinvD [OF assms(1)]
  have ev: "wr_Events r = []" using i(2) pc by (cases st) (auto simp: pending_ok_def)
  let ?h = "snote MainSends sys h"
  have h: "sh_put ?h = sh_put h @ [r]" "sh_client ?h = sh_client h" "sh_creates ?h = sh_creates h" "sh_taken ?h = sh_taken h"
    using pc by simp_all
  have cf: "created_first (sh_put ?h)" unfolding h using created_first_snoc [OF i(5), of r] ev by simp
  have ch: "chan_inv sys' ?h"
    by (rule chan_put [OF i(1) room]) (use pc room assms(2) in \<open>auto simp: mainSends_def\<close>)
  show ?thesis
  proof (cases st)
    case None
    then have sys': "sys' = sys\<lparr>ss_respCh := ss_respCh sys @ [r], ss_main := MainSelect\<rparr>"
      using pc room assms(2) by (auto simp: mainSends_def)
    have st': "started ?h = started h" "sh_started ?h = sh_started h" using None pc by (simp_all add: started_def)
    have "\<not> wr_Created r" using i(2) pc None by (simp add: pending_ok_def)
    then have "id_inv sys' ?h" using i(3) unfolding id_inv_def st' h sys' by auto
    moreover have "pending_ok sys' ?h" using i(2) unfolding pending_ok_def st' sys' by simp
    moreover have "event_inv sys' ?h v" for v using i(4) [of v] ev unfolding event_inv_def h sys' by simp
    ultimately show ?thesis using cf ch by (simp add: sinv_def)
  next
    case (Some x)
    obtain wid y where x: "x = (wid, y)" by (cases x)
    have sys': "sys' = sys\<lparr>ss_respCh := ss_respCh sys @ [r], ss_main := MainSelect,
        ss_loop := (ss_loop sys)(wid := LoopSelect), ss_stdCtx := (ss_stdCtx sys)(wid := False)\<rparr>"
      using pc room assms(2) Some x by (auto simp: mainSends_def)
    have st': "started ?h = insert wid (started h)" "sh_started ?h = sh_started h @ [(wid, y)]"
      using Some x pc by (simp_all add: started_def)
    have new: "wr_Created r" "wr_WatchId r = wid" "wid \<notin> started h" "wid \<in> set (ss_watches sys)"
      using i(2) pc Some x by (simp_all add: pending_ok_def)
    then have "ss_loop sys wid = LoopUnborn" using i(3) unfolding id_inv_def by blast
    then have "event_inv sys' ?h v" for v using i(4) [of v] ev unfolding event_inv_def h sys' by auto
    moreover have "id_inv sys' ?h"
    proof -
      have "distinct (map fst (sh_started h @ [(wid, y)]))" using i(3) new(3) by (simp add: id_inv_def started_def)
      then show ?thesis using i(3) new unfolding id_inv_def st' h sys' by auto
    qed
    moreover have "pending_ok sys' ?h" using i(2) unfolding pending_ok_def st' sys' by auto
    ultimately show ?thesis using cf ch by (simp add: sinv_def)
  qed
qed

lemma create_sinv:
  assumes "sinv sys h" "ss_main sys = MainSelect" "int (sh_creates h) + 1 < 2 ^ 63" "wid = ss_nextID sys"
    and "wr_Created r" "wr_WatchId r = wid" "wr_Events r = []"
  shows "sinv (sys\<lparr>ss_nextID := wrap64 (wid + 1), ss_watches := List.insert wid (ss_watches sys),
      ss_watchCtx := (ss_watchCtx sys)(wid := False), ss_main := MainSend r (Some (wid, x))\<rparr>)
    (h\<lparr>sh_creates := Suc (sh_creates h)\<rparr>)" (is "sinv ?sys ?h")
proof -
  note i = sinvD [OF assms(1)]
  have n: "ss_nextID sys = int (sh_creates h)" using i(3) by (simp add: id_inv_def)
  have w: "wrap64 (wid + 1) = wid + 1" using assms(3,4) n by (intro wrap64_id) (simp add: in_int64_def)
  have st: "started ?h = started h" by (simp add: started_def)
  have new: "wid \<notin> started h" using i(3) assms(4) unfolding id_inv_def by blast
  have "chan_inv ?sys ?h" using i(1) by (simp add: chan_inv_def)
  moreover have "pending_ok ?sys ?h" using i(2) new assms(5-7) unfolding pending_ok_def st by auto
  moreover have "id_inv ?sys ?h"
    unfolding id_inv_def st
  proof (intro conjI allI impI)
    fix v assume v: "v \<in> set (ss_watches ?sys) \<or> v \<in> started h"
    then have "v = wid \<or> v \<in> set (ss_watches sys) \<or> v \<in> started h" by auto
    then have "0 \<le> v \<and> v \<le> wid" using i(3) n assms(4) unfolding id_inv_def by fastforce
    then show "0 \<le> v" "v < ss_nextID ?sys" using w by simp_all
  next
    fix v assume "v \<in> started h"
    with new i(3) show "v \<in> set (ss_watches ?sys) \<or> ss_watchCtx ?sys v" unfolding id_inv_def by auto
  qed (use i(3) n w assms(4) in \<open>auto simp: id_inv_def\<close>)
  moreover have "event_inv ?sys ?h v" for v using i(4) [of v] by (simp add: event_inv_def)
  ultimately show ?thesis using i(5) by (simp add: sinv_def)
qed

lemma drained_sinv:
  assumes "sinv sys h" "ss_main sys = MainSelect"
  shows "sinv (fold cancelEntry ids (sys\<lparr>ss_cancelledCh := []\<rparr>)) h"
    "ss_main (fold cancelEntry ids (sys\<lparr>ss_cancelledCh := []\<rparr>)) = MainSelect"
proof -
  have "sinv (sys\<lparr>ss_cancelledCh := []\<rparr>) h" using drop_cancelledCh [OF assms(1), of "[]"] by simp
  from only_cancels_sinv [OF this drain_only] assms(2)
  show "sinv (fold cancelEntry ids (sys\<lparr>ss_cancelledCh := []\<rparr>)) h" by simp
  show "ss_main (fold cancelEntry ids (sys\<lparr>ss_cancelledCh := []\<rparr>)) = MainSelect"
    using only_cancelsD(1) [OF drain_only] assms(2) by simp
qed

lemma announce_sinv:
  assumes "sinv sys h" "\<not> wr_Created r" "wr_Events r = []"
  shows "sinv (sys\<lparr>ss_main := MainSend r None\<rparr>) h"
proof -
  note i = sinvD [OF assms(1)]
  have "id_inv (sys\<lparr>ss_main := MainSend r None\<rparr>) h" using i(3) unfolding id_inv_def by auto
  moreover have "pending_ok (sys\<lparr>ss_main := MainSend r None\<rparr>) h" using i(2) assms(2,3) unfolding pending_ok_def by auto
  ultimately show ?thesis using assms(1) by (simp add: sinv_def chan_inv_def event_inv_def)
qed

lemma mainTakesReq_sinv:
  assumes "sinv sys h" "mainTakesReq sys = Some sys'"
    and "int (sh_creates (snote MainTakesReq sys h)) < 2 ^ 63"
  shows "sinv sys' (snote MainTakesReq sys h)"
proof -
  obtain rr where pc: "ss_main sys = MainSelect" and rr: "ss_reqCh sys = Some rr"
    using assms(2) by (auto simp: mainTakesReq_def split: main_pc.splits option.splits)
  let ?sys0 = "sys\<lparr>ss_reqCh := None\<rparr>"
  have l: "length (ss_cancelledCh sys) \<le> 64" using sinvD(1) [OF assms(1)] by (simp add: chan_inv_def)
  have i0: "sinv (?sys0) h" by (rule quiet_step [OF assms(1)]) (use l in auto)
  have id: "sinv (?sys0\<lparr>ss_main := MainDone e\<rparr>) h" for e by (rule quiet_step [OF i0]) (use l in auto)
  show ?thesis
  proof (cases rr)
    case (RecvReq req)
    have sys': "sys' = handleRequest req ?sys0" using assms(2) pc rr RecvReq by (simp add: mainTakesReq_def)
    let ?sys1 = "fold cancelEntry (ss_cancelledCh ?sys0) (?sys0\<lparr>ss_cancelledCh := []\<rparr>)"
    have i1: "sinv ?sys1 h" "ss_main ?sys1 = MainSelect" using drained_sinv [OF i0] pc by simp_all
    show ?thesis
    proof (cases req)
      case (CreateRequest cr)
      then show ?thesis
        using create_sinv [OF i1] assms(3) rr RecvReq by (simp add: sys' handleRequest_def Let_def watchResponse_def)
    next
      case (CancelRequest wid)
      have "sinv (cancelEntry wid ?sys1) h" by (rule only_cancels_sinv [OF i1(1) cancelEntry_only disjI1 [OF i1(2)]])
      from announce_sinv [OF this] CancelRequest rr RecvReq show ?thesis
        by (simp add: sys' handleRequest_def Let_def watchResponse_def)
    next
      case ProgressRequest
      then show ?thesis using i1 rr RecvReq by (simp add: sys' handleRequest_def)
    qed
  qed (use assms(2) pc rr endMain_sinv [OF i0] id in \<open>auto simp: mainTakesReq_def Let_def split: if_splits\<close>)
qed

lemma sender_sinv:
  assumes "sinv sys h" "chan_inv sys' h'"
    and "sys' = sys\<lparr>ss_sender := pc, ss_respCh := rs, ss_sendErrCh := ch\<rparr>" "h' = h\<lparr>sh_client := cl\<rparr>"
  shows "sinv sys' h'"
proof -
  note i = sinvD [OF assms(1)]
  have st: "started h' = started h" by (simp add: started_def assms(4))
  have "pending_ok sys' h'" using i(2) unfolding pending_ok_def st assms(3) by auto
  moreover have "id_inv sys' h'" using i(3) unfolding id_inv_def st assms(3) unfolding assms(4) by auto
  moreover have "event_inv sys' h' v" for v using i(4) [of v] by (simp add: event_inv_def assms(3,4))
  ultimately show ?thesis using assms(2) i(5) by (simp add: sinv_def assms(4))
qed

lemma senderTakes_sinv:
  assumes "sinv sys h" "senderTakes sys = Some sys'"
  shows "sinv sys' h"
proof -
  obtain r rs where r: "ss_sender sys = SenderSelect" "ss_respCh sys = r # rs"
    and sys': "sys' = sys\<lparr>ss_sender := SenderSend r, ss_respCh := rs\<rparr>"
    using assms(2) by (auto simp: senderTakes_def split: sender_pc.splits list.splits)
  have "chan_inv sys' h" using sinvD(1) [OF assms(1)] r by (simp add: chan_inv_def sys')
  from sender_sinv [OF assms(1) this, where pc = "SenderSend r" and rs = rs and ch = "ss_sendErrCh sys" and cl = "sh_client h"] show ?thesis
    by (simp add: sys')
qed

lemma senderReturns_sinv:
  assumes "sinv sys h" "senderReturns err sys = Some sys'"
  shows "sinv sys' (snote (SenderReturns err) sys h)"
proof -
  obtain r where r: "ss_sender sys = SenderSend r" using assms(2) by (auto simp: senderReturns_def split: sender_pc.splits)
  note c = sinvD(1) [OF assms(1)]
  show ?thesis
  proof (cases err)
    case None
    with assms(2) r have sys': "sys' = sys\<lparr>ss_sender := SenderSelect\<rparr>" by (simp add: senderReturns_def)
    have "chan_inv sys' (h\<lparr>sh_client := sh_client h @ [r]\<rparr>)" using c r by (simp add: chan_inv_def sys')
    from sender_sinv [OF assms(1) this, where pc = SenderSelect and rs = "ss_respCh sys" and ch = "ss_sendErrCh sys"] None r show ?thesis
      by (simp add: sys')
  next
    case (Some e)
    let ?ch = "if ss_sendErrCh sys = None then Some e else ss_sendErrCh sys"
    from Some assms(2) r have sys': "sys' = sys\<lparr>ss_sender := SenderDone, ss_sendErrCh := ?ch\<rparr>"
      by (auto simp: senderReturns_def)
    have "chan_inv sys' h" using c r by (simp add: chan_inv_def sys')
    from sender_sinv [OF assms(1) this, where pc = SenderDone and rs = "ss_respCh sys" and ch = ?ch and cl = "sh_client h"] Some show ?thesis
      by (simp add: sys')
  qed
qed

lemma senderEnds_sinv:
  assumes "sinv sys h" "senderEnds sys = Some sys'"
  shows "sinv sys' h"
proof -
  have sys': "sys' = sys\<lparr>ss_sender := SenderDone\<rparr>" "ss_sender sys = SenderSelect"
    using assms(2) by (auto simp: senderEnds_def split: if_splits)
  have "chan_inv sys' h" using sinvD(1) [OF assms(1)] sys'(2) by (auto simp: chan_inv_def sys'(1))
  from sender_sinv [OF assms(1) this, where pc = SenderDone and rs = "ss_respCh sys" and ch = "ss_sendErrCh sys" and cl = "sh_client h"] show ?thesis
    by (simp add: sys'(1))
qed

lemma loop_end_sinv:
  assumes "sinv sys h" "loopGivesUp wid sys = Some sys' \<or> loopNotifies wid sys = Some sys'"
  shows "sinv sys' h"
proof -
  have l: "length (ss_cancelledCh sys) \<le> 64" using sinvD(1) [OF assms(1)] by (simp add: chan_inv_def)
  have b: "ss_loop sys wid \<noteq> LoopUnborn"
    using assms(2) by (auto simp: loopGivesUp_def loopNotifies_def)
  have n: "sinv (afterSend wid True sys) h"
    using loop_stops [OF assms(1) b, of LoopNotify "ss_stdCtx sys"] by (simp add: afterSend_def)
  have c: "sinv (loopReturns wid (sys\<lparr>ss_cancelledCh := ids\<rparr>)) h" if "length ids \<le> 64" for ids
    using drop_cancelledCh [OF assms(1) that] b by (intro loopReturns_sinv) simp_all
  from assms(2) show ?thesis
  proof
    assume "loopGivesUp wid sys = Some sys'"
    then show ?thesis using n loopReturns_sinv [OF assms(1) b]
      by (auto simp: loopGivesUp_def split: loop_pc.splits if_splits)
  next
    assume "loopNotifies wid sys = Some sys'"
    then show ?thesis using c [of "ss_cancelledCh sys @ [wid]"] loopReturns_sinv [OF assms(1) b]
      by (auto simp: loopNotifies_def split: if_splits)
  qed
qed

lemma sexec_sinv:
  assumes "sinv sys h" "sexec st sys = Some sys'" "int (sh_creates (snote st sys h)) < 2 ^ 63"
  shows "sinv sys' (snote st sys h)"
proof -
  have l: "length (ss_cancelledCh sys) \<le> 64" using sinvD(1) [OF assms(1)] by (simp add: chan_inv_def)
  note q = quiet_step [OF assms(1), of sys']
  show ?thesis
  proof (cases st)
    case MainTakesReq then show ?thesis using mainTakesReq_sinv assms by simp
  next
    case MainTakesCancelled
    then obtain wid rest where c: "ss_main sys = MainSelect" "ss_cancelledCh sys = wid # rest"
      "sys' = cancelEntry wid (sys\<lparr>ss_cancelledCh := rest\<rparr>)"
      using assms(2) by (auto simp: mainTakesCancelled_def split: main_pc.splits list.splits)
    have "sinv (sys\<lparr>ss_cancelledCh := rest\<rparr>) h" using l c(2) by (intro drop_cancelledCh [OF assms(1)]) simp
    from only_cancels_sinv [OF this cancelEntry_only] c show ?thesis by (simp add: MainTakesCancelled)
  next
    case MainTakesCtx
    then show ?thesis using assms(2) endMain_sinv [OF assms(1)] by (auto simp: mainTakesCtx_def split: main_pc.splits if_splits)
  next
    case MainTakesSendErr
    have "sinv (sys\<lparr>ss_sendErrCh := None\<rparr>) h" using l by (intro quiet_step [OF assms(1)]) auto
    then show ?thesis
      using MainTakesSendErr assms(2) by (auto simp: mainTakesSendErr_def endMain_sinv split: main_pc.splits option.splits)
  next
    case MainSends then show ?thesis using mainSends_sinv assms by simp
  next
    case SenderTakes then show ?thesis using senderTakes_sinv assms by simp
  next
    case (SenderReturns err) then show ?thesis using senderReturns_sinv assms by simp
  next
    case SenderEnds then show ?thesis using senderEnds_sinv assms by simp
  next
    case (LoopTakes wid ev) then show ?thesis using loopTakes_sinv assms by simp
  next
    case (LoopSends wid) then show ?thesis using loopSends_sinv assms by simp
  next
    case (LoopGivesUp wid) then show ?thesis using loop_end_sinv [OF assms(1), of wid sys'] assms(2) by simp
  next
    case (LoopNotifies wid) then show ?thesis using loop_end_sinv [OF assms(1), of wid sys'] assms(2) by simp
  qed (use assms(2) l q in \<open>auto simp: receiverGets_def receiverPuts_def receiverEnds_def contextWithCancel_def
      streamContextWithCancel_def split: if_splits receiver_pc.splits option.splits\<close>)
qed

lemma snote_creates: "sh_creates h \<le> sh_creates (snote st sys h)"
  by (cases "(st, sys, h)" rule: snote.cases)
    (auto split: option.splits recv_result.splits RequestUnion.splits main_pc.splits sender_pc.splits loop_pc.splits)

lemma sreach_sinv: "sreach sys h \<Longrightarrow> int (sh_creates h) < 2 ^ 63 \<Longrightarrow> sinv sys h"
proof (induction rule: sreach.induct)
  case (sreach_start w)
  show ?case
    by (simp add: sinv_def chan_inv_def pending_ok_def id_inv_def event_inv_def created_first_def init_stream_def
        no_stream_hist_def started_def)
next
  case (sreach_step sys h st sys')
  then have "sinv sys h" using snote_creates [of h st sys] by simp
  then show ?case using sexec_sinv sreach_step.hyps(2) sreach_step.prems by blast
qed

section \<open>What the client sees\<close>

text \<open>
  C11: however the goroutines of a watch stream interleave, the client is sent the responses in the
  order in which they were put on the channel, none twice and none left out in between.  Every watch
  has its own id and is announced once, before any of its events; the events the client has got for a
  watch are the first ones its goroutine took from the subscription, in order.
\<close>

theorem stream_delivery:
  assumes "sreach sys h" "int (sh_creates h) < 2 ^ 63"
  shows "prefix (sh_client h) (sh_put h) \<and> length (ss_respCh sys) \<le> respChDepth \<and>
    map wr_WatchId (filter wr_Created (sh_put h)) = map fst (sh_started h) \<and> distinct (map fst (sh_started h)) \<and>
    created_first (sh_client h) \<and>
    (\<forall>wid. prefix (events_for wid (sh_client h)) (map toWatchEvent (concat (sh_taken h wid))))"
proof -
  note i = sinvD [OF sreach_sinv [OF assms]]
  obtain held where held: "sh_put h = sh_client h @ held @ ss_respCh sys" using i(1) unfolding chan_inv_def by blast
  have "prefix (events_for wid (sh_client h)) (map toWatchEvent (concat (sh_taken h wid)))" for wid
  proof -
    obtain rest where "events_for wid (sh_put h) @ rest = map toWatchEvent (concat (sh_taken h wid))"
      using i(4) [of wid] unfolding event_inv_def by blast
    then show ?thesis unfolding held prefix_def by (metis append.assoc events_for_simps(2))
  qed
  moreover have "created_first (sh_client h)" using i(5) created_first_prefix unfolding held by blast
  ultimately show ?thesis using i(1,3) held by (auto simp: chan_inv_def id_inv_def)
qed

lemma srun_sreach: "sreach sys h \<Longrightarrow> srun sts sys h = Some (sys', h') \<Longrightarrow> sreach sys' h'"
  by (induction sts arbitrary: sys h) (auto intro: sreach_step split: option.splits)

definition stream_demo_event :: Event where
  "stream_demo_event = rowEvent (demo_row 1 10 ''a'' (Some ''v'') None 7 False 10 None)"

definition demo_steps :: "stream_step list" where
  "demo_steps =
     [ReceiverGets (RecvReq (CreateRequest \<lparr>cr_Key = ''a'', cr_RangeEnd = [], cr_StartRevision = 0\<rparr>)), ReceiverPuts,
      MainTakesReq, MainSends, LoopTakes 0 (LoopEvents [stream_demo_event]), SenderTakes, LoopSends 0,
      SenderReturns None, SenderTakes, SenderReturns None]"

lemmas stream_defs = mainTakesReq_def handleRequest_def mainSends_def senderTakes_def senderReturns_def receiverGets_def
  receiverPuts_def loopTakes_def loopSends_def afterSend_def watchLoopStep_def watchResponse_def respChDepth_def
  init_stream_def no_stream_hist_def closedSentinel_def watchPrefix_def

theorem stream_delivery_witness:
  "case srun demo_steps (init_stream (demo_world demo_db)) no_stream_hist of
     None \<Rightarrow> False
   | Some (sys, h) \<Rightarrow>
       sh_started h = [(0, ''a'', 0)] \<and> events_for 0 (sh_client h) = [toWatchEvent stream_demo_event] \<and>
       created_first (sh_client h) \<and>
       prefix (events_for 0 (sh_client h)) (map toWatchEvent (concat (sh_taken h 0)))"
proof -
  obtain sys h where run: "srun demo_steps (init_stream (demo_world demo_db)) no_stream_hist = Some (sys, h)"
    and h: "sh_started h = [(0, ''a'', 0)]" "events_for 0 (sh_client h) = [toWatchEvent stream_demo_event]"
      "sh_creates h = 1"
    by (simp add: demo_steps_def stream_defs events_for_def wrap64_def)
  have "sreach sys h" by (rule srun_sreach [OF sreach_start run])
  then have "created_first (sh_client h)"
    "prefix (events_for 0 (sh_client h)) (map toWatchEvent (concat (sh_taken h 0)))"
    using stream_delivery [of sys h] h(3) by auto
  with h run show ?thesis by simp
qed

section \<open>The end of a stream\<close>

text \<open>
  The steps towards the end: every goroutine takes the branch of its \<open>select\<close> for the end of its
  context, and gRPC returns from the calls of \<open>Send\<close> and \<open>Recv\<close> in progress with an error.
\<close>

fun ending_step :: "stream_step \<Rightarrow> bool" where
  "ending_step MainTakesCtx = True"
| "ending_step (SenderReturns err) = (err \<noteq> None)"
| "ending_step SenderEnds = True"
| "ending_step (ReceiverGets (RecvErr e)) = True"
| "ending_step ReceiverEnds = True"
| "ending_step (WatchCtxEnds wid) = True"
| "ending_step (StdCtxEnds wid) = True"
| "ending_step (LoopTakes wid ev) = (ev = LoopDone)"
| "ending_step (LoopGivesUp wid) = True"
| "ending_step (LoopNotifies wid) = True"
| "ending_step st = False"

definition all_done :: "stream_sys \<Rightarrow> bool" where
  "all_done sys \<longleftrightarrow> (\<exists>e. ss_main sys = MainDone e) \<and> ss_sender sys = SenderDone \<and> ss_receiver sys = ReceiverDone \<and>
     (\<forall>wid. ss_loop sys wid \<in> {LoopUnborn, LoopEnded})"

text \<open>The number of steps left.\<close>

fun loop_left :: "loop_pc \<Rightarrow> nat" where
  "loop_left LoopSelect = 1" | "loop_left (LoopSend r ends) = 2" | "loop_left LoopNotify = 1" | "loop_left pc = 0"

definition watch_left :: "stream_sys \<Rightarrow> int \<Rightarrow> nat" where
  "watch_left sys wid =
     of_bool (\<not> ss_watchCtx sys wid) + of_bool (\<not> ss_stdCtx sys wid) + loop_left (ss_loop sys wid)"

definition steps_left :: "stream_sys \<Rightarrow> nat" where
  "steps_left sys =
     (case ss_main sys of MainDone e \<Rightarrow> 0 | _ \<Rightarrow> 1) + of_bool (ss_sender sys \<noteq> SenderDone) +
     (case ss_receiver sys of ReceiverRecv \<Rightarrow> 2 | ReceiverPut rr \<Rightarrow> 1 | ReceiverDone \<Rightarrow> 0) +
     (\<Sum>wid \<in> {0..<ss_nextID sys}. watch_left sys wid)"

lemma steps_left_bound: "steps_left sys \<le> 4 * nat (ss_nextID sys) + 4"
proof -
  have "watch_left sys wid \<le> 4" for wid by (cases "ss_loop sys wid") (simp_all add: watch_left_def)
  then have "(\<Sum>wid \<in> {0..<ss_nextID sys}. watch_left sys wid) \<le> (\<Sum>wid \<in> {0..<ss_nextID sys}. 4)" by (intro sum_mono)
  then show ?thesis by (simp add: steps_left_def split: main_pc.splits receiver_pc.splits)
qed

text \<open>A step of one watch.\<close>

lemma watch_step_left:
  assumes "0 \<le> wid" "wid < ss_nextID sys" "watch_left sys' wid < watch_left sys wid"
    and "\<And>v. v \<noteq> wid \<Longrightarrow> watch_left sys' v = watch_left sys v" "ss_nextID sys' = ss_nextID sys"
    and "ss_main sys' = ss_main sys" "ss_sender sys' = ss_sender sys" "ss_receiver sys' = ss_receiver sys"
  shows "steps_left sys' < steps_left sys"
proof -
  have "(\<Sum>v \<in> {0..<ss_nextID sys}. watch_left sys' v) < (\<Sum>v \<in> {0..<ss_nextID sys}. watch_left sys v)"
    using assms(1-4) by (intro sum_strict_mono_ex1) (auto, metis order_refl less_imp_le)
  then show ?thesis by (simp add: steps_left_def assms(5-8))
qed

lemma born_range:
  assumes "sinv sys h" "ss_loop sys wid \<noteq> LoopUnborn"
  shows "0 \<le> wid" "wid < ss_nextID sys"
  using sinvD(3) [OF assms(1)] assms(2) unfolding id_inv_def by blast+

text \<open>What a step of one watch towards its end does.\<close>

definition watch_steps :: "int \<Rightarrow> stream_step set" where
  "watch_steps wid = {WatchCtxEnds wid, StdCtxEnds wid, LoopTakes wid LoopDone, LoopGivesUp wid, LoopNotifies wid}"

lemma watch_step_effect:
  assumes "st \<in> watch_steps wid" "sexec st sys = Some sys'"
  shows "watch_left sys' wid < watch_left sys wid" "\<And>v. v \<noteq> wid \<Longrightarrow> watch_left sys' v = watch_left sys v"
    "ss_nextID sys' = ss_nextID sys" "ss_main sys' = ss_main sys" "ss_sender sys' = ss_sender sys"
    "ss_receiver sys' = ss_receiver sys" "ss_ctxDone sys' = ss_ctxDone sys" "snote st sys h = h"
    "0 \<le> wid \<and> wid < ss_nextID sys \<or> ss_loop sys wid \<noteq> LoopUnborn"
  using assms
  by (auto simp: watch_steps_def watch_left_def contextWithCancel_def streamContextWithCancel_def loopTakes_def
      loopReturns_def loopGivesUp_def loopNotifies_def afterSend_def split: if_splits loop_pc.splits)

lemma main_end_left:
  assumes "mainTakesCtx sys = Some sys'"
  shows "steps_left sys' < steps_left sys" "ss_nextID sys' = ss_nextID sys" "ss_ctxDone sys' = ss_ctxDone sys"
proof -
  have sys': "sys' = endMain None sys" and "\<And>e. ss_main sys \<noteq> MainDone e"
    using assms by (auto simp: mainTakesCtx_def split: main_pc.splits if_splits)
  moreover have "(\<Sum>wid \<in> {0..<ss_nextID sys}. watch_left sys' wid) \<le> (\<Sum>wid \<in> {0..<ss_nextID sys}. watch_left sys wid)"
    by (intro sum_mono) (simp add: sys' watch_left_def endMain_def)
  ultimately show "steps_left sys' < steps_left sys" by (simp add: steps_left_def endMain_def split: main_pc.splits)
  show "ss_nextID sys' = ss_nextID sys" "ss_ctxDone sys' = ss_ctxDone sys" by (simp_all add: sys' endMain_def)
qed

lemma watch_left_cong:
  "ss_watchCtx sys' = ss_watchCtx sys \<Longrightarrow> ss_stdCtx sys' = ss_stdCtx sys \<Longrightarrow> ss_loop sys' = ss_loop sys \<Longrightarrow>
     watch_left sys' = watch_left sys"
  by (simp add: watch_left_def fun_eq_iff)

lemma io_end_left:
  assumes "st \<in> {SenderReturns (Some e), SenderEnds, ReceiverGets (RecvErr e), ReceiverEnds}" "sexec st sys = Some sys'"
  shows "steps_left sys' < steps_left sys" "ss_nextID sys' = ss_nextID sys" "ss_ctxDone sys' = ss_ctxDone sys"
    "snote st sys h = h"
proof -
  have w: "watch_left sys' = watch_left sys"
    using assms by (intro watch_left_cong)
      (auto simp: senderReturns_def senderEnds_def receiverGets_def receiverEnds_def split: sender_pc.splits receiver_pc.splits if_splits)
  show "steps_left sys' < steps_left sys"
    using assms w
    by (auto simp: steps_left_def senderReturns_def senderEnds_def receiverGets_def receiverEnds_def
        split: sender_pc.splits receiver_pc.splits if_splits)
  show "ss_nextID sys' = ss_nextID sys" "ss_ctxDone sys' = ss_ctxDone sys" "snote st sys h = h"
    using assms
    by (auto simp: senderReturns_def senderEnds_def receiverGets_def receiverEnds_def
        split: sender_pc.splits receiver_pc.splits if_splits)
qed

lemma ending_step_cases:
  assumes "ending_step st"
  obtains "st = MainTakesCtx" | e where "st \<in> {SenderReturns (Some e), SenderEnds, ReceiverGets (RecvErr e), ReceiverEnds}"
  | wid where "st \<in> watch_steps wid"
  using assms by (cases st rule: ending_step.cases) (auto simp: watch_steps_def)

lemma ending_step_left:
  assumes "sinv sys h" "ending_step st" "sexec st sys = Some sys'"
  shows "steps_left sys' < steps_left sys \<and> ss_nextID sys' = ss_nextID sys \<and> ss_ctxDone sys' = ss_ctxDone sys \<and>
    snote st sys h = h"
  using assms(2)
proof (cases rule: ending_step_cases)
  case 1
  then show ?thesis using main_end_left [of sys sys'] assms(3) by simp
next
  case (2 e)
  then show ?thesis using io_end_left [OF 2 assms(3)] by blast
next
  case (3 wid)
  note e = watch_step_effect [OF 3 assms(3)]
  have "0 \<le> wid" "wid < ss_nextID sys" using e(9) born_range [OF assms(1)] by blast+
  from watch_step_left [OF this e(1-6)] show ?thesis using e(3,7,8) by blast
qed

lemma loop_can_end:
  assumes "sinv sys h" "ss_ctxDone sys" "ss_loop sys wid \<notin> {LoopUnborn, LoopEnded}"
  shows "\<exists>st \<in> watch_steps wid. sexec st sys \<noteq> None"
proof -
  have b: "ss_loop sys wid \<noteq> LoopUnborn" using assms(3) by simp
  note r = born_range [OF assms(1) b]
  consider "\<not> ss_watchCtx sys wid" | "ss_watchCtx sys wid" "\<not> ss_stdCtx sys wid" | "ss_stdCtx sys wid" by blast
  then show ?thesis
  proof cases
    case 1
    then have "sexec (WatchCtxEnds wid) sys \<noteq> None" using assms(2) r by (simp add: contextWithCancel_def)
    then show ?thesis unfolding watch_steps_def by blast
  next
    case 2
    then have "sexec (StdCtxEnds wid) sys \<noteq> None" using b by (simp add: streamContextWithCancel_def)
    then show ?thesis unfolding watch_steps_def by blast
  next
    case 3
    then have "sexec (LoopTakes wid LoopDone) sys \<noteq> None \<or> sexec (LoopGivesUp wid) sys \<noteq> None \<or>
        sexec (LoopNotifies wid) sys \<noteq> None"
      using assms(3) by (cases "ss_loop sys wid") (simp_all add: loopTakes_def loopGivesUp_def loopNotifies_def)
    then show ?thesis unfolding watch_steps_def by blast
  qed
qed

lemma ending_progress:
  assumes "sinv sys h" "ss_ctxDone sys" "\<not> all_done sys"
  shows "\<exists>st. ending_step st \<and> sexec st sys \<noteq> None"
proof -
  consider "\<And>e. ss_main sys \<noteq> MainDone e" | "ss_sender sys \<noteq> SenderDone" | "ss_receiver sys \<noteq> ReceiverDone"
    | wid where "ss_loop sys wid \<notin> {LoopUnborn, LoopEnded}"
    using assms(3) unfolding all_done_def by blast
  then show ?thesis
  proof cases
    case 1
    then have "sexec MainTakesCtx sys \<noteq> None" using assms(2) by (cases "ss_main sys") (auto simp: mainTakesCtx_def)
    then show ?thesis by (intro exI [of _ MainTakesCtx]) simp
  next
    case 2
    then have "sexec SenderEnds sys \<noteq> None \<or> sexec (SenderReturns (Some ContextCanceled)) sys \<noteq> None"
      using assms(2) by (cases "ss_sender sys") (simp_all add: senderEnds_def senderReturns_def)
    then show ?thesis by (metis ending_step.simps(2,3) option.distinct(1))
  next
    case 3
    then have "sexec (ReceiverGets (RecvErr ContextCanceled)) sys \<noteq> None \<or> sexec ReceiverEnds sys \<noteq> None"
      using assms(2) by (cases "ss_receiver sys") (simp_all add: receiverGets_def receiverEnds_def)
    then show ?thesis by (metis ending_step.simps(4,5))
  next
    case (4 wid)
    from loop_can_end [OF assms(1,2) this] obtain st where "st \<in> watch_steps wid" "sexec st sys \<noteq> None" by blast
    then show ?thesis by (intro exI [of _ st]) (auto simp: watch_steps_def)
  qed
qed

lemma ending_run:
  assumes "sreach sys h" "int (sh_creates h) < 2 ^ 63" "ss_ctxDone sys" "list_all ending_step sts"
    and "srun sts sys h = Some (sys', h')"
  shows "length sts + steps_left sys' \<le> steps_left sys \<and> sreach sys' h' \<and> h' = h \<and> ss_ctxDone sys'"
  using assms
proof (induction sts arbitrary: sys)
  case (Cons st sts)
  then obtain sys1 where s: "sexec st sys = Some sys1" "srun sts sys1 (snote st sys h) = Some (sys', h')"
    by (auto split: option.splits)
  note l = ending_step_left [OF sreach_sinv [OF Cons.prems(1,2)] _ s(1)]
  have "sreach sys1 h" using sreach_step [OF Cons.prems(1) s(1)] l Cons.prems(4) by simp
  from Cons.IH [OF this Cons.prems(2)] l s(2) Cons.prems(3,4) show ?case by fastforce
qed simp

text \<open>
  C13: a watch stream ends.  Once its context is done, its goroutines need neither the client nor the
  store: a run of steps towards the end can be continued until all of them have returned, whichever
  of them goes first, and has at most four steps for every watch that was created and four more.
\<close>

theorem stream_ends:
  assumes "sreach sys h" "int (sh_creates h) < 2 ^ 63" "ss_ctxDone sys"
    and "list_all ending_step sts" "srun sts sys h = Some (sys', h')"
  shows "length sts \<le> 4 * sh_creates h + 4 \<and>
    (all_done sys' \<or> (\<exists>st. ending_step st \<and> sexec st sys' \<noteq> None))"
proof -
  note r = ending_run [OF assms]
  have "ss_nextID sys = int (sh_creates h)" using sinvD(3) [OF sreach_sinv [OF assms(1,2)]] by (simp add: id_inv_def)
  then have "length sts \<le> 4 * sh_creates h + 4" using r steps_left_bound [of sys] by simp
  moreover have "all_done sys' \<or> (\<exists>st. ending_step st \<and> sexec st sys' \<noteq> None)"
    using ending_progress [OF sreach_sinv] r assms(2) by blast
  ultimately show ?thesis by blast
qed

theorem stream_ends_witness:
  "case srun (demo_steps @ [CtxEnds]) (init_stream (demo_world demo_db)) no_stream_hist of
     None \<Rightarrow> False
   | Some (sys, h) \<Rightarrow>
       (case srun [WatchCtxEnds 0, MainTakesCtx, StdCtxEnds 0, SenderEnds, LoopTakes 0 LoopDone] sys h of
          None \<Rightarrow> False
        | Some (sys', h') \<Rightarrow> \<not> all_done sys' \<and> (\<exists>st. ending_step st \<and> sexec st sys' \<noteq> None))"
proof -
  let ?sts = "[WatchCtxEnds 0, MainTakesCtx, StdCtxEnds 0, SenderEnds, LoopTakes 0 LoopDone]"
  obtain sys h where run: "srun (demo_steps @ [CtxEnds]) (init_stream (demo_world demo_db)) no_stream_hist = Some (sys, h)"
    and c: "sh_creates h = 1" "ss_ctxDone sys"
    and "\<exists>sys' h'. srun ?sts sys h = Some (sys', h') \<and> ss_receiver sys' = ReceiverRecv"
    by (simp add: demo_steps_def stream_defs wrap64_def contextWithCancel_def streamContextWithCancel_def mainTakesCtx_def
        endMain_def senderEnds_def loopReturns_def)
  then obtain sys' h' where run': "srun ?sts sys h = Some (sys', h')" "ss_receiver sys' = ReceiverRecv" by blast
  have "sreach sys h" by (rule srun_sreach [OF sreach_start run])
  then have "all_done sys' \<or> (\<exists>st. ending_step st \<and> sexec st sys' \<noteq> None)"
    using stream_ends [of sys h ?sts sys' h'] c run'(1) by simp
  moreover have "\<not> all_done sys'" using run'(2) by (simp add: all_done_def)
  ultimately show ?thesis using run run'(1) by simp
qed

end
