(* ===== verification/Lease.thy ===== *)
theory Lease
  imports Steady
begin

text \<open>
  \<open>pkg/store/lease.go\<close>: leases and their expiry.  The state of
  the manager is its counter, its map of leases and the expiry goroutines that wait on a timer;
  a waiting goroutine is its lease id with the time its timer fires, which it reads when it
  starts.  The clock is an argument of the operations that read it.
\<close>

section \<open>State\<close>

record Lease =
  L_ID :: int
  L_TTL :: int
  L_GrantedAt :: int
  L_ExpiresAt :: int

record LeaseManager =
  lm_nextID :: int
  lm_leases :: "int \<rightharpoonup> Lease"
  lm_timers :: "(int \<times> int) list"

definition nanos :: int where
  "nanos = 10 ^ 9"

text \<open>\<open>time.Duration(ttl) * time.Second\<close>.\<close>

definition ttlDuration :: "int \<Rightarrow> int" where
  "ttlDuration ttl = wrap64 (ttl * nanos)"

text \<open>\<open>time.Until\<close>: the difference, saturated to an \<open>int64\<close>.\<close>

definition time_Until :: "int \<Rightarrow> int \<Rightarrow> int" where
  "time_Until now t = max (- (2 ^ 63)) (min (2 ^ 63 - 1) (t - now))"

definition newLeaseManager :: "int \<Rightarrow> LeaseManager" where
  "newLeaseManager now = \<lparr>lm_nextID = wrap64 now, lm_leases = Map.empty, lm_timers = []\<rparr>"

definition newLease :: "int \<Rightarrow> int \<Rightarrow> int \<Rightarrow> Lease" where
  "newLease lid ttl grantedAt =
     \<lparr>L_ID = lid, L_TTL = ttl, L_GrantedAt = grantedAt, L_ExpiresAt = grantedAt + ttlDuration ttl\<rparr>"

text \<open>\<open>go scheduleExpiry(lease)\<close>: the goroutine waits until the lease's expiry.\<close>

definition scheduleExpiry :: "Lease \<Rightarrow> LeaseManager \<Rightarrow> LeaseManager" where
  "scheduleExpiry lease lm = lm\<lparr>lm_timers := lm_timers lm @ [(L_ID lease, L_ExpiresAt lease)]\<rparr>"

section \<open>Operations\<close>

definition Lease_Grant :: "int \<Rightarrow> int \<Rightarrow> LeaseManager \<Rightarrow> world
    \<Rightarrow> (goerr + Lease) \<times> LeaseManager \<times> world" where
  "Lease_Grant now ttl lm w =
     (let lid = wrap64 (lm_nextID lm + 1);
          lm1 = lm\<lparr>lm_nextID := lid\<rparr>;
          lease = newLease lid ttl now
      in (case apply_call [InsertLease lid ttl CommitTimestamp] w of
            (Inl e, w1) \<Rightarrow> (Inl e, lm1, w1)
          | (Inr _, w1) \<Rightarrow>
              (Inr lease,
               scheduleExpiry lease (lm1\<lparr>lm_leases := (lm_leases lm1)(lid \<mapsto> lease)\<rparr>), w1)))"

definition select_lease_keys :: "int \<Rightarrow> database \<Rightarrow> string list" where
  "select_lease_keys lid db =
     map r_key (filter (\<lambda>r. \<not> r_deleted r \<and> r_lease_id r = lid)
       (join_latest (kv db) (group_max (filter (\<lambda>r. r_lease_id r = lid) (kv db)))))"

text \<open>The deletes, with the number of those that failed.\<close>

fun deleteLeaseKeys :: "int \<Rightarrow> string list \<Rightarrow> nat \<Rightarrow> world \<Rightarrow> nat \<times> world" where
  "deleteLeaseKeys lid [] errs w = (errs, w)"
| "deleteLeaseKeys lid (k # ks) errs w =
     (case Store_DeleteIfLease k lid w of
        (_, Some e, w1) \<Rightarrow> deleteLeaseKeys lid ks (Suc errs) w1
      | (_, None, w1) \<Rightarrow> deleteLeaseKeys lid ks errs w1)"

definition expireLeaseKeys :: "int \<Rightarrow> world \<Rightarrow> goerr option \<times> world" where
  "expireLeaseKeys lid w =
     (case stream_rows (QLeaseKeys lid) (select_lease_keys lid) w of
        ((keys, scanErr), w1) \<Rightarrow>
          (case deleteLeaseKeys lid keys 0 w1 of
             (deleteErrs, w2) \<Rightarrow>
               (case scanErr of
                  Some e \<Rightarrow> (Some e, w2)
                | None \<Rightarrow>
                    (if deleteErrs > 0 then (Some (Errorf ''expireLeaseKeys: key delete(s) failed''), w2)
                     else
                       (case apply_call [DeleteLease lid] w2 of
                          (Inl e, w3) \<Rightarrow> (Some e, w3)
                        | (Inr _, w3) \<Rightarrow> (None, w3))))))"

definition Lease_Revoke :: "int \<Rightarrow> LeaseManager \<Rightarrow> world \<Rightarrow> goerr option \<times> LeaseManager \<times> world" where
  "Lease_Revoke lid lm w =
     (case expireLeaseKeys lid w of
        (Some e, w1) \<Rightarrow> (Some e, lm, w1)
      | (None, w1) \<Rightarrow> (None, lm\<lparr>lm_leases := (lm_leases lm)(lid := None)\<rparr>, w1))"

definition Lease_Get :: "int \<Rightarrow> LeaseManager \<Rightarrow> Lease option" where
  "Lease_Get lid lm = lm_leases lm lid"

text \<open>
  \<open>int64(d.Seconds())\<close> for \<open>d > 0\<close>.  \<open>Seconds\<close> adds the fraction to the seconds in
  \<open>float64\<close>: from $2^{24}$ seconds on, a fraction close to 1 is rounded up to the next second.
  With $2^k \<le> s < 2^{k+1}$ that happens when the missing part of the second is at most half a
  unit in the last place, $2^{k-53}$.
\<close>

definition truncSeconds :: "int \<Rightarrow> int" where
  "truncSeconds d =
     (let s = d div nanos; missing = nanos - d mod nanos
      in if s > 0 \<and> missing * 2 ^ 53 \<le> nanos * 2 ^ log2_int (nat s) then s + 1 else s)"

record LeaseSnapshot =
  LS_ID :: int
  LS_TTL :: int
  LS_Remaining :: int

definition Lease_GetTTL :: "int \<Rightarrow> int \<Rightarrow> LeaseManager \<Rightarrow> LeaseSnapshot option" where
  "Lease_GetTTL now lid lm =
     (case lm_leases lm lid of
        None \<Rightarrow> None
      | Some lease \<Rightarrow>
          (let d = time_Until now (L_ExpiresAt lease)
           in Some \<lparr>LS_ID = L_ID lease, LS_TTL = L_TTL lease,
                    LS_Remaining = (if d \<le> 0 then 0 else truncSeconds d)\<rparr>))"

definition Lease_Keepalive :: "int \<Rightarrow> int \<Rightarrow> LeaseManager \<Rightarrow> int \<times> LeaseManager" where
  "Lease_Keepalive now lid lm =
     (case lm_leases lm lid of
        None \<Rightarrow> (0, lm)
      | Some lease \<Rightarrow>
          (L_TTL lease,
           lm\<lparr>lm_leases := (lm_leases lm)
             (lid \<mapsto> lease\<lparr>L_ExpiresAt := now + ttlDuration (L_TTL lease)\<rparr>)\<rparr>))"

section \<open>Expiry\<close>

text \<open>
  At most five attempts; \<open>stopped n\<close> says that the manager was shut down while waiting after
  attempt \<open>n\<close>.
\<close>

fun revokeRetry :: "nat \<Rightarrow> nat \<Rightarrow> (nat \<Rightarrow> bool) \<Rightarrow> int \<Rightarrow> LeaseManager \<Rightarrow> world \<Rightarrow> LeaseManager \<times> world" where
  "revokeRetry 0 attempt stopped lid lm w = (lm, w)"
| "revokeRetry (Suc left) attempt stopped lid lm w =
     (case Lease_Revoke lid lm w of
        (None, lm1, w1) \<Rightarrow> (lm1, w1)
      | (Some e, lm1, w1) \<Rightarrow>
          if stopped attempt then (lm1, w1)
          else revokeRetry left (Suc attempt) stopped lid lm1 w1)"

text \<open>A timer of the goroutine of lease \<open>lid\<close> has fired; its entry is already removed.\<close>

definition timerFired :: "int \<Rightarrow> (nat \<Rightarrow> bool) \<Rightarrow> int \<Rightarrow> LeaseManager \<Rightarrow> world \<Rightarrow> LeaseManager \<times> world" where
  "timerFired now stopped lid lm w =
     (case lm_leases lm lid of
        None \<Rightarrow> (lm, w)
      | Some cur \<Rightarrow>
          (if time_Until now (L_ExpiresAt cur) > nanos then (scheduleExpiry cur lm, w)
           else revokeRetry 5 1 stopped lid lm w))"

section \<open>Reload after a restart\<close>

fun loadRows :: "lease_row list \<Rightarrow> LeaseManager \<Rightarrow> LeaseManager" where
  "loadRows [] lm = lm"
| "loadRows (r # rs) lm =
     (let lid = l_lease_id r; lease = newLease lid (l_ttl_sec r) (l_granted_at r)
      in if lm_leases lm lid = None
         then loadRows rs (scheduleExpiry lease (lm\<lparr>lm_leases := (lm_leases lm)(lid \<mapsto> lease)\<rparr>))
         else loadRows rs lm)"

definition loadLeases :: "LeaseManager \<Rightarrow> world \<Rightarrow> goerr option \<times> LeaseManager \<times> world" where
  "loadLeases lm w =
     (case stream_rows QLeases kv_lease w of
        ((rows, err), w1) \<Rightarrow> (err, loadRows rows lm, w1))"

text \<open>The reload loop; \<open>stopped n\<close> as above, \<open>None\<close> when it never ends.\<close>

partial_function (option) gcLoop :: "nat \<Rightarrow> (nat \<Rightarrow> bool) \<Rightarrow> LeaseManager \<Rightarrow> world
    \<Rightarrow> (LeaseManager \<times> world) option" where
  "gcLoop attempt stopped lm w =
     (case loadLeases lm w of
        (None, lm1, w1) \<Rightarrow> Some (lm1, w1)
      | (Some e, lm1, w1) \<Rightarrow>
          if stopped attempt then Some (lm1, w1) else gcLoop (Suc attempt) stopped lm1 w1)"

section \<open>The keys of a lease\<close>

lemma lease_rows_eq:
  "join_latest (kv db) (group_max (filter (\<lambda>r. r_lease_id r = lid) (kv db))) =
   filter (\<lambda>r. r_key r \<in> r_key ` {s \<in> set (kv db). r_lease_id s = lid} \<and>
     r_rev r = Max (r_rev ` {s \<in> set (kv db). r_lease_id s = lid \<and> r_key s = r_key r})) (kv db)"
  unfolding join_group_max by (simp add: Collect_conj_eq [symmetric] conj_comms)

text \<open>Every live key of the lease is found.\<close>

lemma lease_keys_found:
  assumes "wf_db db" "current db k = Some p" "LeaseID p = lid"
  shows "k \<in> set (select_lease_keys lid db)"
proof -
  from current_SomeE [OF assms(1,2)] obtain r where
    r: "select_latest k db = Some r" "r \<in> set (kv db)" "r_key r = k" "wf_row r" "\<not> r_deleted r" "p = scanKV r"
    by metis
  have lid: "r_lease_id r = lid" using r(6) assms(3) by (simp add: scanKV_def)
  have "Max (r_rev ` {s \<in> set (kv db). r_lease_id s = lid \<and> r_key s = k}) = r_rev r"
    using r(2,3) lid select_latest_SomeD(3) [OF r(1)] by (intro Max_eqI) auto
  then show ?thesis using r(2,3,5) lid unfolding select_lease_keys_def lease_rows_eq by force
qed

text \<open>One conditional delete, whatever happens to it.\<close>

definition lease_cleared :: "int \<Rightarrow> string \<Rightarrow> astore \<Rightarrow> astore" where
  "lease_cleared lid k m = (if \<exists>a. m k = Some a \<and> a_lease a = lid then m(k := None) else m)"

lemma deleteIfLeaseTxn_cases:
  assumes "fst (deleteIfLeaseTxn k lid v (handle w)) = Inr ms"
  obtains (keep) "ms = []" "\<And>p. current (at_call w) k = Some p \<Longrightarrow> LeaseID p \<noteq> lid"
  | (clear) p where "current (at_call w) k = Some p" "LeaseID p = lid" "ms = [tombstone k p]"
  using assms
  by (auto simp: deleteIfLeaseTxn_def getLatestTxn_eq split: sum.splits option.splits if_splits)

lemma next_world_served: "next_world w (served w)" "next_world w ((served w)\<lparr>w_db := at_call w\<rparr>)"
  by (simp_all add: next_world_def)

lemma next_world_append:
  assumes "r_rev r = ce_ts (this_call w)" "r_id r = ce_id (this_call w) i"
  shows "next_world w ((served w)\<lparr>w_db := append_row r (at_call w)\<rparr>)"
  using assms by (auto simp: next_world_def)

lemma DeleteIfLease_lone:
  assumes "lone (Suc N) w" "Store_DeleteIfLease k lid w = (deleted, err, w')"
  shows "lone N w' \<and> abs_store (w_db w') \<in> {abs_store (w_db w), lease_cleared lid k (abs_store (w_db w))} \<and>
    (err = None \<longrightarrow> abs_store (w_db w') = lease_cleared lid k (abs_store (w_db w))) \<and>
    kv_lease (w_db w') = kv_lease (w_db w)"
proof (cases "fst (deleteIfLeaseTxn k lid False (handle w))")
  case (Inl e)
  then show ?thesis
    using assms(2) lone_served [OF assms(1)] loneD(1) [OF assms(1)]
      deleteIfLease.read_write_result [of k lid False w False]
      deleteIfLease.read_write_world [of k lid False w False]
    by (auto simp: Store_DeleteIfLease_def split: prod.splits sum.splits)
next
  case (Inr ms)
  note l = loneD [OF assms(1)] and rw = deleteIfLease.read_write_ok [OF Inr, of False]
  from Inr show ?thesis
  proof (cases rule: deleteIfLeaseTxn_cases)
    case keep
    have cl: "lease_cleared lid k (abs_store (w_db w)) = abs_store (w_db w)"
      using keep(2) l(1) by (auto simp: lease_cleared_def abs_store_def entry_of_def)
    have "w' = served w \<or> w' = (served w)\<lparr>w_db := at_call w\<rparr>"
      using assms(2) rw keep(1) by (cases "ce_fate (this_call w)")
        (auto simp: Store_DeleteIfLease_def commit_def)
    then show ?thesis using cl l(1,2) lone_next [OF assms(1)] next_world_served [of w] by auto
  next
    case (clear p)
    let ?r = "over_row (ce_ts (this_call w)) (ce_id (this_call w) 0) k None 0 True p"
    have p: "current (w_db w) k = Some p" using clear(1) l(1) by simp
    have db: "wf_db (append_row ?r (w_db w))"
      "abs_store (append_row ?r (w_db w)) = lease_cleared lid k (abs_store (w_db w))"
      using over_row_env [OF l(2) p l(3), of "{k}" True None 0] current_Rev [OF p] clear(2)
      by (simp_all add: lease_cleared_def a_delete_def entry_of_def)
    have ins: "apply_mutations (ce_ts (this_call w)) (ce_id (this_call w)) ms (at_call w) =
        Some (append_row ?r (w_db w))"
      using insert_tombstone [OF l(3)] clear(3) l(1) by simp
    have "w' = served w \<and> err \<noteq> None \<or> w' = (served w)\<lparr>w_db := append_row ?r (w_db w)\<rparr>"
      using assms(2) rw ins by (cases "ce_fate (this_call w)")
        (auto simp: Store_DeleteIfLease_def commit_def)
    then show ?thesis
      using db l(1) lone_next [OF assms(1)] lone_served [OF assms(1)] next_world_append [of ?r w 0]
      by auto
  qed
qed

text \<open>All of them: what was not cleared was counted as an error.\<close>

lemma deleteLeaseKeys_lone:
  assumes "lone (length ks + N) w" "deleteLeaseKeys lid ks errs w = (errs', w')"
  shows "lone N w' \<and> errs \<le> errs' \<and> kv_lease (w_db w') = kv_lease (w_db w) \<and>
    (\<forall>k. abs_store (w_db w') k = abs_store (w_db w) k \<or>
       k \<in> set ks \<and> abs_store (w_db w') k = None \<and> (\<exists>a. abs_store (w_db w) k = Some a \<and> a_lease a = lid)) \<and>
    (errs' = errs \<longrightarrow> (\<forall>k \<in> set ks. \<forall>a. abs_store (w_db w') k = Some a \<longrightarrow> a_lease a \<noteq> lid))"
  using assms
proof (induction ks arbitrary: errs w)
  case (Cons k ks)
  obtain d err w1 where del: "Store_DeleteIfLease k lid w = (d, err, w1)" using prod_cases3 by blast
  have "lone (Suc (length ks + N)) w" using Cons.prems(1) by simp
  note step = DeleteIfLease_lone [OF this del]
  let ?errs1 = "if err = None then errs else Suc errs"
  have rest: "deleteLeaseKeys lid ks ?errs1 w1 = (errs', w')"
    using Cons.prems(2) del by (auto split: option.splits)
  note ih = Cons.IH [OF conjunct1 [OF step] rest]
  have keep: "\<And>j. abs_store (w_db w1) j = abs_store (w_db w) j \<or>
      j = k \<and> abs_store (w_db w1) j = None \<and> (\<exists>a. abs_store (w_db w) j = Some a \<and> a_lease a = lid)"
    using step by (auto simp: lease_cleared_def split: if_splits)
  have "\<And>a. err = None \<Longrightarrow> abs_store (w_db w1) k = Some a \<Longrightarrow> a_lease a \<noteq> lid"
    using step by (auto simp: lease_cleared_def split: if_splits)
  then have fin: "errs' = errs \<Longrightarrow> abs_store (w_db w') k = Some a \<Longrightarrow> a_lease a \<noteq> lid" for a
    using ih by (cases err) (auto, metis)
  show ?case
  proof (intro conjI allI impI ballI)
    show "lone N w'" "kv_lease (w_db w') = kv_lease (w_db w)" using ih step by simp_all
    show "errs \<le> errs'" using ih by (auto split: if_splits)
    fix j
    show "abs_store (w_db w') j = abs_store (w_db w) j \<or>
       j \<in> set (k # ks) \<and> abs_store (w_db w') j = None \<and> (\<exists>a. abs_store (w_db w) j = Some a \<and> a_lease a = lid)"
      using ih keep [of j] by (metis list.set_intros option.distinct(1))
  next
    fix j a assume "errs' = errs" "j \<in> set (k # ks)" "abs_store (w_db w') j = Some a"
    then show "a_lease a \<noteq> lid" using fin ih by (cases "j = k") (auto split: if_splits)
  qed
qed auto

section \<open>Expiring a lease\<close>

lemma stream_rows_eq [call_simps]:
  "stream_rows q f w = (scan (\<lambda>n. ce_err (this_call w) (q n)) 0 (f (at_call w)), served w)"
  by (simp add: stream_rows_def spanner_call_eq)

definition has_lease :: "int \<Rightarrow> astore \<Rightarrow> string \<Rightarrow> bool" where
  "has_lease lid m k \<longleftrightarrow> (\<exists>a. m k = Some a \<and> a_lease a = lid)"

definition lease_recorded :: "int \<Rightarrow> database \<Rightarrow> bool" where
  "lease_recorded lid db \<longleftrightarrow> lid \<in> l_lease_id ` set (kv_lease db)"

lemma abs_store_lease [simp]: "abs_store (db\<lparr>kv_lease := x\<rparr>) = abs_store db"
  by (simp add: abs_store_def current_def select_latest_def)

lemma wf_db_lease: "wf_db db \<Longrightarrow> wf_db (db\<lparr>kv_lease := filter P (kv_lease db)\<rparr>)"
  by (simp add: wf_db_def distinct_map_filter)

lemma delete_record:
  assumes "lone (Suc 0) w" "apply_call [DeleteLease lid] w = (res, w')"
  shows "wf_db (w_db w')" "abs_store (w_db w') = abs_store (w_db w)"
    "(\<exists>ts. res = Inr ts) \<Longrightarrow> \<not> lease_recorded lid (w_db w')"
    "lease_recorded l (w_db w) \<Longrightarrow> l \<noteq> lid \<Longrightarrow> lease_recorded l (w_db w')"
proof -
  note l = loneD [OF assms(1)]
  have "w_db w' = w_db w \<and> (\<forall>ts. res \<noteq> Inr ts) \<or>
      w_db w' = (w_db w)\<lparr>kv_lease := filter (\<lambda>l. l_lease_id l \<noteq> lid) (kv_lease (w_db w))\<rparr>"
    using assms(2) l(1) by (auto simp: apply_call_eq commit_def split: commit_fate.splits)
  then show "wf_db (w_db w')" "abs_store (w_db w') = abs_store (w_db w)"
    "(\<exists>ts. res = Inr ts) \<Longrightarrow> \<not> lease_recorded lid (w_db w')"
    "lease_recorded l (w_db w) \<Longrightarrow> l \<noteq> lid \<Longrightarrow> lease_recorded l (w_db w')"
    using l(2) wf_db_lease by (auto simp: lease_recorded_def)
qed

lemma expireLeaseKeys_lone:
  assumes "lone (length (select_lease_keys lid (w_db w)) + 2) w" "expireLeaseKeys lid w = (err, w')"
  shows "wf_db (w_db w')"
    "abs_store (w_db w') k = abs_store (w_db w) k \<or>
      abs_store (w_db w') k = None \<and> has_lease lid (abs_store (w_db w)) k"
    "err = None \<Longrightarrow> \<not> has_lease lid (abs_store (w_db w')) k \<and> \<not> lease_recorded lid (w_db w')"
    "lease_recorded lid (w_db w) \<Longrightarrow> has_lease lid (abs_store (w_db w')) k \<Longrightarrow> lease_recorded lid (w_db w')"
proof -
  let ?all = "select_lease_keys lid (w_db w)"
  have l0: "lone (Suc (length ?all + Suc 0)) w" using assms(1) by simp
  note l = loneD [OF l0]
  obtain keys e where sc: "scan (\<lambda>n. ce_err (this_call w) (QLeaseKeys lid n)) 0 ?all = (keys, e)"
    by fastforce
  obtain errs w2 where del: "deleteLeaseKeys lid keys 0 (served w) = (errs, w2)" by fastforce
  have "length keys \<le> length ?all" using scan_prefix [OF sc] by (simp add: prefix_length_le)
  then have "lone (length keys + Suc 0) (served w)"
    using lone_mono [OF lone_served [OF l0]] by simp
  note d = deleteLeaseKeys_lone [OF this del, unfolded served_simps l(1)]
  have d2: "wf_db (w_db w2)" using d loneD(2) by blast
  have all: "e = None \<Longrightarrow> errs = 0 \<Longrightarrow> \<not> has_lease lid (abs_store (w_db w2)) k" for k
  proof
    assume ok: "e = None" "errs = 0" and h: "has_lease lid (abs_store (w_db w2)) k"
    from h d have h0: "has_lease lid (abs_store (w_db w)) k" unfolding has_lease_def by (metis option.distinct(1))
    then obtain p where "current (w_db w) k = Some p" "LeaseID p = lid"
      by (auto simp: has_lease_def abs_store_def entry_of_def)
    then have "k \<in> set keys" using lease_keys_found [OF l(2)] scan_done sc ok(1) by metis
    with d ok(2) h show False unfolding has_lease_def by blast
  qed
  have keep: "abs_store (w_db w2) k = abs_store (w_db w) k \<or>
      abs_store (w_db w2) k = None \<and> has_lease lid (abs_store (w_db w)) k"
    using d unfolding has_lease_def by blast
  have rec: "lease_recorded lid (w_db w) \<Longrightarrow> lease_recorded lid (w_db w2)"
    using d by (simp add: lease_recorded_def)
  have "wf_db (w_db w') \<and> (abs_store (w_db w') k = abs_store (w_db w) k \<or>
      abs_store (w_db w') k = None \<and> has_lease lid (abs_store (w_db w)) k) \<and>
    (err = None \<longrightarrow> \<not> has_lease lid (abs_store (w_db w')) k \<and> \<not> lease_recorded lid (w_db w')) \<and>
    (lease_recorded lid (w_db w) \<longrightarrow> has_lease lid (abs_store (w_db w')) k \<longrightarrow> lease_recorded lid (w_db w'))"
  proof (cases "e = None \<and> errs = 0")
    case False
    then have "w' = w2 \<and> err \<noteq> None"
      using assms(2) sc del l(1) by (auto simp: expireLeaseKeys_def stream_rows_eq split: option.splits)
    then show ?thesis using d2 keep rec by auto
  next
    case True
    obtain res w3 where ap: "apply_call [DeleteLease lid] w2 = (res, w3)" by fastforce
    have "w' = w3 \<and> (err = None \<longleftrightarrow> (\<exists>ts. res = Inr ts))"
      using assms(2) sc del l(1) ap True by (auto simp: expireLeaseKeys_def stream_rows_eq split: sum.splits)
    moreover have "lone (Suc 0) w2" using d by blast
    ultimately show ?thesis using delete_record(1-3) [OF _ ap] keep all True by auto
  qed
  then show "wf_db (w_db w')" "abs_store (w_db w') k = abs_store (w_db w) k \<or>
      abs_store (w_db w') k = None \<and> has_lease lid (abs_store (w_db w)) k"
    "err = None \<Longrightarrow> \<not> has_lease lid (abs_store (w_db w')) k \<and> \<not> lease_recorded lid (w_db w')"
    "lease_recorded lid (w_db w) \<Longrightarrow> has_lease lid (abs_store (w_db w')) k \<Longrightarrow> lease_recorded lid (w_db w')"
    by blast+
qed

section \<open>When every call succeeds\<close>

lemma DeleteIfLease_ok:
  assumes "env_ok (w_env w)" "lone (Suc N) w"
  shows "\<exists>d w'. Store_DeleteIfLease k lid w = (d, None, w') \<and> w_env w' = w_env w"
proof -
  note e = env_okD [OF assms(1)] and l = loneD [OF assms(2)]
  have "\<exists>ms. fst (deleteIfLeaseTxn k lid False (handle w)) = Inr ms"
    using e by (cases "current (at_call w) k") (simp_all add: deleteIfLeaseTxn_def getLatestTxn_eq)
  then obtain ms where ms: "fst (deleteIfLeaseTxn k lid False (handle w)) = Inr ms" by blast
  have "\<exists>db'. apply_mutations (ce_ts (this_call w)) (ce_id (this_call w)) ms (at_call w) = Some db'"
    using deleteIfLease.commit_wf [OF ms, of "this_call w"] l by auto
  then show ?thesis using deleteIfLease.read_write_ok [OF ms, of False] e(2)
    by (auto simp: Store_DeleteIfLease_def commit_def)
qed

lemma deleteLeaseKeys_ok:
  assumes "env_ok (w_env w)" "lone (length ks + N) w"
  shows "\<exists>w'. deleteLeaseKeys lid ks errs w = (errs, w') \<and> w_env w' = w_env w"
  using assms
proof (induction ks arbitrary: w)
  case (Cons k ks)
  have l: "lone (Suc (length ks + N)) w" using Cons.prems(2) by simp
  from DeleteIfLease_ok [OF Cons.prems(1) l, of k lid] obtain d w1 where
    w1: "Store_DeleteIfLease k lid w = (d, None, w1)" "w_env w1 = w_env w" by blast
  have "lone (length ks + N) w1" using DeleteIfLease_lone [OF l w1(1)] by blast
  with Cons.IH [of w1] Cons.prems(1) w1 show ?case by simp
qed simp

lemma expireLeaseKeys_ok:
  assumes "env_ok (w_env w)" "lone (length (select_lease_keys lid (w_db w)) + 2) w"
  shows "\<exists>w'. expireLeaseKeys lid w = (None, w')"
proof -
  let ?ks = "select_lease_keys lid (w_db w)"
  have l0: "lone (Suc (length ?ks + Suc 0)) w" using assms(2) by simp
  note l = loneD [OF l0] and e = env_okD [OF assms(1)]
  have "lone (length ?ks + Suc 0) (served w)" by (rule lone_served [OF l0])
  from deleteLeaseKeys_ok [OF _ this, of lid 0] assms(1) obtain w2 where
    w2: "deleteLeaseKeys lid ?ks 0 (served w) = (0, w2)" "w_env w2 = w_env w" by auto
  have "ce_fate (this_call w2) = Committed" using env_okD(2) [of w2] w2(2) assms(1) by simp
  then show ?thesis using w2 l(1) e(1)
    by (simp add: expireLeaseKeys_def stream_rows_eq scan_ok apply_call_eq commit_def)
qed

section \<open>Properties\<close>

lemma demo_lease_keys: "select_lease_keys 7 demo_db = [''a'']" "select_lease_keys 0 demo_db = [''c'']"
  by (simp_all add: select_lease_keys_def join_latest_def group_max_def demo_defs)

text \<open>
  C28: revoking a lease deletes exactly the keys whose current value is attached to it, removes
  its record and forgets it.
\<close>

theorem Revoke_correct:
  assumes "lone (length (select_lease_keys lid (w_db w)) + 2) w" and "env_ok (w_env w)"
  shows "case Lease_Revoke lid lm w of (err, lm', w') \<Rightarrow>
    err = None \<and> lm_leases lm' = (lm_leases lm)(lid := None) \<and> \<not> lease_recorded lid (w_db w') \<and>
    abs_store (w_db w') =
      (\<lambda>k. if has_lease lid (abs_store (w_db w)) k then None else abs_store (w_db w) k)"
proof -
  obtain w' where ex: "expireLeaseKeys lid w = (None, w')" using expireLeaseKeys_ok [OF assms(2,1)] by blast
  note e = expireLeaseKeys_lone [OF assms(1) ex]
  have "abs_store (w_db w') k =
      (if has_lease lid (abs_store (w_db w)) k then None else abs_store (w_db w) k)" for k
    using e(2,3) [of k] unfolding has_lease_def by (metis option.exhaust)
  then show ?thesis using ex e(3) by (simp add: Lease_Revoke_def fun_eq_iff)
qed

text \<open>Revoking the lease id 0 deletes every key that has no lease.\<close>

theorem Revoke_correct_witness:
  "case Lease_Revoke 0 (newLeaseManager 0) (demo_world demo_db) of (err, lm', w') \<Rightarrow>
     err = None \<and> abs_store demo_db ''c'' \<noteq> None \<and> abs_store (w_db w') ''c'' = None"
proof -
  have "lone (length (select_lease_keys 0 (w_db (demo_world demo_db))) + 2) (demo_world demo_db)"
    by (rule lone_mono [OF lone_demo]) (simp add: demo_lease_keys)
  from Revoke_correct [OF this demo_env_ok, of "newLeaseManager 0"] abs_demo(3) show ?thesis
    by (auto simp: has_lease_def)
qed

text \<open>
  C29: expiry never loses track of a key and never touches another's.  Whatever fails, in the
  scan, in a delete or in the answer to a commit, the keys that are gone were attached to the
  lease; and as long as one attached key remains the lease's record remains, so that the
  expiry can be retried.
\<close>

theorem expireLeaseKeys_no_orphans:
  assumes "lone (length (select_lease_keys lid (w_db w)) + 2) w" and "lease_recorded lid (w_db w)"
  shows "case expireLeaseKeys lid w of (err, w') \<Rightarrow>
    wf_db (w_db w') \<and>
    (\<forall>k. abs_store (w_db w') k \<noteq> abs_store (w_db w) k \<longrightarrow>
       abs_store (w_db w') k = None \<and> has_lease lid (abs_store (w_db w)) k) \<and>
    (\<forall>k. has_lease lid (abs_store (w_db w')) k \<longrightarrow> lease_recorded lid (w_db w') \<and> err \<noteq> None)"
proof -
  obtain err w' where ex: "expireLeaseKeys lid w = (err, w')" by fastforce
  note e = expireLeaseKeys_lone [OF assms(1) ex]
  show ?thesis unfolding ex prod.case
  proof (intro conjI allI impI)
    show "err \<noteq> None" if "has_lease lid (abs_store (w_db w')) k" for k using e(3) [of k] that by auto
  qed (use e(1) e(2) e(4) [OF assms(2)] in blast)+
qed

theorem expireLeaseKeys_no_orphans_witness:
  "let w = (demo_world demo_db)\<lparr>w_env := (\<lambda>n. (demo_call (100 + int n))\<lparr>ce_fate := NotCommitted (Status Unavailable [])\<rparr>)\<rparr>
   in case expireLeaseKeys 7 w of (err, w') \<Rightarrow> wf_db (w_db w')"
proof -
  let ?w = "(demo_world demo_db)\<lparr>w_env := (\<lambda>n. (demo_call (100 + int n))\<lparr>ce_fate := NotCommitted (Status Unavailable [])\<rparr>)\<rparr>"
  have "lone 1000 ?w" using lone_demo by (simp add: lone_def lone_call_def call_before_def)
  then have "lone (length (select_lease_keys 7 (w_db ?w)) + 2) ?w"
    by (rule lone_mono) (simp add: demo_lease_keys)
  moreover have "lease_recorded 7 (w_db ?w)" by (simp add: lease_recorded_def demo_defs)
  ultimately show ?thesis using expireLeaseKeys_no_orphans [of 7 ?w] by (auto simp: Let_def)
qed

lemma revokeRetry_ok:
  assumes "lone (length (select_lease_keys lid (w_db w)) + 2) w" "env_ok (w_env w)"
  shows "\<exists>w'. revokeRetry (Suc n) attempt stopped lid lm w =
      (lm\<lparr>lm_leases := (lm_leases lm)(lid := None)\<rparr>, w') \<and> expireLeaseKeys lid w = (None, w')"
  using expireLeaseKeys_ok [OF assms(2,1)] by (auto simp: Lease_Revoke_def)

text \<open>
  C30: a timer that fires does the right thing.  If the lease was kept alive and has more than a
  second left, nothing is deleted and a new timer is set for its new expiry; if the lease was
  revoked meanwhile nothing happens; otherwise the lease is revoked with all its keys.
\<close>

theorem timerFired_correct:
  assumes "lone (length (select_lease_keys lid (w_db w)) + 2) w" and "env_ok (w_env w)"
  shows "case timerFired now stopped lid lm w of (lm', w') \<Rightarrow>
    (case lm_leases lm lid of
       None \<Rightarrow> lm' = lm \<and> w' = w
     | Some l \<Rightarrow>
         if time_Until now (L_ExpiresAt l) > nanos
         then w' = w \<and> lm_leases lm' = lm_leases lm \<and>
           lm_timers lm' = lm_timers lm @ [(L_ID l, L_ExpiresAt l)]
         else lm_leases lm' = (lm_leases lm)(lid := None) \<and> \<not> lease_recorded lid (w_db w') \<and>
           (\<forall>k. \<not> has_lease lid (abs_store (w_db w')) k))"
proof -
  obtain w' where r: "revokeRetry 5 1 stopped lid lm w = (lm\<lparr>lm_leases := (lm_leases lm)(lid := None)\<rparr>, w')"
    "expireLeaseKeys lid w = (None, w')"
    using revokeRetry_ok [OF assms, of 4 1 stopped lm] by (auto simp: eval_nat_numeral)
  show ?thesis using r(1) expireLeaseKeys_lone(3) [OF assms(1) r(2)]
    by (auto simp: timerFired_def scheduleExpiry_def split: option.splits)
qed

theorem timerFired_correct_witness:
  "let l = newLease 7 60 5; lm = (newLeaseManager 0)\<lparr>lm_leases := [7 \<mapsto> l]\<rparr>
   in case timerFired (60 * nanos + 5) (\<lambda>_. False) 7 lm (demo_world demo_db) of (lm', w') \<Rightarrow>
        lm_leases lm' = Map.empty \<and> \<not> has_lease 7 (abs_store (w_db w')) ''a''"
proof -
  have l: "lone (length (select_lease_keys 7 (w_db (demo_world demo_db))) + 2) (demo_world demo_db)"
    by (rule lone_mono [OF lone_demo]) (simp add: demo_lease_keys)
  have "time_Until (60 * nanos + 5) (L_ExpiresAt (newLease 7 60 5)) = 0"
    by (simp add: time_Until_def newLease_def ttlDuration_def nanos_def wrap64_id in_int64_def)
  then show ?thesis
    using timerFired_correct [OF l demo_env_ok, where now = "60 * nanos + 5" and stopped = "\<lambda>_. False"
        and lm = "(newLeaseManager 0)\<lparr>lm_leases := [7 \<mapsto> newLease 7 60 5]\<rparr>"]
    by (auto simp: Let_def nanos_def)
qed

text \<open>
  C31: \<open>Grant\<close> hands out an id that no recorded lease has, records it with its TTL and sets a
  timer; the expiry is \<open>ttl\<close> seconds after the grant for every TTL up to 9223372036 s.  When
  the id is taken, by another replica, it reports an error and records nothing.
\<close>

theorem Grant_correct:
  assumes "ce_fate (this_call w) = Committed" and "0 < ttl" and "ttl \<le> 9223372036"
    and "lid = wrap64 (lm_nextID lm + 1)"
  shows "case Lease_Grant now ttl lm w of (res, lm', w') \<Rightarrow>
    lm_nextID lm' = lid \<and> abs_store (w_db w') = abs_store (at_call w) \<and>
    (if lease_recorded lid (at_call w)
     then res = Inl AlreadyExistsErr \<and> w' = served w \<and> lm_leases lm' = lm_leases lm
     else (\<exists>l. res = Inr l \<and> L_ID l = lid \<and> L_TTL l = ttl \<and> L_ExpiresAt l = now + ttl * nanos \<and>
         lm_leases lm' = (lm_leases lm)(lid \<mapsto> l) \<and>
         lm_timers lm' = lm_timers lm @ [(lid, now + ttl * nanos)]) \<and>
       kv_lease (w_db w') = kv_lease (at_call w) @
         [\<lparr>l_lease_id = lid, l_ttl_sec = ttl, l_granted_at = ce_ts (this_call w)\<rparr>])"
proof -
  have "ttlDuration ttl = ttl * nanos"
    using assms(2,3) by (simp add: ttlDuration_def nanos_def wrap64_id in_int64_def)
  then show ?thesis using assms(1,4)
    by (auto simp: Lease_Grant_def apply_call_eq commit_def lease_recorded_def newLease_def
        scheduleExpiry_def Let_def)
qed

theorem Grant_correct_witness:
  "case Lease_Grant 1000 60 (newLeaseManager 1000) (demo_world demo_db) of (res, lm', w') \<Rightarrow>
     lm_timers lm' = [(1001, 60000001000)] \<and> abs_store (w_db w') = abs_store demo_db"
proof -
  have "wrap64 (lm_nextID (newLeaseManager 1000) + 1) = 1001" "\<not> lease_recorded 1001 demo_db"
    by (simp_all add: newLeaseManager_def wrap64_id in_int64_def lease_recorded_def demo_defs)
  with Grant_correct [OF _ _ _ refl, where w = "demo_world demo_db" and ttl = 60 and now = 1000
      and lm = "newLeaseManager 1000"]
  show ?thesis by (auto simp: nanos_def newLeaseManager_def)
qed

text \<open>From 9223372037 s on the multiplication wraps and the lease has expired when it is granted.\<close>

lemma Grant_overflow: "L_ExpiresAt (newLease lid 9223372037 now) < now"
  by (simp add: newLease_def ttlDuration_def nanos_def wrap64_def)

lemma truncSeconds_exact:
  assumes "0 < d" "d < 2 ^ 24 * nanos"
  shows "truncSeconds d = d div nanos"
proof -
  let ?s = "d div nanos"
  have s: "?s < 2 ^ 24" using assms(2) by (simp add: nanos_def)
  have "(2::int) ^ log2_int (nat ?s) \<le> 2 ^ 23" if "0 < ?s"
  proof -
    have "2 ^ log2_int (nat ?s) \<le> nat ?s" by (rule log2_int_le) (use that in simp)
    also have "nat ?s < 2 ^ 24" using s that by (simp add: nat_less_iff)
    finally have "2 ^ log2_int (nat ?s) < (2::nat) ^ 24" .
    then have "log2_int (nat ?s) < 24" by (rule power_less_imp_less_exp [rotated]) simp
    then show ?thesis by (intro power_increasing) auto
  qed
  moreover have "1 \<le> nanos - d mod nanos" by (simp add: nanos_def)
  ultimately have "nanos * 2 ^ log2_int (nat ?s) < (nanos - d mod nanos) * 2 ^ 53" if "0 < ?s"
    using that by (simp add: nanos_def)
  then show ?thesis by (auto simp: truncSeconds_def Let_def)
qed

text \<open>
  C32: the remaining time reported for a lease is never negative, is the number of whole
  seconds left for every lease with less than $2^{24}$ seconds to live, and at most one second
  more than that for longer ones.
\<close>

theorem GetTTL_bounds:
  assumes "lm_leases lm lid = Some l" and "d = time_Until now (L_ExpiresAt l)"
  shows "case Lease_GetTTL now lid lm of
      None \<Rightarrow> False
    | Some snap \<Rightarrow>
        LS_TTL snap = L_TTL l \<and> 0 \<le> LS_Remaining snap \<and>
        (d \<le> 0 \<longrightarrow> LS_Remaining snap = 0) \<and>
        (0 < d \<longrightarrow> LS_Remaining snap \<in> {d div nanos, d div nanos + 1}) \<and>
        (0 < d \<and> d < 2 ^ 24 * nanos \<longrightarrow> LS_Remaining snap = d div nanos)"
proof -
  have eq: "Lease_GetTTL now lid lm = Some \<lparr>LS_ID = L_ID l, LS_TTL = L_TTL l,
      LS_Remaining = (if d \<le> 0 then 0 else truncSeconds d)\<rparr>"
    using assms by (simp add: Lease_GetTTL_def Let_def)
  have "0 \<le> d div nanos" if "0 < d" using that by (simp add: nanos_def)
  moreover have tr: "truncSeconds d = d div nanos \<or> truncSeconds d = d div nanos + 1"
    by (simp add: truncSeconds_def Let_def)
  ultimately have "0 \<le> truncSeconds d" if "0 < d" using that by linarith
  then show ?thesis unfolding eq option.case using tr truncSeconds_exact [of d] by simp
qed

theorem GetTTL_bounds_witness:
  "case Lease_GetTTL (10 * nanos) 7 ((newLeaseManager 0)\<lparr>lm_leases := [7 \<mapsto> newLease 7 60 0]\<rparr>) of
     None \<Rightarrow> False | Some snap \<Rightarrow> LS_Remaining snap = 50"
proof -
  have "time_Until (10 * nanos) (L_ExpiresAt (newLease 7 60 0)) = 50 * nanos"
    by (simp add: time_Until_def newLease_def ttlDuration_def nanos_def wrap64_id in_int64_def)
  with GetTTL_bounds [OF _ refl, where lm = "(newLeaseManager 0)\<lparr>lm_leases := [7 \<mapsto> newLease 7 60 0]\<rparr>"
      and lid = 7 and l = "newLease 7 60 0" and now = "10 * nanos"]
  show ?thesis by (auto simp: nanos_def split: option.splits)
qed

section \<open>Reload\<close>

lemma find_distinct:
  "distinct (map f xs) \<Longrightarrow> x \<in> set xs \<Longrightarrow> find (\<lambda>y. f y = f x) xs = Some x"
  by (induction xs) auto

lemma loadRows_leases:
  assumes "distinct (map l_lease_id rs)"
  shows "lm_leases (loadRows rs lm) lid =
    (case lm_leases lm lid of
       Some l \<Rightarrow> Some l
     | None \<Rightarrow> (case find (\<lambda>r. l_lease_id r = lid) rs of
                 None \<Rightarrow> None
               | Some r \<Rightarrow> Some (newLease lid (l_ttl_sec r) (l_granted_at r))))"
  using assms
  by (induction rs arbitrary: lm) (auto simp: Let_def scheduleExpiry_def split: option.splits)

lemma loadRows_timers_mono: "set (lm_timers lm) \<subseteq> set (lm_timers (loadRows rs lm))"
proof (induction rs arbitrary: lm)
  case (Cons r rs)
  let ?l = "newLease (l_lease_id r) (l_ttl_sec r) (l_granted_at r)"
  let ?lm = "scheduleExpiry ?l (lm\<lparr>lm_leases := (lm_leases lm)(l_lease_id r \<mapsto> ?l)\<rparr>)"
  have "set (lm_timers lm) \<subseteq> set (lm_timers ?lm)" by (auto simp: scheduleExpiry_def)
  with Cons.IH [of ?lm] Cons.IH [of lm] show ?case by (auto simp: Let_def)
qed simp

lemma loadRows_timers:
  assumes "distinct (map l_lease_id rs)" "r \<in> set rs" "lm_leases lm (l_lease_id r) = None"
  shows "(l_lease_id r, l_granted_at r + ttlDuration (l_ttl_sec r)) \<in> set (lm_timers (loadRows rs lm))"
  using assms
proof (induction rs arbitrary: lm)
  case (Cons x rs)
  let ?l = "newLease (l_lease_id x) (l_ttl_sec x) (l_granted_at x)"
  let ?lm = "scheduleExpiry ?l (lm\<lparr>lm_leases := (lm_leases lm)(l_lease_id x \<mapsto> ?l)\<rparr>)"
  show ?case
  proof (cases "r = x")
    case True
    have "(l_lease_id r, l_granted_at r + ttlDuration (l_ttl_sec r)) \<in> set (lm_timers ?lm)"
      using True by (simp add: scheduleExpiry_def newLease_def)
    with loadRows_timers_mono [of ?lm rs] True Cons.prems(3) show ?thesis by (auto simp: Let_def)
  next
    case False
    then have r: "r \<in> set rs" using Cons.prems(2) by simp
    moreover have "l_lease_id r \<noteq> l_lease_id x"
      using Cons.prems(1) imageI [OF r, of l_lease_id] by auto
    ultimately have r: "r \<in> set rs" "l_lease_id r \<noteq> l_lease_id x" .
    from Cons.IH [of lm] Cons.IH [of ?lm] Cons.prems r show ?thesis
      by (simp add: Let_def scheduleExpiry_def)
  qed
qed simp

text \<open>
  C33: a reload that completes leaves the manager knowing every recorded lease.  A lease it knew
  already keeps its expiry; every other one has a timer for its grant time plus its TTL.
\<close>

theorem loadLeases_complete:
  assumes "wf_db (at_call w)" and "\<And>n. ce_err (this_call w) (QLeases n) = None"
    and "r \<in> set (kv_lease (at_call w))"
  shows "case loadLeases lm w of (err, lm', w') \<Rightarrow>
    err = None \<and> w' = served w \<and>
    (case lm_leases lm (l_lease_id r) of
       Some l \<Rightarrow> lm_leases lm' (l_lease_id r) = Some l
     | None \<Rightarrow>
         lm_leases lm' (l_lease_id r) = Some (newLease (l_lease_id r) (l_ttl_sec r) (l_granted_at r)) \<and>
         (l_lease_id r, l_granted_at r + ttlDuration (l_ttl_sec r)) \<in> set (lm_timers lm'))"
proof -
  have d: "distinct (map l_lease_id (kv_lease (at_call w)))" using assms(1) by (simp add: wf_db_def)
  have ll: "loadLeases lm w = (None, loadRows (kv_lease (at_call w)) lm, served w)"
    using assms(2) by (simp add: loadLeases_def stream_rows_eq scan_ok)
  have "find (\<lambda>s. l_lease_id s = l_lease_id r) (kv_lease (at_call w)) = Some r"
    using d assms(3) by (rule find_distinct)
  then show ?thesis
    using ll loadRows_leases [OF d, of lm "l_lease_id r"] loadRows_timers [OF d assms(3), of lm]
    by (simp split: option.split)
qed

theorem loadLeases_complete_witness:
  "case loadLeases (newLeaseManager 0) (demo_world demo_db) of (err, lm', w') \<Rightarrow>
     lm_leases lm' 7 = Some (newLease 7 60 5)"
  using loadLeases_complete [of "demo_world demo_db" "hd (kv_lease demo_db)" "newLeaseManager 0"] wf_demo
  by (auto simp: demo_defs newLeaseManager_def)

text \<open>
  A keepalive is known to the replica that served it only.  A replica that reloaded the lease
  revokes it at its original expiry, while the other one still promises the client time.
\<close>

lemma reloaded_lease_ignores_keepalive:
  assumes "lone (length (select_lease_keys lid (w_db w)) + 2) w" "env_ok (w_env w)"
    and "lm_leases lmB lid = Some (newLease lid ttl g)" "time_Until now (g + ttlDuration ttl) \<le> nanos"
    and "lm_leases lmA lid = Some (newLease lid ttl g)" "Lease_Keepalive t lid lmA = (ttl', lmA')"
    and "now < t + ttlDuration ttl"
  shows "ttl' = ttl \<and> (\<exists>l. lm_leases lmA' lid = Some l \<and> now < L_ExpiresAt l) \<and>
    (\<forall>k. \<not> has_lease lid (abs_store (w_db (snd (timerFired now stopped lid lmB w)))) k)"
proof -
  obtain w' where r: "revokeRetry 5 1 stopped lid lmB w = (lmB\<lparr>lm_leases := (lm_leases lmB)(lid := None)\<rparr>, w')"
    "expireLeaseKeys lid w = (None, w')"
    using revokeRetry_ok [OF assms(1,2), of 4 1 stopped lmB] by (auto simp: eval_nat_numeral)
  have "timerFired now stopped lid lmB w = (lmB\<lparr>lm_leases := (lm_leases lmB)(lid := None)\<rparr>, w')"
    using assms(3,4) r(1) by (simp add: timerFired_def newLease_def)
  then show ?thesis using expireLeaseKeys_lone(3) [OF assms(1) r(2)] assms(5-7)
    by (auto simp: Lease_Keepalive_def newLease_def)
qed

text \<open>The reload loop ends at the first attempt that Spanner answers, or at a shutdown.\<close>

lemma loadLeases_world: "snd (snd (loadLeases lm w)) = served w"
  by (simp add: loadLeases_def stream_rows_eq split: prod.split)

lemma gcLoop_returns:
  assumes "stopped (attempt + n) \<or> (\<forall>i. ce_err (w_env w (w_pos w + n)) (QLeases i) = None)"
  shows "\<exists>r. gcLoop attempt stopped lm w = Some r"
  using assms
proof (induction n arbitrary: attempt lm w)
  case 0
  obtain err lm1 w1 where l: "loadLeases lm w = (err, lm1, w1)" using prod_cases3 by blast
  have "err = None \<or> stopped attempt"
    using 0 l by (auto simp: loadLeases_def stream_rows_eq scan_ok this_call_def)
  with l show ?case by (subst gcLoop.simps) (auto split: option.splits)
next
  case (Suc n)
  obtain err lm1 w1 where l: "loadLeases lm w = (err, lm1, w1)" using prod_cases3 by blast
  then have "w1 = served w" using loadLeases_world [of lm w] by simp
  with Suc.IH [of "Suc attempt" w1 lm1] Suc.prems l show ?case
    by (subst gcLoop.simps) (auto split: option.splits)
qed

end
