(* ===== verification/GoStd.thy ===== *)
theory GoStd
  imports Prelude "HOL-Library.Monad_Syntax"
begin

text \<open>
  What the program uses of Go's standard library to read text: decimal numbers (\<open>fmt.Sscan\<close> into
  an \<open>int64\<close>), timestamps (\<open>time.Parse\<close> with the layout \<open>RFC3339Nano\<close>) and
  \<open>base64.StdEncoding\<close>, each with the writer it is the inverse of.  A \<open>time.Time\<close> is its number
  of nanoseconds since the Unix epoch.
\<close>

section \<open>Digits\<close>

definition digit_val :: "char \<Rightarrow> nat option" where
  "digit_val c =
     (let n = of_char c :: nat
      in if 48 \<le> n \<and> n \<le> 57 then Some (n - 48)
         else if 97 \<le> n \<and> n \<le> 102 then Some (n - 87)
         else if 65 \<le> n \<and> n \<le> 70 then Some (n - 55)
         else None)"

definition isDigit :: "char \<Rightarrow> bool" where
  "isDigit c \<longleftrightarrow> 48 \<le> (of_char c :: nat) \<and> (of_char c :: nat) \<le> 57"

definition digit_char :: "nat \<Rightarrow> char" where
  "digit_char d = char_of (48 + d)"

text \<open>The value of a string of digits.\<close>

definition digits_val :: "nat \<Rightarrow> string \<Rightarrow> nat" where
  "digits_val base s = fold (\<lambda>c n. n * base + the (digit_val c)) s 0"

fun nat_str :: "nat \<Rightarrow> string" where
  "nat_str n = (if n < 10 then [digit_char n] else nat_str (n div 10) @ [digit_char (n mod 10)])"

declare nat_str.simps [simp del]

definition Itoa :: "int \<Rightarrow> string" where
  "Itoa n = (if n < 0 then ''-'' @ nat_str (nat (- n)) else nat_str (nat n))"

lemma of_char_digit: "d < 10 \<Longrightarrow> of_char (digit_char d) = 48 + d"
  by (simp add: digit_char_def)

lemma digit_char_simps [simp]:
  "d < 10 \<Longrightarrow> isDigit (digit_char d)" "d < 10 \<Longrightarrow> digit_val (digit_char d) = Some d"
  by (simp_all add: isDigit_def digit_val_def of_char_digit Let_def)

lemma nat_str_digits: "c \<in> set (nat_str n) \<Longrightarrow> isDigit c"
proof (induction n rule: nat_str.induct)
  case (1 n)
  then show ?case by (subst (asm) (2) nat_str.simps) (auto split: if_splits)
qed

lemma digits_val_append: "digits_val b (s @ [c]) = digits_val b s * b + the (digit_val c)"
  by (simp add: digits_val_def)

lemma digits_val_nat_str: "digits_val 10 (nat_str n) = n"
proof (induction n rule: nat_str.induct)
  case (1 n)
  then show ?case
    by (subst nat_str.simps) (simp add: digits_val_append, simp add: digits_val_def)
qed

lemma nat_str_ne: "nat_str n \<noteq> []"
  by (subst nat_str.simps) simp

lemma nat_str_hd: "0 < n \<Longrightarrow> hd (nat_str n) \<noteq> CHR ''0''"
proof (induction n rule: nat_str.induct)
  case (1 n)
  have d: "0 < d \<Longrightarrow> d < 10 \<Longrightarrow> digit_char d \<noteq> CHR ''0''" for d
  proof
    assume "0 < d" "d < 10" "digit_char d = CHR ''0''"
    then have "of_char (digit_char d) = (48 :: nat)" by simp
    with \<open>d < 10\<close> \<open>0 < d\<close> show False by (simp add: of_char_digit)
  qed
  show ?case
  proof (cases "n < 10")
    case True
    with 1 d show ?thesis by (subst nat_str.simps) simp
  next
    case False
    with 1 nat_str_ne show ?thesis by (subst nat_str.simps) simp
  qed
qed

section \<open>Integers\<close>

definition isSpace :: "char \<Rightarrow> bool" where
  "isSpace c \<longleftrightarrow> (of_char c :: nat) \<in> {9, 10, 11, 12, 13, 32}"

definition lower :: "char \<Rightarrow> char" where
  "lower c = char_of (or 32 (of_char c :: nat))"

text \<open>\<open>strconv.underscoreOK\<close> after the sign: underscores separate digits.\<close>

fun underscores_ok :: "bool \<Rightarrow> string \<Rightarrow> bool" where
  "underscores_ok after_digit [] = True"
| "underscores_ok after_digit (c # cs) =
     (if c = CHR ''_'' then after_digit \<and> cs \<noteq> [] \<and> hd cs \<noteq> CHR ''_'' \<and> underscores_ok False cs
      else underscores_ok True cs)"

text \<open>\<open>strconv.ParseUint\<close> with base 0, before the range check.\<close>

definition base_digits :: "nat \<Rightarrow> bool \<Rightarrow> string \<Rightarrow> nat option" where
  "base_digits base pre s =
     (let ds = filter (\<lambda>c. c \<noteq> CHR ''_'') s
      in if (\<forall>c \<in> set ds. case digit_val c of None \<Rightarrow> False | Some d \<Rightarrow> d < base) \<and> underscores_ok pre s
         then Some (digits_val base ds) else None)"

definition ParseUint0 :: "string \<Rightarrow> nat option" where
  "ParseUint0 s =
     (case s of
        [] \<Rightarrow> None
      | c # cs \<Rightarrow>
          if c = CHR ''0'' then
            (case cs of
               b # d # ds \<Rightarrow>
                 if lower b = CHR ''b'' then base_digits 2 True (d # ds)
                 else if lower b = CHR ''o'' then base_digits 8 True (d # ds)
                 else if lower b = CHR ''x'' then base_digits 16 True (d # ds)
                 else base_digits 8 True cs
             | _ \<Rightarrow> base_digits 8 True cs)
          else base_digits 10 False s)"

text \<open>The characters \<open>scanNumber\<close> takes: those of the base its prefix announces.\<close>

definition scan_digits :: "string \<Rightarrow> string" where
  "scan_digits s =
     (let run = (\<lambda>base. takeWhile (\<lambda>c. c = CHR ''_'' \<or> (case digit_val c of None \<Rightarrow> False | Some d \<Rightarrow> d < base)))
      in (case s of
            [] \<Rightarrow> []
          | c # cs \<Rightarrow>
              if c = CHR ''0'' then
                (case cs of
                   [] \<Rightarrow> [c]
                 | b # ds \<Rightarrow>
                     if lower b = CHR ''b'' then c # b # run 2 ds
                     else if lower b = CHR ''o'' then c # b # run 8 ds
                     else if lower b = CHR ''x'' then c # b # run 16 ds
                     else c # run (8 :: nat) cs)
              else run 10 s))"

text \<open>
  \<open>fmt.Sscan\<close> into an \<open>int64\<close> that was 0: an error leaves it 0.  What follows the number is
  not looked at.
\<close>

definition Sscan_int64 :: "string \<Rightarrow> int" where
  "Sscan_int64 s =
     (let s1 = dropWhile isSpace s;
          neg = (s1 \<noteq> [] \<and> hd s1 = CHR ''-'');
          s2 = (if s1 \<noteq> [] \<and> (hd s1 = CHR ''-'' \<or> hd s1 = CHR ''+'') then tl s1 else s1)
      in (case ParseUint0 (scan_digits s2) of
            None \<Rightarrow> 0
          | Some n \<Rightarrow>
              (let i = (if neg then - int n else int n) in if in_int64 i then i else 0)))"

lemma isDigit_simps:
  assumes "isDigit c"
  shows "c \<noteq> CHR ''_''" "c \<noteq> CHR ''-''" "c \<noteq> CHR ''+''" "\<not> isSpace c"
    "\<exists>d < 10. digit_val c = Some d"
  using assms by (auto simp: isDigit_def isSpace_def digit_val_def Let_def)

lemma base_digits_10:
  assumes "\<forall>c \<in> set s. isDigit c" "s \<noteq> []"
  shows "base_digits 10 pre s = Some (digits_val 10 s)" 
proof -
  have "filter (\<lambda>c. c \<noteq> CHR ''_'') s = s" using assms isDigit_simps(1) by (simp add: filter_id_conv)
  moreover have "underscores_ok pre s"
    using assms(1) isDigit_simps(1) by (induction s arbitrary: pre) auto
  moreover have "\<forall>c \<in> set s. case digit_val c of None \<Rightarrow> False | Some d \<Rightarrow> d < 10"
    using assms(1) isDigit_simps(5) by fastforce
  ultimately show ?thesis by (simp add: base_digits_def Let_def)
qed

lemma scan_nat_str: "ParseUint0 (scan_digits (nat_str n)) = Some n"
proof (cases "n = 0")
  case True
  have "nat_str 0 = ''0''" by code_simp
  then show ?thesis using True by (simp add: scan_digits_def ParseUint0_def base_digits_def digits_val_def)
next
  case False
  then obtain c cs where s: "nat_str n = c # cs" "c \<noteq> CHR ''0''"
    using nat_str_hd [of n] nat_str_ne [of n] by (cases "nat_str n") auto
  have d: "\<forall>c \<in> set (nat_str n). isDigit c" using nat_str_digits by blast
  then have "\<forall>c \<in> set (nat_str n). case digit_val c of None \<Rightarrow> False | Some d \<Rightarrow> d < 10"
    using isDigit_simps(5) by fastforce
  then have "scan_digits (nat_str n) = nat_str n"
    using s by (simp add: scan_digits_def takeWhile_eq_all_conv)
  then show ?thesis
    using s base_digits_10 [OF d nat_str_ne, of False] digits_val_nat_str [of n] by (simp add: ParseUint0_def)
qed

lemma Sscan_Itoa: "in_int64 n \<Longrightarrow> Sscan_int64 (Itoa n) = n"
proof -
  assume n: "in_int64 n"
  obtain c cs where s: "nat_str (nat \<bar>n\<bar>) = c # cs" using nat_str_ne by (meson neq_Nil_conv)
  then have "isDigit c" using nat_str_digits by (metis list.set_intros(1))
  note c = isDigit_simps(1-4) [OF this]
  have sp: "\<not> isSpace (CHR ''-'')" by (simp add: isSpace_def)
  show ?thesis
  proof (cases "n < 0")
    case True
    then have "Itoa n = CHR ''-'' # nat_str (nat \<bar>n\<bar>)" by (simp add: Itoa_def)
    then show ?thesis using sp n True scan_nat_str by (simp add: Sscan_int64_def Let_def)
  next
    case False
    then have "Itoa n = nat_str (nat \<bar>n\<bar>)" by (simp add: Itoa_def)
    then show ?thesis
      using s c n False scan_nat_str [of "nat \<bar>n\<bar>"] by (simp add: Sscan_int64_def Let_def)
  qed
qed

section \<open>The calendar\<close>

definition leap :: "int \<Rightarrow> bool" where
  "leap y \<longleftrightarrow> y mod 4 = 0 \<and> (y mod 100 \<noteq> 0 \<or> y mod 400 = 0)"

definition daysIn :: "nat \<Rightarrow> int \<Rightarrow> int" where
  "daysIn m y = (if m = 2 then (if leap y then 29 else 28) else if m \<in> {4, 6, 9, 11} then 30 else 31)"

text \<open>The days from the epoch to the first of January, and from there to the first of a month.\<close>

definition daysToYear :: "int \<Rightarrow> int" where
  "daysToYear y = 365 * (y - 1970) + (y - 1) div 4 - (y - 1) div 100 + (y - 1) div 400 - 477"

fun daysToMonth :: "nat \<Rightarrow> int \<Rightarrow> int" where
  "daysToMonth 0 y = 0"
| "daysToMonth (Suc m) y = (if m = 0 then 0 else daysToMonth m y + daysIn m y)"

definition unix_nanos :: "int \<Rightarrow> nat \<Rightarrow> int \<Rightarrow> int \<Rightarrow> int \<Rightarrow> int \<Rightarrow> int \<Rightarrow> int" where
  "unix_nanos y m d hh mm ss ns =
     ((((daysToYear y + daysToMonth m y + d - 1) * 24 + hh) * 60 + mm) * 60 + ss) * 10 ^ 9 + ns"

text \<open>The zero \<open>time.Time\<close> is the first of January of the year 1.\<close>

definition zeroTime :: int where
  "zeroTime = unix_nanos 1 1 1 0 0 0 0"

lemma div_pred:
  fixes y k :: int
  assumes "0 < k"
  shows "y div k = (y - 1) div k + (if y mod k = 0 then 1 else 0)"
proof -
  have y: "y = k * (y div k) + y mod k" by simp
  have r: "0 \<le> y mod k" "y mod k < k" using assms by simp_all
  show ?thesis
  proof (cases "y mod k = 0")
    case True
    then have "(y - 1) div k = y div k - 1"
      using y assms by (intro int_div_pos_eq [where r = "k - 1"]) (simp_all add: algebra_simps)
    with True show ?thesis by simp
  next
    case False
    then have "(y - 1) div k = y div k"
      using y r by (intro int_div_pos_eq [where r = "y mod k - 1"]) linarith+
    with False show ?thesis by simp
  qed
qed

lemma leap_days:
  fixes a b c a' b' c' y :: int
  assumes "a = a' + (if p then 1 else 0)" "b = b' + (if q then 1 else 0)" "c = c' + (if r then 1 else 0)"
    and "r \<Longrightarrow> q" "q \<Longrightarrow> p"
  shows "365 * (y + 1 - 1970) + a - b + c - 477 =
    365 * (y - 1970) + a' - b' + c' - 477 + (if p \<and> (\<not> q \<or> r) then 366 else 365)"
  using assms by (cases p; cases q; cases r) simp_all

lemma daysToYear_Suc: "daysToYear (y + 1) = daysToYear y + (if leap y then 366 else 365)"
proof -
  have m: "y mod 400 = 0 \<Longrightarrow> y mod 100 = 0" "y mod 100 = 0 \<Longrightarrow> y mod 4 = 0"
    by (auto simp: mod_eq_0_iff_dvd elim: dvd_trans [rotated])
  show ?thesis
    unfolding daysToYear_def leap_def add_diff_cancel_right'
    by (rule leap_days [OF div_pred div_pred div_pred m]) simp_all
qed

lemma daysToYear_less: "y < z \<Longrightarrow> daysToYear y < daysToYear z"
proof (induction "nat (z - y)" arbitrary: z)
  case (Suc n)
  show ?case
  proof (cases "y = z - 1")
    case True
    then show ?thesis using daysToYear_Suc [of y] by (auto split: if_splits)
  next
    case False
    with Suc have "daysToYear y < daysToYear (z - 1)" by simp
    also have "\<dots> < daysToYear z" using daysToYear_Suc [of "z - 1"] by (auto split: if_splits)
    finally show ?thesis .
  qed
qed simp

section \<open>Timestamps\<close>

definition lit :: "char \<Rightarrow> string \<Rightarrow> string option" where
  "lit c s = (case s of [] \<Rightarrow> None | x # xs \<Rightarrow> if x = c then Some xs else None)"

text \<open>Exactly \<open>n\<close> digits; one or two digits.\<close>

definition getnum :: "nat \<Rightarrow> string \<Rightarrow> (int \<times> string) option" where
  "getnum n s =
     (let ds = take n s
      in if length ds = n \<and> (\<forall>c \<in> set ds. isDigit c) then Some (int (digits_val 10 ds), drop n s) else None)"

definition getnum12 :: "string \<Rightarrow> (int \<times> string) option" where
  "getnum12 s = (case getnum 2 s of Some r \<Rightarrow> Some r | None \<Rightarrow> getnum 1 s)"

definition fraction :: "string \<Rightarrow> int \<times> string" where
  "fraction s =
     (case s of
        p # c # cs \<Rightarrow>
          if (p = CHR ''.'' \<or> p = CHR '','') \<and> isDigit c then
            (let ds = take 9 (takeWhile isDigit (c # cs))
             in (int (digits_val 10 ds) * 10 ^ (9 - length ds), dropWhile isDigit (c # cs)))
          else (0, s)
      | _ \<Rightarrow> (0, s))"

text \<open>The offset in seconds; offsets of 24 hours and of 60 minutes are accepted.\<close>

definition zone :: "string \<Rightarrow> int option" where
  "zone s =
     (if s = ''Z'' then Some 0
      else
        (case s of
           sig # s1 \<Rightarrow>
             do {
               (hh, s2) \<leftarrow> getnum 2 s1;
               s3 \<leftarrow> lit (CHR '':'') s2;
               (mm, s4) \<leftarrow> getnum 2 s3;
               if s4 = [] \<and> hh \<le> 24 \<and> mm \<le> 60 \<and> (sig = CHR ''+'' \<or> sig = CHR ''-'')
               then Some ((if sig = CHR ''-'' then -1 else 1) * (hh * 60 + mm) * 60) else None
             }
         | [] \<Rightarrow> None))"

definition time_Parse :: "string \<Rightarrow> int option" where
  "time_Parse s =
     do {
       (year, s) \<leftarrow> getnum 4 s;
       s \<leftarrow> lit (CHR ''-'') s;
       (month, s) \<leftarrow> getnum 2 s;
       s \<leftarrow> lit (CHR ''-'') s;
       (day, s) \<leftarrow> getnum 2 s;
       s \<leftarrow> lit (CHR ''T'') s;
       (hh, s) \<leftarrow> getnum12 s;
       s \<leftarrow> lit (CHR '':'') s;
       (mm, s) \<leftarrow> getnum 2 s;
       s \<leftarrow> lit (CHR '':'') s;
       (ss, s) \<leftarrow> getnum 2 s;
       let (ns, s) = fraction s;
       offset \<leftarrow> zone s;
       if 1 \<le> month \<and> month \<le> 12 \<and> 1 \<le> day \<and> day \<le> daysIn (nat month) year \<and> hh < 24 \<and> mm < 60 \<and> ss < 60
       then Some (unix_nanos year (nat month) day hh mm ss ns - offset * 10 ^ 9) else None
     }"

section \<open>Writing a timestamp\<close>

text \<open>The timestamp of a time that is not before the epoch, in UTC with nine fractional digits.\<close>

function find_year :: "int \<Rightarrow> int \<Rightarrow> int" where
  "find_year d y = (if daysToYear (y + 1) \<le> d then find_year d (y + 1) else y)"
  by pat_completeness auto
termination
proof (relation "measure (\<lambda>(d, y). nat (d - daysToYear y))")
  fix d y assume "daysToYear (y + 1) \<le> d"
  with daysToYear_less [of y "y + 1"] show "((d, y + 1), (d, y)) \<in> measure (\<lambda>(d, y). nat (d - daysToYear y))"
    by simp
qed simp

declare find_year.simps [simp del]

fun find_month :: "nat \<Rightarrow> nat \<Rightarrow> int \<Rightarrow> int \<Rightarrow> nat \<times> int" where
  "find_month 0 m y n = (m, n + 1)"
| "find_month (Suc fuel) m y n =
     (if n < daysIn m y then (m, n + 1) else find_month fuel (Suc m) y (n - daysIn m y))"

definition pad :: "nat \<Rightarrow> int \<Rightarrow> string" where
  "pad n k = (let s = nat_str (nat k) in replicate (n - length s) (CHR ''0'') @ s)"

definition formatRFC3339Nano :: "int \<Rightarrow> string" where
  "formatRFC3339Nano t =
     (let secs = t div 10 ^ 9; ns = t mod 10 ^ 9; days = secs div 86400; sod = secs mod 86400;
          y = find_year days 1970; (m, d) = find_month 11 1 y (days - daysToYear y)
      in pad 4 y @ ''-'' @ pad 2 (int m) @ ''-'' @ pad 2 d @ ''T'' @ pad 2 (sod div 3600) @ '':'' @
         pad 2 (sod mod 3600 div 60) @ '':'' @ pad 2 (sod mod 60) @ ''.'' @ pad 9 ns @ ''Z'')"

lemma nat_str_length: "n < 10 ^ k \<Longrightarrow> 0 < k \<Longrightarrow> length (nat_str n) \<le> k"
proof (induction n arbitrary: k rule: nat_str.induct)
  case (1 n)
  show ?case
  proof (cases "n < 10")
    case True
    with 1 show ?thesis by (subst nat_str.simps) simp
  next
    case False
    with 1(2) have "k \<noteq> 1" by auto
    with 1(3) obtain j where k: "k = Suc j" "0 < j" by (cases k) auto
    with 1(2) have "n div 10 < 10 ^ j" by (simp add: less_mult_imp_div_less mult.commute)
    with 1(1) [OF False, of j] k False show ?thesis by (subst nat_str.simps) simp
  qed
qed

lemma pad_props:
  assumes "0 \<le> n" "n < 10 ^ k" "0 < k"
  shows "length (pad k n) = k" "\<forall>c \<in> set (pad k n). isDigit c" "int (digits_val 10 (pad k n)) = n"
proof -
  have "nat n < 10 ^ k" using assms by (simp add: nat_less_iff)
  then have l: "length (nat_str (nat n)) \<le> k" using assms(3) by (rule nat_str_length)
  then show "length (pad k n) = k" by (simp add: pad_def Let_def)
  have z: "isDigit (CHR ''0'')" by (simp add: isDigit_def)
  then show "\<forall>c \<in> set (pad k n). isDigit c" using nat_str_digits by (auto simp: pad_def Let_def)
  have "digits_val 10 (replicate j (CHR ''0'') @ s) = digits_val 10 s" for j s
    by (induction j) (simp_all add: digits_val_def digit_val_def)
  then show "int (digits_val 10 (pad k n)) = n"
    using assms(1) by (simp add: pad_def Let_def digits_val_nat_str)
qed

lemma getnum_pad:
  assumes "0 \<le> n" "n < 10 ^ k" "0 < k"
  shows "getnum k (pad k n @ s) = Some (n, s)"
  using pad_props [OF assms] by (simp add: getnum_def Let_def)

lemma find_year_bounds:
  "daysToYear y \<le> d \<Longrightarrow> y \<le> find_year d y \<and> daysToYear (find_year d y) \<le> d \<and> d < daysToYear (find_year d y + 1)"
proof (induction d y rule: find_year.induct)
  case (1 d y)
  then show ?case
    by (cases "daysToYear (y + 1) \<le> d") (simp_all add: find_year.simps [of d y])
qed

lemma daysToMonth_next: "0 < m \<Longrightarrow> daysToMonth (Suc m) y = daysToMonth m y + daysIn m y"
  by simp

lemma daysIn_pos: "0 < daysIn m y"
  by (simp add: daysIn_def)

lemma find_month_bounds:
  assumes "0 < m" "m + fuel = 12" "0 \<le> n" "n < daysToMonth 13 y - daysToMonth m y" "find_month fuel m y n = (m', d)"
  shows "m \<le> m' \<and> m' \<le> 12 \<and> 1 \<le> d \<and> d \<le> daysIn m' y \<and> daysToMonth m' y + d - 1 = daysToMonth m y + n"
  using assms
proof (induction fuel arbitrary: m n)
  case 0
  then have "m = 12" by simp
  with 0 daysToMonth_next [of 12 y] show ?case by simp
next
  case (Suc fuel)
  show ?case
  proof (cases "n < daysIn m y")
    case True
    with Suc.prems show ?thesis by auto
  next
    case False
    with Suc.prems Suc.IH [of "Suc m" "n - daysIn m y"] daysToMonth_next [of m y] show ?thesis by simp
  qed
qed

lemma daysToMonth_13: "daysToMonth 13 y = (if leap y then 366 else 365)"
  by (simp add: eval_nat_numeral daysIn_def)

lemma fraction_pad:
  assumes "0 \<le> n" "n < 10 ^ 9"
  shows "fraction (CHR ''.'' # pad 9 n @ ''Z'') = (n, ''Z'')"
proof -
  note p = pad_props [OF assms, simplified]
  then obtain c cs where c: "pad 9 n = c # cs" by (cases "pad 9 n") auto
  have z: "\<not> isDigit (CHR ''Z'')" by (simp add: isDigit_def)
  have w: "takeWhile isDigit (pad 9 n @ ''Z'') = pad 9 n" "dropWhile isDigit (pad 9 n @ ''Z'') = ''Z''"
    using p(2) z by (simp_all add: takeWhile_append2 dropWhile_append2)
  have "isDigit c" using p(2) c by simp
  with w p(1,3) c show ?thesis by (simp add: fraction_def Let_def)
qed

text \<open>A time of day put together again.\<close>

lemma time_of_day:
  fixes sod :: int
  shows "(sod div 3600 * 60 + sod mod 3600 div 60) * 60 + sod mod 60 = sod"
proof -
  have gen: "(a * 60 + b) * 60 + c = s" if "x = c" "b * 60 + x = m" "a * 3600 + m = s" for a b c x m s :: int
    using that by (simp add: algebra_simps)
  have "sod mod 3600 mod 60 = sod mod 60" by (rule mod_mod_cancel) simp
  moreover have "sod mod 3600 div 60 * 60 + sod mod 3600 mod 60 = sod mod 3600" by (rule div_mult_mod_eq)
  moreover have "sod div 3600 * 3600 + sod mod 3600 = sod" by (rule div_mult_mod_eq)
  ultimately show ?thesis by (rule gen)
qed

lemma parse_civil:
  assumes "0 \<le> y" "y < 10000" "1 \<le> m" "m \<le> 12" "1 \<le> d" "d \<le> daysIn m y"
    and "0 \<le> hh" "hh < 24" "0 \<le> mm" "mm < 60" "0 \<le> ss" "ss < 60" "0 \<le> ns" "ns < 10 ^ 9"
  shows "time_Parse (pad 4 y @ ''-'' @ pad 2 (int m) @ ''-'' @ pad 2 d @ ''T'' @ pad 2 hh @ '':'' @ pad 2 mm @ '':'' @
    pad 2 ss @ ''.'' @ pad 9 ns @ ''Z'') = Some (unix_nanos y m d hh mm ss ns)"
proof -
  have d: "d < 100" using assms(6) by (simp add: daysIn_def split: if_splits)
  have g: "getnum 4 (pad 4 y @ s) = Some (y, s)" "getnum 2 (pad 2 (int m) @ s) = Some (int m, s)"
    "getnum 2 (pad 2 d @ s) = Some (d, s)" "getnum 2 (pad 2 hh @ s) = Some (hh, s)"
    "getnum 2 (pad 2 mm @ s) = Some (mm, s)" "getnum 2 (pad 2 ss @ s) = Some (ss, s)" for s
    using assms d by (simp_all add: getnum_pad)
  show ?thesis
    using assms d fraction_pad [OF assms(13,14)]
    by (simp add: time_Parse_def g lit_def getnum12_def zone_def)
qed

lemma date_of_days:
  assumes "0 \<le> days" "days < 107016"
  defines "y \<equiv> find_year days 1970"
  obtains m d where "find_month 11 1 y (days - daysToYear y) = (m, d)" "0 \<le> y" "y < 10000" "1 \<le> m" "m \<le> 12"
    "1 \<le> d" "d \<le> daysIn m y" "daysToYear y + daysToMonth m y + d - 1 = days"
proof -
  obtain m d where md: "find_month 11 1 y (days - daysToYear y) = (m, d)" by fastforce
  have y: "1970 \<le> y" "daysToYear y \<le> days" "days < daysToYear (y + 1)"
    using find_year_bounds [of 1970 days] assms(1) unfolding y_def by (simp_all add: daysToYear_def)
  have "y < 2263"
  proof (rule ccontr)
    assume "\<not> y < 2263"
    then have "daysToYear 2263 \<le> daysToYear y" using daysToYear_less [of 2263 y] by (cases "y = 2263") auto
    then show False using y(2) assms(2) by (simp add: daysToYear_def)
  qed
  moreover have "days - daysToYear y < daysToMonth 13 y - daysToMonth 1 y"
    using y(3) daysToYear_Suc [of y] by (simp add: daysToMonth_13)
  from find_month_bounds [OF _ _ _ this md] y(2)
  have "1 \<le> m" "m \<le> 12" "1 \<le> d" "d \<le> daysIn m y" "daysToMonth m y + d - 1 = days - daysToYear y"
    by simp_all
  ultimately show thesis using that [OF md] y(1) by simp
qed

lemma time_Parse_format:
  assumes "0 \<le> t" "t < 2 ^ 63"
  shows "time_Parse (formatRFC3339Nano t) = Some t"
proof -
  define secs ns where "secs = t div 10 ^ 9" and "ns = t mod 10 ^ 9"
  define days sod where "days = secs div 86400" and "sod = secs mod 86400"
  have t: "t = secs * 10 ^ 9 + ns" "0 \<le> ns" "ns < 10 ^ 9" by (simp_all add: secs_def ns_def)
  have s: "secs = days * 86400 + sod" "0 \<le> sod" "sod < 86400" by (simp_all add: days_def sod_def)
  have "t = (days * 86400 + sod) * 1000000000 + ns" "t < 9223372036854775808" using t(1) s(1) assms(2) by simp_all
  with assms(1) t(2,3) s(2,3) have "0 \<le> days" "days < 107016" by simp_all
  then obtain m d where md: "find_month 11 1 (find_year days 1970) (days - daysToYear (find_year days 1970)) = (m, d)"
    and y: "0 \<le> find_year days 1970" "find_year days 1970 < 10000" "1 \<le> m" "m \<le> 12" "1 \<le> d"
      "d \<le> daysIn m (find_year days 1970)"
    and days: "daysToYear (find_year days 1970) + daysToMonth m (find_year days 1970) + d - 1 = days"
    by (rule date_of_days)
  have hms: "0 \<le> sod div 3600" "sod div 3600 < 24" "0 \<le> sod mod 3600 div 60" "sod mod 3600 div 60 < 60"
    "0 \<le> sod mod 60" "sod mod 60 < 60"
    using s(2,3) pos_mod_bound [of 3600 sod] by (simp_all add: pos_imp_zdiv_nonneg_iff)
  have "unix_nanos (find_year days 1970) m d (sod div 3600) (sod mod 3600 div 60) (sod mod 60) ns = t"
    unfolding unix_nanos_def days using time_of_day [of sod] t(1) s(1) by (simp add: algebra_simps)
  with parse_civil [OF y hms t(2,3)] show ?thesis
    unfolding formatRFC3339Nano_def Let_def secs_def [symmetric] ns_def [symmetric] days_def [symmetric]
      sod_def [symmetric] md prod.case by simp
qed

section \<open>Base64\<close>

definition b64_char :: "nat \<Rightarrow> char" where
  "b64_char n =
     (if n < 26 then char_of (n + 65) else if n < 52 then char_of (n + 71)
      else if n < 62 then char_of (n - 4) else if n = 62 then CHR ''+'' else CHR ''/'')"

definition b64_val :: "char \<Rightarrow> nat option" where
  "b64_val c =
     (let n = of_char c :: nat
      in if 65 \<le> n \<and> n \<le> 90 then Some (n - 65)
         else if 97 \<le> n \<and> n \<le> 122 then Some (n - 71)
         else if 48 \<le> n \<and> n \<le> 57 then Some (n + 4)
         else if c = CHR ''+'' then Some 62 else if c = CHR ''/'' then Some 63 else None)"

text \<open>
  \<open>DecodeString\<close> with its error ignored: the bytes of the groups before the first error.  Line
  breaks are skipped; after a padded group the rest is an error, but the group counts.
\<close>

fun b64_groups :: "string \<Rightarrow> string" where
  "b64_groups (a # b # c # d # rest) =
     (case (b64_val a, b64_val b) of
        (Some x, Some y) \<Rightarrow>
          (case b64_val c of
             Some z \<Rightarrow>
               (case b64_val d of
                  Some u \<Rightarrow>
                    char_of (x * 4 + y div 16) # char_of (y mod 16 * 16 + z div 4) # char_of (z mod 4 * 64 + u) #
                    b64_groups rest
                | None \<Rightarrow>
                    if d = CHR ''='' then [char_of (x * 4 + y div 16), char_of (y mod 16 * 16 + z div 4)] else [])
           | None \<Rightarrow> if c = CHR ''='' \<and> d = CHR ''='' then [char_of (x * 4 + y div 16)] else [])
      | _ \<Rightarrow> [])"
| "b64_groups _ = []"

definition b64_decode :: "string \<Rightarrow> string" where
  "b64_decode s = b64_groups (filter (\<lambda>c. c \<noteq> CHR 0x0A \<and> c \<noteq> CHR 0x0D) s)"

fun b64_encode :: "string \<Rightarrow> string" where
  "b64_encode [] = []"
| "b64_encode [a] = (let x = of_char a :: nat in [b64_char (x div 4), b64_char (x mod 4 * 16), CHR ''='', CHR ''=''])"
| "b64_encode [a, b] =
     (let x = of_char a :: nat; y = of_char b :: nat
      in [b64_char (x div 4), b64_char (x mod 4 * 16 + y div 16), b64_char (y mod 16 * 4), CHR ''=''])"
| "b64_encode (a # b # c # rest) =
     (let x = of_char a :: nat; y = of_char b :: nat; z = of_char c :: nat
      in b64_char (x div 4) # b64_char (x mod 4 * 16 + y div 16) # b64_char (y mod 16 * 4 + z div 64) #
         b64_char (z mod 64) # b64_encode rest)"

lemma of_b64_char:
  "n < 64 \<Longrightarrow> of_char (b64_char n) =
     (if n < 26 then n + 65 else if n < 52 then n + 71 else if n < 62 then n - 4 else if n = 62 then 43 else 47 :: nat)"
  by (auto simp: b64_char_def)

lemma b64_val_char:
  assumes "n < 64"
  shows "b64_val (b64_char n) = Some n"
proof -
  consider "n < 26" | "26 \<le> n" "n < 52" | "52 \<le> n" "n < 62" | "n = 62" | "n = 63" using assms by linarith
  then show ?thesis
  proof cases
    case 4
    then show ?thesis by (simp add: b64_val_def b64_char_def)
  next
    case 5
    then show ?thesis by (simp add: b64_val_def b64_char_def)
  next
    case 3
    then have "48 \<le> n - 4 \<and> n - 4 \<le> 57" by linarith
    with 3 show ?thesis by (simp add: b64_val_def of_b64_char Let_def)
  qed (simp_all add: b64_val_def of_b64_char Let_def)
qed

lemma b64_char_plain: "n < 64 \<Longrightarrow> b64_char n \<noteq> CHR 0x0A \<and> b64_char n \<noteq> CHR 0x0D"
  using of_b64_char [of n] by (auto split: if_splits)

lemma byte_bound: "(of_char c :: nat) < 256"
proof -
  have "(of_char c :: nat) \<in> {0..<256}" using range_nat_of_char by blast
  then show ?thesis by (simp only: atLeastLessThan_iff)
qed

text \<open>Three bytes cut into four groups of six bits and put together again.\<close>

lemma sextets:
  fixes x y z :: nat
  assumes "x < 256" "y < 256" "z < 256"
  shows "x div 4 < 64" "x mod 4 * 16 + y div 16 < 64" "y mod 16 * 4 + z div 64 < 64" "z mod 64 < 64"
    "x div 4 * 4 + (x mod 4 * 16 + y div 16) div 16 = x"
    "(x mod 4 * 16 + y div 16) mod 16 * 16 + (y mod 16 * 4 + z div 64) div 4 = y"
    "(y mod 16 * 4 + z div 64) mod 4 * 64 + z mod 64 = z"
proof -
  have b: "y div 16 < 16" "z div 64 < 4" using assms by simp_all
  show "x div 4 < 64" "x mod 4 * 16 + y div 16 < 64" "y mod 16 * 4 + z div 64 < 64" "z mod 64 < 64"
    using assms b mod_less_divisor [of 4 x] mod_less_divisor [of 16 y] by simp_all
  show "x div 4 * 4 + (x mod 4 * 16 + y div 16) div 16 = x" using b(1) by simp
  show "(x mod 4 * 16 + y div 16) mod 16 * 16 + (y mod 16 * 4 + z div 64) div 4 = y" using b by simp
  show "(y mod 16 * 4 + z div 64) mod 4 * 64 + z mod 64 = z" using b(2) by simp
qed

lemma b64_encode_plain: "c \<in> set (b64_encode s) \<Longrightarrow> c \<noteq> CHR 0x0A \<and> c \<noteq> CHR 0x0D"
proof (induction s rule: b64_encode.induct)
  case (2 a)
  then show ?case
    using b64_char_plain sextets [OF byte_bound [of a], of 0 0] by (auto simp: Let_def)
next
  case (3 a b)
  then show ?case
    using b64_char_plain sextets [OF byte_bound [of a] byte_bound [of b], of 0] by (auto simp: Let_def)
next
  case (4 a b c rest)
  then show ?case
    using b64_char_plain sextets [OF byte_bound [of a] byte_bound [of b] byte_bound [of c]] by (auto simp: Let_def)
qed simp

lemma b64_groups_encode: "b64_groups (b64_encode s) = s"
proof (induction s rule: b64_encode.induct)
  case (2 a)
  note s = sextets [OF byte_bound [of a], of 0 0]
  have "b64_val (CHR ''='') = None" by (simp add: b64_val_def)
  then show ?case using s by (simp add: Let_def b64_val_char)
next
  case (3 a b)
  note s = sextets [OF byte_bound [of a] byte_bound [of b], of 0]
  have "b64_val (CHR ''='') = None" by (simp add: b64_val_def)
  then show ?case using s by (simp add: Let_def b64_val_char)
next
  case (4 a b c rest)
  note s = sextets [OF byte_bound [of a] byte_bound [of b] byte_bound [of c]]
  then show ?case using 4 by (simp add: Let_def b64_val_char)
qed simp

lemma b64_decode_encode: "b64_decode (b64_encode s) = s"
proof -
  have "filter (\<lambda>c. c \<noteq> CHR 0x0A \<and> c \<noteq> CHR 0x0D) (b64_encode s) = b64_encode s"
    using b64_encode_plain by (simp add: filter_id_conv)
  then show ?thesis by (simp add: b64_decode_def b64_groups_encode)
qed

lemma b64_encode_Nil [simp]: "b64_encode s = [] \<longleftrightarrow> s = []"
  by (cases s rule: b64_encode.cases) (simp_all add: Let_def)

end
