(* ===== verification/Services.thy ===== *)
theory Services
  imports KVServer Lease GoStd
begin

text \<open>
  The small services of \<open>pkg/server\<close>: \<open>lease.go\<close> over the lease manager, \<open>cluster.go\<close> and
  \<open>maintenance.go\<close>, and the helper that shortens method names for the metrics.  The clock is an
  argument of the handlers that read it.
\<close>

section \<open>Leases\<close>

record LeaseGrantResponse =
  lg_Header :: ResponseHeader
  lg_ID :: int
  lg_TTL :: int

record LeaseKeepAliveResponse =
  lk_Header :: ResponseHeader
  lk_ID :: int
  lk_TTL :: int

record LeaseTimeToLiveResponse =
  lt_Header :: ResponseHeader
  lt_ID :: int
  lt_TTL :: int
  lt_GrantedTTL :: int

definition LeaseGrant :: "int \<Rightarrow> int \<Rightarrow> LeaseManager \<Rightarrow> world
    \<Rightarrow> (goerr + LeaseGrantResponse) \<times> LeaseManager \<times> world" where
  "LeaseGrant now req_ttl lm w =
     (let ttl = (if req_ttl \<le> 0 then 15 else req_ttl)
      in (case Lease_Grant now ttl lm w of
            (Inl e, lm1, w1) \<Rightarrow> (Inl (Status Internal (''grant lease: '' @ err_Error e)), lm1, w1)
          | (Inr lease, lm1, w1) \<Rightarrow>
              (Inr \<lparr>lg_Header = header 0, lg_ID = L_ID lease, lg_TTL = L_TTL lease\<rparr>, lm1, w1)))"

definition LeaseRevoke :: "int \<Rightarrow> LeaseManager \<Rightarrow> world
    \<Rightarrow> (goerr + ResponseHeader) \<times> LeaseManager \<times> world" where
  "LeaseRevoke lid lm w =
     (case Lease_Revoke lid lm w of
        (Some e, lm1, w1) \<Rightarrow> (Inl (Status Internal (''revoke lease: '' @ err_Error e)), lm1, w1)
      | (None, lm1, w1) \<Rightarrow> (Inr (header 0), lm1, w1))"

text \<open>
  The keepalive stream: what \<open>Recv\<close> returns each time, with the clock and the error of the
  \<open>Send\<close> that answers it.
\<close>

datatype keepalive_recv = KeepAliveEOF | KeepAliveErr goerr | KeepAliveReq int int "goerr option"

fun LeaseKeepAlive :: "keepalive_recv list \<Rightarrow> LeaseManager
    \<Rightarrow> LeaseKeepAliveResponse list \<times> goerr option \<times> LeaseManager" where
  "LeaseKeepAlive [] lm = ([], None, lm)"
| "LeaseKeepAlive (KeepAliveEOF # rs) lm = ([], None, lm)"
| "LeaseKeepAlive (KeepAliveErr e # rs) lm = ([], Some e, lm)"
| "LeaseKeepAlive (KeepAliveReq now lid sendErr # rs) lm =
     (case Lease_Keepalive now lid lm of
        (ttl, lm1) \<Rightarrow>
          (case sendErr of
             Some e \<Rightarrow> ([], Some e, lm1)
           | None \<Rightarrow>
               (case LeaseKeepAlive rs lm1 of
                  (sent, res, lm2) \<Rightarrow>
                    (\<lparr>lk_Header = header 0, lk_ID = lid, lk_TTL = ttl\<rparr> # sent, res, lm2))))"

definition LeaseTimeToLive :: "int \<Rightarrow> int \<Rightarrow> LeaseManager \<Rightarrow> goerr + LeaseTimeToLiveResponse" where
  "LeaseTimeToLive now lid lm =
     (case Lease_GetTTL now lid lm of
        None \<Rightarrow> Inl (Status NotFound (''lease not found: '' @ Itoa lid))
      | Some snap \<Rightarrow>
          Inr \<lparr>lt_Header = header 0, lt_ID = LS_ID snap, lt_TTL = LS_Remaining snap, lt_GrantedTTL = LS_TTL snap\<rparr>)"

section \<open>Cluster and maintenance\<close>

record Member =
  mb_ID :: int
  mb_Name :: string
  mb_PeerURLs :: "string list"

record MemberListResponse =
  ml_Header :: ResponseHeader
  ml_Members :: "Member list"

record ClusterServer =
  cs_memberID :: int
  cs_clusterID :: int
  cs_peerURLs :: "string list"

definition MemberList :: "ClusterServer \<Rightarrow> MemberListResponse" where
  "MemberList c =
     \<lparr>ml_Header = \<lparr>h_ClusterId = cs_clusterID c, h_MemberId = cs_memberID c, h_Revision = 0, h_RaftTerm = 1\<rparr>,
      ml_Members = [\<lparr>mb_ID = cs_memberID c, mb_Name = ''spanner-etcd'', mb_PeerURLs = cs_peerURLs c\<rparr>]\<rparr>"

record MaintenanceServer =
  ms_memberID :: int
  ms_clusterID :: int
  ms_version :: string

record StatusResponse =
  st_Header :: ResponseHeader
  st_Version :: string
  st_Leader :: int
  st_RaftTerm :: int

definition Maintenance_Status :: "MaintenanceServer \<Rightarrow> world \<Rightarrow> StatusResponse \<times> world" where
  "Maintenance_Status m w =
     (case Store_CurrentRevision w of
        (rv0, err, w1) \<Rightarrow>
          (let rv = (if err \<noteq> None then 0 else rv0)
           in (\<lparr>st_Header = \<lparr>h_ClusterId = ms_clusterID m, h_MemberId = ms_memberID m, h_Revision = rv, h_RaftTerm = 1\<rparr>,
                st_Version = ms_version m, st_Leader = ms_memberID m, st_RaftTerm = 1\<rparr>, w1)))"

section \<open>Method names\<close>

text \<open>\<open>strings.LastIndex\<close> of a byte.\<close>

fun LastIndexByte :: "string \<Rightarrow> char \<Rightarrow> int" where
  "LastIndexByte [] c = -1"
| "LastIndexByte (x # xs) c =
     (let i = LastIndexByte xs c in if i \<ge> 0 then i + 1 else if x = c then 0 else -1)"

definition shortMethod :: "string \<Rightarrow> string" where
  "shortMethod full =
     (let idx = LastIndexByte full (CHR ''.'')
      in if idx \<ge> 0 then drop (nat (idx + 1)) full else TrimPrefix full ''/'')"

lemma shortMethod_example: "shortMethod ''/etcdserverpb.KV/Range'' = ''KV/Range''" "shortMethod ''/Watch'' = ''Watch''"
  by code_simp+

section \<open>Lease requests\<close>

text \<open>A granted lease has a positive lifetime, whatever the client asked for.\<close>

lemma LeaseGrant_positive: "LeaseGrant now ttl lm w = (Inr resp, lm', w') \<Longrightarrow> 0 < lg_TTL resp"
  by (auto simp: LeaseGrant_def Lease_Grant_def newLease_def Let_def split: prod.splits sum.splits if_splits)

text \<open>
  A keepalive answered at \<open>now\<close> keeps the lease: an expiry timer that fires while more than a
  second of the renewed lifetime is left waits for the new expiry and deletes nothing.
\<close>

lemma keepalive_keeps:
  assumes "lm_leases lm lid = Some l" "0 \<le> ttlDuration (L_TTL l)"
    and "LeaseKeepAlive [KeepAliveReq now lid None, KeepAliveEOF] lm = (sent, err, lm1)"
    and "now' + nanos < now + ttlDuration (L_TTL l)" "now \<le> now'"
  shows "sent = [\<lparr>lk_Header = header 0, lk_ID = lid, lk_TTL = L_TTL l\<rparr>]" "err = None"
    "timerFired now' stopped lid lm1 w = (scheduleExpiry (l\<lparr>L_ExpiresAt := now + ttlDuration (L_TTL l)\<rparr>) lm1, w)"
proof -
  have lm1: "lm_leases lm1 lid = Some (l\<lparr>L_ExpiresAt := now + ttlDuration (L_TTL l)\<rparr>)"
    using assms(1,3) by (auto simp: Lease_Keepalive_def)
  have "time_Until now' (now + ttlDuration (L_TTL l)) > nanos"
    using assms(4) by (simp add: time_Until_def nanos_def)
  with lm1 show "timerFired now' stopped lid lm1 w =
      (scheduleExpiry (l\<lparr>L_ExpiresAt := now + ttlDuration (L_TTL l)\<rparr>) lm1, w)"
    by (simp add: timerFired_def)
  show "sent = [\<lparr>lk_Header = header 0, lk_ID = lid, lk_TTL = L_TTL l\<rparr>]" "err = None"
    using assms(1,3) by (auto simp: Lease_Keepalive_def)
qed

text \<open>A keepalive or a query for a lease the server does not know: a lifetime of 0, an error.\<close>

lemma unknown_lease:
  assumes "lm_leases lm lid = None"
  shows "LeaseKeepAlive [KeepAliveReq now lid None, KeepAliveEOF] lm =
      ([\<lparr>lk_Header = header 0, lk_ID = lid, lk_TTL = 0\<rparr>], None, lm)"
    "LeaseTimeToLive now lid lm = Inl (Status NotFound (''lease not found: '' @ Itoa lid))"
  using assms by (simp_all add: Lease_Keepalive_def LeaseTimeToLive_def Lease_GetTTL_def)

end
