(* ===== verification/ChangeStream.thy ===== *)
theory ChangeStream
  imports GoStd WatchServer
begin

text \<open>
  \<open>pkg/store/changestream.go\<close>: the reader of the change stream \<open>kv_changes\<close>.  What Spanner
  sends is a protobuf value; it is decoded into events for \<open>dispatchEvents\<close>.  The JSON parser of
  the protobuf library is a parameter, \<open>um\<close>; what the stream returns, the state of the contexts
  and the clock are arguments.
\<close>

section \<open>Values\<close>

datatype pbval = PList "pbval list" | PString string | PBool bool | PNumber | PNull

fun GetListValue :: "pbval \<Rightarrow> pbval list option" where
  "GetListValue (PList vs) = Some vs"
| "GetListValue _ = None"

fun GetStringValue :: "pbval \<Rightarrow> string" where
  "GetStringValue (PString s) = s"
| "GetStringValue _ = []"

text \<open>What \<open>AsInterface\<close> gives for a JSON value; a \<open>float64\<close> is \<open>m * 2 ^ e\<close>.\<close>

datatype jval = JStr string | JBool bool | JNum int int | JOther

type_synonym jmap = "string \<rightharpoonup> jval"

text \<open>The conversion of a \<open>float64\<close> to an \<open>int64\<close> truncates; out of range it gives the least \<open>int64\<close>.\<close>

definition float_int64 :: "int \<Rightarrow> int \<Rightarrow> int" where
  "float_int64 m e =
     (let i = (if e \<ge> 0 then m * 2 ^ nat e
               else if m \<ge> 0 then m div 2 ^ nat (- e) else - ((- m) div 2 ^ nat (- e)))
      in if in_int64 i then i else - (2 ^ 63))"

record partitionState =
  ps_token :: string
  ps_start :: int
  ps_resume :: int

section \<open>Fields\<close>

definition parseJSONMap :: "(string \<Rightarrow> jmap option) \<Rightarrow> string \<Rightarrow> jmap option" where
  "parseJSONMap um s = (if s = [] \<or> s = ''null'' then None else um s)"

text \<open>The lookup in a map that may be \<open>nil\<close>.\<close>

definition jlookup :: "jmap option \<Rightarrow> string \<Rightarrow> jval option" where
  "jlookup m k = Option.bind m (\<lambda>f. f k)"

definition tsField :: "jmap option \<Rightarrow> string \<Rightarrow> int" where
  "tsField m k =
     (case jlookup m k of
        Some (JStr s) \<Rightarrow>
          (if s \<noteq> [] then (case time_Parse s of Some t \<Rightarrow> tsToRev t | None \<Rightarrow> 0) else 0)
      | _ \<Rightarrow> 0)"

definition strField :: "jmap option \<Rightarrow> string \<Rightarrow> string" where
  "strField m k = (case jlookup m k of Some (JStr s) \<Rightarrow> s | _ \<Rightarrow> [])"

definition i64Field :: "jmap option \<Rightarrow> string \<Rightarrow> int" where
  "i64Field m k =
     (case jlookup m k of Some (JStr s) \<Rightarrow> Sscan_int64 s | Some (JNum x e) \<Rightarrow> float_int64 x e | _ \<Rightarrow> 0)"

definition bytesField :: "jmap option \<Rightarrow> string \<Rightarrow> bytes" where
  "bytesField m k =
     (case jlookup m k of Some (JStr s) \<Rightarrow> (if s \<noteq> [] then Some (b64_decode s) else None) | _ \<Rightarrow> None)"

definition boolField :: "jmap option \<Rightarrow> string \<Rightarrow> bool" where
  "boolField m k = (case jlookup m k of Some (JBool b) \<Rightarrow> b | _ \<Rightarrow> False)"

definition extractKV :: "jmap option \<Rightarrow> jmap option \<Rightarrow> int \<Rightarrow> KV option" where
  "extractKV newV oldV commitTS =
     (let src = (if newV = None then oldV else newV)
      in if src = None then None
         else if strField src ''key'' = [] then None
         else Some \<lparr>Key = strField src ''key'', Value = bytesField src ''value'',
                    OldValue = bytesField oldV ''value'', LeaseID = i64Field src ''lease_id'',
                    Deleted = boolField src ''deleted'', Created = boolField src ''created'',
                    Rev = tsField src ''rev'', CreateRevision = tsField src ''create_revision'',
                    PrevRevision = tsField src ''prev_revision''\<rparr>)"

section \<open>Records\<close>

definition decodeMod :: "(string \<Rightarrow> jmap option) \<Rightarrow> string \<Rightarrow> int \<Rightarrow> pbval \<Rightarrow> Event list" where
  "decodeMod um modType commitTS modVal =
     (case GetListValue modVal of
        None \<Rightarrow> []
      | Some fs \<Rightarrow>
          if length fs < 3 then []
          else
            (case extractKV (parseJSONMap um (GetStringValue (fs ! 1))) (parseJSONMap um (GetStringValue (fs ! 2))) commitTS of
               None \<Rightarrow> []
             | Some k \<Rightarrow>
                 [\<lparr>ev_KV = k, ev_Type = (if modType = ''DELETE'' \<or> Deleted k then EventDelete else EventPut)\<rparr>]))"

definition decodeDataChangeRecord :: "(string \<Rightarrow> jmap option) \<Rightarrow> pbval \<Rightarrow> Event list \<times> int" where
  "decodeDataChangeRecord um v =
     (case GetListValue v of
        None \<Rightarrow> ([], zeroTime)
      | Some fs \<Rightarrow>
          if length fs < 8 then ([], zeroTime)
          else
            (case time_Parse (GetStringValue (fs ! 0)) of
               None \<Rightarrow> ([], zeroTime)
             | Some commitTS \<Rightarrow>
                 if GetStringValue (fs ! 4) \<noteq> ''kv'' then ([], commitTS)
                 else
                   (case GetListValue (fs ! 6) of
                      None \<Rightarrow> ([], commitTS)
                    | Some mods \<Rightarrow>
                        (concat (map (decodeMod um (GetStringValue (fs ! 7)) commitTS) mods), commitTS))))"

definition decodeHeartbeat :: "pbval \<Rightarrow> int" where
  "decodeHeartbeat v =
     (case GetListValue v of
        None \<Rightarrow> zeroTime
      | Some fs \<Rightarrow>
          if length fs < 1 then zeroTime
          else (case time_Parse (GetStringValue (fs ! 0)) of Some t \<Rightarrow> t | None \<Rightarrow> zeroTime))"

definition childPartition :: "int \<Rightarrow> pbval \<Rightarrow> partitionState list" where
  "childPartition startTS v =
     (case GetListValue v of
        None \<Rightarrow> []
      | Some fs \<Rightarrow>
          if length fs < 1 then []
          else if GetStringValue (fs ! 0) = [] then []
          else [\<lparr>ps_token = GetStringValue (fs ! 0), ps_start = startTS, ps_resume = startTS\<rparr>])"

definition decodeChildPartitions :: "pbval \<Rightarrow> partitionState list" where
  "decodeChildPartitions v =
     (case GetListValue v of
        None \<Rightarrow> []
      | Some fs \<Rightarrow>
          if length fs < 3 then []
          else
            (let startTS = (case time_Parse (GetStringValue (fs ! 0)) of Some t \<Rightarrow> t | None \<Rightarrow> zeroTime)
             in (case GetListValue (fs ! 2) of
                   None \<Rightarrow> []
                 | Some cs \<Rightarrow> concat (map (childPartition startTS) cs))))"

record decoded =
  dc_done :: bool
  dc_maxTS :: int
  dc_events :: "Event list"
  dc_children :: "partitionState list"

definition later :: "int \<Rightarrow> int \<Rightarrow> int" where
  "later ts maxTS = (if ts > maxTS then ts else maxTS)"

definition decodeStruct :: "(string \<Rightarrow> jmap option) \<Rightarrow> pbval \<Rightarrow> decoded \<Rightarrow> decoded" where
  "decodeStruct um outerVal dc =
     (case GetListValue outerVal of
        None \<Rightarrow> dc
      | Some fs \<Rightarrow>
          if length fs < 3 then dc
          else
            (let dcrs = map (decodeDataChangeRecord um) (case GetListValue (fs ! 0) of None \<Rightarrow> [] | Some vs \<Rightarrow> vs);
                 hbs = map decodeHeartbeat (case GetListValue (fs ! 1) of None \<Rightarrow> [] | Some vs \<Rightarrow> vs);
                 cprs = (case GetListValue (fs ! 2) of None \<Rightarrow> [] | Some vs \<Rightarrow> vs)
             in dc\<lparr>dc_events := dc_events dc @ concat (map fst dcrs),
                   dc_maxTS := fold later (map snd dcrs @ hbs) (dc_maxTS dc),
                   dc_children := dc_children dc @ concat (map decodeChildPartitions cprs),
                   dc_done := (dc_done dc \<or> cprs \<noteq> [])\<rparr>))"

definition decodeRecord :: "(string \<Rightarrow> jmap option) \<Rightarrow> pbval \<Rightarrow> decoded" where
  "decodeRecord um gcv =
     fold (decodeStruct um) (case GetListValue gcv of None \<Rightarrow> [] | Some vs \<Rightarrow> vs)
       \<lparr>dc_done = False, dc_maxTS = zeroTime, dc_events = [], dc_children = []\<rparr>"

section \<open>Cursors\<close>

definition note_cursor :: "cursor_row \<Rightarrow> (string \<rightharpoonup> int) \<Rightarrow> (string \<rightharpoonup> int)" where
  "note_cursor c m = m(c_partition_token c \<mapsto> c_resume_timestamp c)"

definition loadCursors :: "string \<Rightarrow> world \<Rightarrow> (goerr + (string \<rightharpoonup> int)) \<times> world" where
  "loadCursors replicaID w =
     (case single (QCursors replicaID) (\<lambda>db. filter (\<lambda>c. c_replica_id c = replicaID) (kv_cs_cursors db)) w of
        (Inl e, w1) \<Rightarrow> (Inl e, w1)
      | (Inr rows, w1) \<Rightarrow>
          (Inr (fold note_cursor rows Map.empty), w1))"

definition flushCursor :: "string \<Rightarrow> partitionState \<Rightarrow> world \<Rightarrow> goerr option \<times> world" where
  "flushCursor replicaID p w =
     (case apply_call [InsertOrUpdateCursor replicaID (ps_token p) (ps_resume p) CommitTimestamp] w of
        (Inl e, w1) \<Rightarrow> (Some e, w1)
      | (Inr _, w1) \<Rightarrow> (None, w1))"

section \<open>Reading a partition\<close>

text \<open>
  One row of the stream: its value, or \<open>None\<close> when the column could not be decoded; which of its
  children the reader could queue before its context ended; and whether the cursor was last
  written more than five seconds ago.
\<close>

record cs_row =
  row_value :: "pbval option"
  row_queued :: "nat \<Rightarrow> bool"
  row_flush :: bool

record cs_state =
  css_part :: partitionState
  css_dispatched :: "Event list list"
  css_pending :: "partitionState list"

fun queueChildren :: "(nat \<Rightarrow> bool) \<Rightarrow> nat \<Rightarrow> partitionState list \<Rightarrow> bool \<times> partitionState list" where
  "queueChildren ok n [] = (True, [])"
| "queueChildren ok n (c # cs) =
     (if ok n then (case queueChildren ok (Suc n) cs of (all_queued, qs) \<Rightarrow> (all_queued, c # qs)) else (False, []))"

text \<open>
  The rows of one query until it ends, with the error of \<open>Next\<close> or \<open>None\<close> for \<open>iterator.Done\<close>.
  The result says whether the partition is finished.
\<close>

fun streamPartition :: "(string \<Rightarrow> jmap option) \<Rightarrow> string \<Rightarrow> cs_row list \<Rightarrow> goerr option \<Rightarrow> cs_state \<Rightarrow> world
    \<Rightarrow> bool \<times> goerr option \<times> cs_state \<times> world" where
  "streamPartition um replicaID [] err st w =
     (False, (case err of None \<Rightarrow> None | Some e \<Rightarrow> Some (Wrapped ''next'' e)), st, w)"
| "streamPartition um replicaID (row # rows) err st w =
     (case row_value row of
        None \<Rightarrow> streamPartition um replicaID rows err st w
      | Some gcv \<Rightarrow>
          (let dc = decodeRecord um gcv;
               p = css_part st;
               p1 = (if dc_maxTS dc > ps_resume p then p\<lparr>ps_resume := dc_maxTS dc\<rparr> else p);
               (all_queued, qs) = queueChildren (row_queued row) 0 (dc_children dc);
               st1 = \<lparr>css_part = p1,
                      css_dispatched = css_dispatched st @ (if dc_events dc \<noteq> [] then [dc_events dc] else []),
                      css_pending = css_pending st @ qs\<rparr>
           in if \<not> all_queued then (True, None, st1, w)
              else if dc_done dc then
                (case flushCursor replicaID p1 w of (_, w1) \<Rightarrow> (True, None, st1, w1))
              else if row_flush row then
                (case flushCursor replicaID p1 w of (_, w1) \<Rightarrow> streamPartition um replicaID rows err st1 w1)
              else streamPartition um replicaID rows err st1 w))"

text \<open>
  The attempts of \<open>readPartition\<close>: the rows and the end of each query, and whether the reader was
  stopped before or after it.
\<close>

fun readPartition :: "(string \<Rightarrow> jmap option) \<Rightarrow> string \<Rightarrow> (cs_row list \<times> goerr option \<times> bool) list
    \<Rightarrow> cs_state \<Rightarrow> world \<Rightarrow> cs_state \<times> world" where
  "readPartition um replicaID [] st w = (st, w)"
| "readPartition um replicaID ((rows, err, stopped) # qs) st w =
     (if stopped then (st, w)
      else
        (case streamPartition um replicaID rows err st w of
           (finished, e, st1, w1) \<Rightarrow>
             if finished then (st1, w1)
             else if (case e of None \<Rightarrow> False | Some x \<Rightarrow> errors_Is x ContextCanceled \<or> errors_Is x ContextDeadlineExceeded)
             then (st1, w1)
             else readPartition um replicaID qs st1 w1))"

section \<open>The reader\<close>

fun initialLoop :: "(string \<Rightarrow> jmap option) \<Rightarrow> pbval option list \<Rightarrow> goerr option \<Rightarrow> partitionState list
    \<Rightarrow> goerr + partitionState list" where
  "initialLoop um [] err ps = (case err of Some e \<Rightarrow> Inl (Wrapped ''initial partition query'' e) | None \<Rightarrow> Inr ps)"
| "initialLoop um (None # rows) err ps = initialLoop um rows err ps"
| "initialLoop um (Some gcv # rows) err ps =
     (let dc = decodeRecord um gcv; ps1 = ps @ dc_children dc
      in if dc_done dc then Inr ps1 else initialLoop um rows err ps1)"

definition queryInitialPartitions :: "(string \<Rightarrow> jmap option) \<Rightarrow> pbval option list \<Rightarrow> goerr option
    \<Rightarrow> goerr + partitionState list" where
  "queryInitialPartitions um rows err =
     (case initialLoop um rows err [] of
        Inl e \<Rightarrow> Inl e
      | Inr ps \<Rightarrow>
          if ps = [] then Inl (Errorf ''no partitions returned: Change Streams may not be available'') else Inr ps)"

definition startTime :: "int \<Rightarrow> (string \<rightharpoonup> int) \<Rightarrow> string list \<Rightarrow> int" where
  "startTime now cursors tokens =
     fold (\<lambda>tok t0. case cursors tok of Some t \<Rightarrow> if t < t0 then t else t0 | None \<Rightarrow> t0) tokens (now - 10 ^ 9)"

text \<open>
  The first part of \<open>Start\<close>: the partitions it puts on the channel.  \<open>tokens\<close> is the order in
  which Go goes through the map of the cursors; \<open>query t\<close> is what the stream returns from \<open>t\<close> on.
\<close>

definition startPartitions :: "(string \<Rightarrow> jmap option) \<Rightarrow> string \<Rightarrow> int \<Rightarrow> string list
    \<Rightarrow> (int \<Rightarrow> pbval option list \<times> goerr option) \<Rightarrow> world \<Rightarrow> (goerr + partitionState list) \<times> world" where
  "startPartitions um replicaID now tokens query w =
     (case loadCursors replicaID w of
        (res, w1) \<Rightarrow>
          (let cursors = (case res of Inl e \<Rightarrow> Map.empty | Inr m \<Rightarrow> m);
               t0 = startTime now cursors tokens;
               (rows, err) = query t0
           in (case queryInitialPartitions um rows err of
                 Inl e \<Rightarrow> (Inl (Wrapped ''query initial partitions'' e), w1)
               | Inr ps \<Rightarrow>
                   (Inr (map (\<lambda>p. p\<lparr>ps_resume := (case cursors (ps_token p) of Some t \<Rightarrow> t | None \<Rightarrow> t0)\<rparr>) ps), w1))))"

text \<open>
  The select loop of \<open>Start\<close> with the ends of its workers: the active partitions, by token, and
  the workers started.
\<close>

record cs_reader =
  rd_active :: "string list"
  rd_started :: "partitionState list"

datatype reader_event = TakePending partitionState | WorkerDone string

fun readerStep :: "reader_event \<Rightarrow> cs_reader \<Rightarrow> cs_reader" where
  "readerStep (TakePending p) rd =
     (if ps_token p \<in> set (rd_active rd) then rd
      else rd\<lparr>rd_active := rd_active rd @ [ps_token p], rd_started := rd_started rd @ [p]\<rparr>)"
| "readerStep (WorkerDone tok) rd = rd\<lparr>rd_active := removeAll tok (rd_active rd)\<rparr>"

definition shortToken :: "string \<Rightarrow> string" where
  "shortToken t = (if length t > 12 then take 12 t @ [CHR 0xE2, CHR 0x80, CHR 0xA6] else t)"

section \<open>What the stream says about the log\<close>

text \<open>
  The JSON object of a row as the stream, created with \<open>value_capture_type = 'NEW_ROW'\<close>, shows
  it: bytes in base64, integers as decimal strings, timestamps in RFC 3339, \<open>NULL\<close> as \<open>null\<close>.
  The record of the rows inserted by one transaction, and of rows removed by one; such a stream
  has no old values, and no new values for a removed row.
\<close>

definition bytes_json :: "bytes \<Rightarrow> jval" where
  "bytes_json b = (case b of None \<Rightarrow> JOther | Some s \<Rightarrow> JStr (b64_encode s))"

definition ts_json :: "int option \<Rightarrow> jval" where
  "ts_json t = (case t of None \<Rightarrow> JOther | Some t \<Rightarrow> JStr (formatRFC3339Nano t))"

definition row_json :: "kv_row \<Rightarrow> jmap" where
  "row_json r =
     [''rev'' \<mapsto> JStr (formatRFC3339Nano (r_rev r)), ''key'' \<mapsto> JStr (r_key r), ''value'' \<mapsto> bytes_json (r_value r),
      ''old_value'' \<mapsto> bytes_json (r_old_value r), ''lease_id'' \<mapsto> JStr (Itoa (r_lease_id r)),
      ''deleted'' \<mapsto> JBool (r_deleted r), ''created'' \<mapsto> JBool (r_created r),
      ''create_revision'' \<mapsto> ts_json (r_create_revision r), ''prev_revision'' \<mapsto> ts_json (r_prev_revision r)]"

definition change_mod :: "string \<Rightarrow> pbval" where
  "change_mod new_values = PList [PString ''{}'', PString new_values, PString ''{}'']"

definition change_record :: "int \<Rightarrow> pbval list \<Rightarrow> string \<Rightarrow> pbval" where
  "change_record ts mods modType =
     PList [PString (formatRFC3339Nano ts), PString ''0'', PString [], PBool True, PString ''kv'', PList [],
            PList mods, PString modType, PString ''NEW_ROW'']"

definition data_row :: "pbval \<Rightarrow> pbval" where
  "data_row rec = PList [PList [PList [rec], PList [], PList []]]"

text \<open>The event a row becomes: as polled, but without the old value, and an empty value is none.\<close>

definition cs_event :: "kv_row \<Rightarrow> Event" where
  "cs_event r = (rowEvent r)\<lparr>ev_KV := (scanKV r)\<lparr>OldValue := None,
     Value := (if r_value r = Some [] then None else r_value r)\<rparr>\<rparr>"

lemma formatRFC3339Nano_ne: "formatRFC3339Nano t \<noteq> []"
  by (simp add: formatRFC3339Nano_def Let_def split: prod.splits)

lemma ts_json_field: "0 < t \<Longrightarrow> t < 2 ^ 63 \<Longrightarrow> m k = Some (ts_json (Some t)) \<Longrightarrow> tsField (Some m) k = tsToRev t"
  by (simp add: tsField_def jlookup_def ts_json_def time_Parse_format formatRFC3339Nano_ne)

lemma ts_json_null: "m k = Some (ts_json None) \<Longrightarrow> tsField (Some m) k = 0"
  by (simp add: tsField_def jlookup_def ts_json_def)

lemma bytes_json_field:
  "m k = Some (bytes_json b) \<Longrightarrow> bytesField (Some m) k = (if b = Some [] then None else b)"
  by (auto simp: bytesField_def jlookup_def bytes_json_def b64_decode_encode split: option.splits)

lemma row_json_simps [simp]:
  "row_json r ''rev'' = Some (ts_json (Some (r_rev r)))" "row_json r ''key'' = Some (JStr (r_key r))"
  "row_json r ''value'' = Some (bytes_json (r_value r))" "row_json r ''lease_id'' = Some (JStr (Itoa (r_lease_id r)))"
  "row_json r ''deleted'' = Some (JBool (r_deleted r))" "row_json r ''created'' = Some (JBool (r_created r))"
  "row_json r ''create_revision'' = Some (ts_json (r_create_revision r))"
  "row_json r ''prev_revision'' = Some (ts_json (r_prev_revision r))"
  by (simp_all add: row_json_def ts_json_def)

lemma extractKV_row:
  assumes "wf_row r" "in_int64 (r_lease_id r)" "r_key r \<noteq> []"
  shows "extractKV (Some (row_json r)) (Some Map.empty) ts = Some (ev_KV (cs_event r))"
proof -
  from assms(1) obtain c where c: "r_create_revision r = Some c" "0 < c" "c < 2 ^ 63"
    by (auto simp: wf_row_def split: option.splits)
  have prev: "tsField (Some (row_json r)) ''prev_revision'' = PrevRevision (scanKV r)"
    using assms(1) c(1)
    by (cases "r_prev_revision r") (auto simp: ts_json_null wf_row_def scanKV_def intro!: ts_json_field)
  have rv: "tsField (Some (row_json r)) ''rev'' = Rev (scanKV r)"
    "tsField (Some (row_json r)) ''create_revision'' = CreateRevision (scanKV r)"
    using assms(1) c by (auto simp: wf_row_def scanKV_def intro!: ts_json_field)
  show ?thesis
    using assms(2,3) prev rv
    by (simp add: extractKV_def Let_def strField_def i64Field_def boolField_def jlookup_def Sscan_Itoa
        bytes_json_field cs_event_def bytesField_def [of "Some Map.empty"]) (simp add: scanKV_def)
qed

lemma zeroTime_neg: "zeroTime < 0"
  by (simp add: zeroTime_def unix_nanos_def daysToYear_def)

lemma decode_insert:
  assumes "wf_row r" "in_int64 (r_lease_id r)" "r_key r \<noteq> []"
    and "j \<noteq> []" "j \<noteq> ''null''" "um j = Some (row_json r)" "um ''{}'' = Some Map.empty"
  shows "decodeMod um ''INSERT'' ts (change_mod j) = [cs_event r]"
  using assms extractKV_row [OF assms(1-3), of ts]
  by (simp add: decodeMod_def change_mod_def parseJSONMap_def) (simp add: cs_event_def rowEvent_def scanKV_def)

lemma decode_mods:
  assumes "\<And>r. r \<in> set rs \<Longrightarrow> wf_row r \<and> in_int64 (r_lease_id r) \<and> r_key r \<noteq> [] \<and>
      js r \<noteq> [] \<and> js r \<noteq> ''null'' \<and> um (js r) = Some (row_json r)"
    and "um ''{}'' = Some Map.empty"
  shows "concat (map (decodeMod um ''INSERT'' ts) (map (\<lambda>r. change_mod (js r)) rs)) = map cs_event rs"
  using assms by (induction rs) (simp_all add: decode_insert)

text \<open>
  C9: the change stream and the log agree.  The record of a transaction that inserted rows into
  the log decodes to one event per row, in the order of the record, with the same key, value,
  revisions, lease and type as the event a poll makes of the row, and moves the resume timestamp
  to the commit; only the previous value is missing.  The record of rows that compaction removed
  decodes to no event at all.
\<close>

theorem change_record_decoded:
  assumes "\<And>r. r \<in> set rs \<Longrightarrow> wf_row r \<and> in_int64 (r_lease_id r) \<and> r_key r \<noteq> [] \<and>
      js r \<noteq> [] \<and> js r \<noteq> ''null'' \<and> um (js r) = Some (row_json r)"
    and "um ''{}'' = Some Map.empty" "0 < ts" "ts < 2 ^ 63"
  shows "decodeRecord um (data_row (change_record ts (map (\<lambda>r. change_mod (js r)) rs) ''INSERT'')) =
      \<lparr>dc_done = False, dc_maxTS = ts, dc_events = map cs_event rs, dc_children = []\<rparr> \<and>
    decodeRecord um (data_row (change_record ts (replicate n (change_mod ''{}'')) ''DELETE'')) =
      \<lparr>dc_done = False, dc_maxTS = ts, dc_events = [], dc_children = []\<rparr>"
proof -
  have t: "time_Parse (formatRFC3339Nano ts) = Some ts" using assms(3,4) by (simp add: time_Parse_format)
  have z: "later ts zeroTime = ts" using assms(3) zeroTime_neg by (simp add: later_def)
  have del: "decodeMod um ''DELETE'' ts (change_mod ''{}'') = []"
    using assms(2) by (simp add: decodeMod_def change_mod_def parseJSONMap_def extractKV_def strField_def jlookup_def)
  have one: "decodeRecord um (data_row (change_record ts mods ty)) =
      \<lparr>dc_done = False, dc_maxTS = ts, dc_events = concat (map (decodeMod um ty ts) mods), dc_children = []\<rparr>"
    for mods ty
    using t z by (simp add: decodeRecord_def data_row_def change_record_def decodeStruct_def Let_def
        decodeDataChangeRecord_def)
  have "concat (map (decodeMod um ''DELETE'' ts) (replicate n (change_mod ''{}''))) = []"
    using del by (simp add: map_replicate)
  then show ?thesis using decode_mods [of rs js um ts, OF assms(1,2)] unfolding one by simp
qed

definition demo_um :: "string \<Rightarrow> jmap option" where
  "demo_um s = (if s = ''{}'' then Some Map.empty
     else if s = ''row'' then Some (row_json (demo_row 3 30 ''a'' (Some ''y'') (Some ''x'') 7 False 10 (Some 10)))
     else None)"

theorem change_record_decoded_witness:
  "map (\<lambda>ev. (Key (ev_KV ev), Value (ev_KV ev), Rev (ev_KV ev), PrevRevision (ev_KV ev)))
     (dc_events (decodeRecord demo_um (data_row (change_record 30 [change_mod ''row''] ''INSERT'')))) =
   [(''a'', Some ''y'', 30, 10)]"
proof -
  let ?r = "demo_row 3 30 ''a'' (Some ''y'') (Some ''x'') 7 False 10 (Some 10)"
  have "wf_row ?r" by (simp add: wf_row_def demo_row_def)
  then show ?thesis
    using change_record_decoded [of "[?r]" "\<lambda>_. ''row''" demo_um 30]
    by (simp add: demo_um_def in_int64_def) (simp add: demo_row_def cs_event_def scanKV_def tsToRev_id)
qed

text \<open>An event of the change stream never has the previous value the Kubernetes client asks for.\<close>

lemma cs_event_lacks_prev: "pe_PrevKv (toWatchEvent (cs_event r)) = None"
  by (simp add: toWatchEvent_def cs_event_def Let_def)

section \<open>Resuming\<close>

definition cursor_map :: "string \<Rightarrow> database \<Rightarrow> string \<rightharpoonup> int" where
  "cursor_map rid db =
     fold note_cursor (filter (\<lambda>c. c_replica_id c = rid) (kv_cs_cursors db)) Map.empty"

lemma loadCursors_eq:
  "ce_err (this_call w) (QCursors rid) = None \<Longrightarrow>
     loadCursors rid w = (Inr (cursor_map rid (at_call w)), served w)"
  by (simp add: loadCursors_def single_eq cursor_map_def)

lemma fold_cursors_cong: "m1 tok = m2 tok \<Longrightarrow> fold note_cursor cs m1 tok = fold note_cursor cs m2 tok"
proof (induction cs arbitrary: m1 m2)
  case (Cons c cs)
  then have "note_cursor c m1 tok = note_cursor c m2 tok" by (simp add: note_cursor_def)
  with Cons.IH [of "note_cursor c m1" "note_cursor c m2"] show ?case by simp
qed simp

lemma fold_cursors_other:
  assumes "tok \<noteq> tok'"
  shows "fold note_cursor (filter (\<lambda>c. c_partition_token c \<noteq> tok) cs) m tok' = fold note_cursor cs m tok'"
proof (induction cs arbitrary: m)
  case (Cons c cs)
  have "fold note_cursor cs (note_cursor c m) tok' = fold note_cursor cs m tok'" if "c_partition_token c = tok"
    using that assms by (intro fold_cursors_cong) (simp add: note_cursor_def)
  with Cons show ?case by simp
qed simp

text \<open>
  What \<open>flushCursor\<close> writes, \<open>loadCursors\<close> reads back after a restart of the same replica; the
  cursors of other partitions and of other replicas stay.
\<close>

lemma flush_load:
  assumes "ce_fate (this_call w) = Committed" "flushCursor rid p w = (err, w1)"
  shows "err = None" "cursor_map rid (w_db w1) = (cursor_map rid (at_call w))(ps_token p \<mapsto> ps_resume p)"
    "rid' \<noteq> rid \<Longrightarrow> cursor_map rid' (w_db w1) = cursor_map rid' (at_call w)"
    "kv (w_db w1) = kv (at_call w)"
proof -
  let ?rows = "kv_cs_cursors (at_call w)"
  let ?c = "\<lparr>c_replica_id = rid, c_partition_token = ps_token p, c_resume_timestamp = ps_resume p,
      c_updated_at = ce_ts (this_call w)\<rparr>"
  have db: "w_db w1 = (at_call w)\<lparr>kv_cs_cursors :=
      filter (\<lambda>c. \<not> (c_replica_id c = rid \<and> c_partition_token c = ps_token p)) ?rows @ [?c]\<rparr>" and e: "err = None"
    using assms by (auto simp: flushCursor_def apply_call_eq commit_def)
  show "err = None" "kv (w_db w1) = kv (at_call w)" using e db by simp_all
  have f: "filter (\<lambda>c. c_replica_id c = rid) (filter (\<lambda>c. c_replica_id c = rid \<longrightarrow> c_partition_token c \<noteq> ps_token p) ?rows) =
      filter (\<lambda>c. c_partition_token c \<noteq> ps_token p) (filter (\<lambda>c. c_replica_id c = rid) ?rows)"
    unfolding filter_filter by (rule filter_cong) auto
  show "cursor_map rid (w_db w1) = (cursor_map rid (at_call w))(ps_token p \<mapsto> ps_resume p)"
  proof
    fix tok
    show "cursor_map rid (w_db w1) tok = ((cursor_map rid (at_call w))(ps_token p \<mapsto> ps_resume p)) tok"
      using fold_cursors_other [of "ps_token p" tok]
      by (cases "tok = ps_token p") (simp_all add: cursor_map_def db f note_cursor_def [of ?c] del: filter_filter)
  qed
  assume "rid' \<noteq> rid"
  then have "filter (\<lambda>c. c_replica_id c = rid') (filter (\<lambda>c. \<not> (c_replica_id c = rid \<and> c_partition_token c = ps_token p)) ?rows) =
      filter (\<lambda>c. c_replica_id c = rid') ?rows"
    unfolding filter_filter by (intro filter_cong) auto
  with \<open>rid' \<noteq> rid\<close> show "cursor_map rid' (w_db w1) = cursor_map rid' (at_call w)"
    by (simp add: cursor_map_def db)
qed

text \<open>
  A query dispatches the events of the rows it has read, all of them and in their order, and its
  resume timestamp is the latest of exactly these rows: a later query from there on misses nothing.
\<close>

definition row_decoded :: "(string \<Rightarrow> jmap option) \<Rightarrow> cs_row \<Rightarrow> decoded option" where
  "row_decoded um row = map_option (decodeRecord um) (row_value row)"

lemma streamPartition_prefix:
  "streamPartition um rid rows err st w = (finished, e, st', w') \<Longrightarrow>
   \<exists>n \<le> length rows. let read = List.map_filter (row_decoded um) (take n rows) in
     css_dispatched st' = css_dispatched st @ filter (\<lambda>b. b \<noteq> []) (map dc_events read) \<and>
     ps_resume (css_part st') = fold later (map dc_maxTS read) (ps_resume (css_part st)) \<and>
     ps_token (css_part st') = ps_token (css_part st) \<and> (\<not> finished \<longrightarrow> n = length rows)"
proof (induction rows arbitrary: st w)
  case Nil
  then show ?case by (simp add: Let_def map_filter_simps)
next
  case (Cons row rows)
  show ?case
  proof (cases "row_value row")
    case None
    with Cons.prems Cons.IH [of st w] obtain n where "n \<le> length rows"
      "let read = List.map_filter (row_decoded um) (take n rows) in
         css_dispatched st' = css_dispatched st @ filter (\<lambda>b. b \<noteq> []) (map dc_events read) \<and>
         ps_resume (css_part st') = fold later (map dc_maxTS read) (ps_resume (css_part st)) \<and>
         ps_token (css_part st') = ps_token (css_part st) \<and> (\<not> finished \<longrightarrow> n = length rows)"
      by auto
    moreover have "row_decoded um row = None" using None by (simp add: row_decoded_def)
    ultimately show ?thesis by (intro exI [of _ "Suc n"]) (simp add: Let_def map_filter_simps)
  next
    case (Some gcv)
    let ?dc = "decodeRecord um gcv" and ?p = "css_part st"
    let ?p1 = "if dc_maxTS ?dc > ps_resume ?p then ?p\<lparr>ps_resume := dc_maxTS ?dc\<rparr> else ?p"
    obtain q qs where q: "queueChildren (row_queued row) 0 (dc_children ?dc) = (q, qs)" by fastforce
    let ?st1 = "\<lparr>css_part = ?p1, css_dispatched = css_dispatched st @ (if dc_events ?dc \<noteq> [] then [dc_events ?dc] else []),
        css_pending = css_pending st @ qs\<rparr>"
    obtain e1 w1 where fl: "flushCursor rid ?p1 w = (e1, w1)" by fastforce
    have r: "ps_resume ?p1 = later (dc_maxTS ?dc) (ps_resume ?p)" "ps_token ?p1 = ps_token ?p" by (simp_all add: later_def)
    have d: "row_decoded um row = Some ?dc" using Some by (simp add: row_decoded_def)
    show ?thesis
    proof (cases "q \<and> \<not> dc_done ?dc")
      case False
      then have "st' = ?st1" "finished" using Cons.prems Some q fl by (auto simp: Let_def split: if_splits)
      then show ?thesis using r d by (intro exI [of _ 1]) (simp add: Let_def map_filter_simps)
    next
      case True
      then obtain w2 where "streamPartition um rid rows err ?st1 w2 = (finished, e, st', w')"
        using Cons.prems Some q fl by (cases "row_flush row") (auto simp: Let_def)
      from Cons.IH [OF this] obtain n where "n \<le> length rows"
        "let read = List.map_filter (row_decoded um) (take n rows) in
           css_dispatched st' = css_dispatched ?st1 @ filter (\<lambda>b. b \<noteq> []) (map dc_events read) \<and>
           ps_resume (css_part st') = fold later (map dc_maxTS read) (ps_resume ?p1) \<and>
           ps_token (css_part st') = ps_token ?p1 \<and> (\<not> finished \<longrightarrow> n = length rows)"
        by auto
      then show ?thesis using r d by (intro exI [of _ "Suc n"]) (simp add: Let_def map_filter_simps)
    qed
  qed
qed

lemma active_distinct: "distinct (rd_active rd) \<Longrightarrow> distinct (rd_active (readerStep ev rd))"
  by (cases ev) (simp_all add: distinct_removeAll)

end
