(* ===== verification/Watch_Steps.thy ===== *)
theory Watch_Steps
  imports Watch
begin

text \<open>
  The watcher's goroutines interleaved: any number of subscriptions, each with its goroutine,
  any number of calls of \<open>dispatchEvents\<close> in flight (from the poll loop and from the partition
  readers of the change stream), clients that receive, contexts that are cancelled, and the rest
  of the program changing the database in between.  A step is what one goroutine does between two
  points where it touches something shared.
\<close>

section \<open>Steps\<close>

text \<open>Where the goroutine of a subscription is.\<close>

datatype sub_pc =
    AtStart int
  | AtReplay int
  | AtSend "Event list" int bool
  | AtWait
  | AtClose
  | AtRemove
  | AtDrain
  | AtSentinel
  | AtExit

text \<open>
  A call of \<open>dispatchEvents\<close>: its events, its copy of the subscribers, the position of its loop
  and, between the check of \<open>closed\<close> and the send, the batch for the subscriber there.
\<close>

record dispatcher =
  di_events :: "Event list"
  di_subs :: "nat list"
  di_pos :: nat
  di_batch :: "Event list option"

record wsys =
  ws_wt :: Watcher
  ws_world :: world
  ws_pc :: "nat \<Rightarrow> sub_pc"
  ws_disp :: "nat \<Rightarrow> dispatcher"
  ws_ndisp :: nat

datatype wstep =
    Subscribe string int
  | SubStep nat
  | SubGiveUp nat
  | CtxCancel nat
  | Receive nat
  | Dispatch "Event list"
  | DispStep nat
  | OtherWork world

definition the_sub :: "wsys \<Rightarrow> nat \<Rightarrow> subscriber" where
  "the_sub sys s = wt_sub (ws_wt sys) s"

definition set_sub :: "nat \<Rightarrow> subscriber \<Rightarrow> wsys \<Rightarrow> wsys" where
  "set_sub s sub sys = sys\<lparr>ws_wt := (ws_wt sys)\<lparr>wt_sub := (wt_sub (ws_wt sys))(s := sub)\<rparr>\<rparr>"

definition goto :: "nat \<Rightarrow> sub_pc \<Rightarrow> wsys \<Rightarrow> wsys" where
  "goto s pc sys = sys\<lparr>ws_pc := (ws_pc sys)(s := pc)\<rparr>"

definition doSubscribe :: "string \<Rightarrow> int \<Rightarrow> wsys \<Rightarrow> wsys" where
  "doSubscribe p afterRev sys =
     (case subscribe p (ws_wt sys) of (s, wt) \<Rightarrow> goto s (AtStart afterRev) (sys\<lparr>ws_wt := wt\<rparr>))"

text \<open>The next step of the goroutine; \<open>None\<close> when it is blocked or has returned.\<close>

definition subStep :: "nat \<Rightarrow> wsys \<Rightarrow> wsys option" where
  "subStep s sys =
     (let sub = the_sub sys s
      in (case ws_pc sys s of
            AtStart afterRev \<Rightarrow>
              (if afterRev = 0 then Some (goto s AtWait sys)
               else (case replayAllowed afterRev (ws_world sys) of (ok, w) \<Rightarrow>
                       Some (goto s (if ok then AtReplay (wrap64 (afterRev - 1)) else AtClose)
                         (sys\<lparr>ws_world := w\<rparr>))))
          | AtReplay replayRev \<Rightarrow>
              (case replayPage (sub_prefix sub) replayRev (ws_world sys) of
                 (Inl e, w) \<Rightarrow> Some (goto s AtClose (sys\<lparr>ws_world := w\<rparr>))
               | (Inr (events, next_rev, again), w) \<Rightarrow>
                   Some (goto s (if events \<noteq> [] then AtSend events next_rev again
                                 else if again then AtReplay next_rev else AtWait)
                     (sys\<lparr>ws_world := w\<rparr>)))
          | AtSend events next_rev again \<Rightarrow>
              map_option (\<lambda>sub'. goto s (if again then AtReplay next_rev else AtWait) (set_sub s sub' sys))
                (trySend events sub)
          | AtWait \<Rightarrow> if sub_cancelled sub then Some (goto s AtClose sys) else None
          | AtClose \<Rightarrow> Some (goto s AtRemove (set_sub s (sub\<lparr>sub_closed := True\<rparr>) sys))
          | AtRemove \<Rightarrow> Some (goto s AtDrain (sys\<lparr>ws_wt := removeSub s (ws_wt sys)\<rparr>))
          | AtDrain \<Rightarrow>
              (case sub_ch sub of
                 [] \<Rightarrow> Some (goto s AtSentinel sys)
               | _ # rest \<Rightarrow> Some (set_sub s (sub\<lparr>sub_ch := rest\<rparr>) sys))
          | AtSentinel \<Rightarrow> map_option (\<lambda>sub'. goto s AtExit (set_sub s sub' sys)) (trySend closedSentinel sub)
          | AtExit \<Rightarrow> None))"

text \<open>
  The other branch of the goroutine's two sends: the context of the subscription is done, or the
  sentinel did not fit within its timeout.
\<close>

definition subGiveUp :: "nat \<Rightarrow> wsys \<Rightarrow> wsys option" where
  "subGiveUp s sys =
     (case ws_pc sys s of
        AtSend events next_rev again \<Rightarrow>
          if sub_cancelled (the_sub sys s) then Some (goto s AtClose sys) else None
      | AtSentinel \<Rightarrow>
          if trySend closedSentinel (the_sub sys s) = None then Some (goto s AtExit sys) else None
      | _ \<Rightarrow> None)"

definition doDispatch :: "Event list \<Rightarrow> wsys \<Rightarrow> wsys" where
  "doDispatch events sys =
     (if events = [] then sys
      else sys\<lparr>ws_disp := (ws_disp sys)(ws_ndisp sys :=
                 \<lparr>di_events = events, di_subs = wt_subscribers (ws_wt sys), di_pos = 0, di_batch = None\<rparr>),
               ws_ndisp := Suc (ws_ndisp sys)\<rparr>)"

definition dispStep :: "nat \<Rightarrow> wsys \<Rightarrow> wsys option" where
  "dispStep i sys =
     (let d = ws_disp sys i
      in if length (di_subs d) \<le> di_pos d then None
         else
           (let s = di_subs d ! di_pos d; sub = the_sub sys s
            in (case di_batch d of
                  None \<Rightarrow>
                    (let batch = matching sub (di_events d)
                     in if batch = [] \<or> sub_closed sub
                        then Some (sys\<lparr>ws_disp := (ws_disp sys)(i := d\<lparr>di_pos := Suc (di_pos d)\<rparr>)\<rparr>)
                        else Some (sys\<lparr>ws_disp := (ws_disp sys)(i := d\<lparr>di_batch := Some batch\<rparr>)\<rparr>))
                | Some batch \<Rightarrow>
                    Some (set_sub s (sendOrCancel batch sub)
                      (sys\<lparr>ws_disp := (ws_disp sys)(i := d\<lparr>di_pos := Suc (di_pos d), di_batch := None\<rparr>)\<rparr>)))))"

fun wexec :: "wstep \<Rightarrow> wsys \<Rightarrow> wsys option" where
  "wexec (Subscribe p afterRev) sys = Some (doSubscribe p afterRev sys)"
| "wexec (SubStep s) sys = (if s < wt_next (ws_wt sys) then subStep s sys else None)"
| "wexec (SubGiveUp s) sys = (if s < wt_next (ws_wt sys) then subGiveUp s sys else None)"
| "wexec (CtxCancel s) sys =
     (if s < wt_next (ws_wt sys)
      then Some (set_sub s ((the_sub sys s)\<lparr>sub_cancelled := True\<rparr>) sys) else None)"
| "wexec (Receive s) sys =
     (if s < wt_next (ws_wt sys)
      then (case sub_ch (the_sub sys s) of
              [] \<Rightarrow> None
            | _ # rest \<Rightarrow> Some (set_sub s ((the_sub sys s)\<lparr>sub_ch := rest\<rparr>) sys))
      else None)"
| "wexec (Dispatch events) sys = Some (doDispatch events sys)"
| "wexec (DispStep i) sys = (if i < ws_ndisp sys then dispStep i sys else None)"
| "wexec (OtherWork w) sys = Some (sys\<lparr>ws_world := w\<rparr>)"

section \<open>What went over the channels\<close>

text \<open>
  For every subscription, what was sent on its channel, with the dispatcher that sent it or
  \<open>None\<close> for its own goroutine, and what its client received.
\<close>

record whist =
  h_sent :: "nat \<Rightarrow> (nat option \<times> Event list) list"
  h_recv :: "nat \<Rightarrow> Event list list"

definition sent_by :: "nat option \<Rightarrow> nat \<Rightarrow> Event list \<Rightarrow> wsys \<Rightarrow> whist \<Rightarrow> whist" where
  "sent_by who s batch sys h =
     (if trySend batch (the_sub sys s) = None then h
      else h\<lparr>h_sent := (h_sent h)(s := h_sent h s @ [(who, batch)])\<rparr>)"

fun observe :: "wstep \<Rightarrow> wsys \<Rightarrow> whist \<Rightarrow> whist" where
  "observe (SubStep s) sys h =
     (case ws_pc sys s of
        AtSend events next_rev again \<Rightarrow> sent_by None s events sys h
      | AtSentinel \<Rightarrow> sent_by None s closedSentinel sys h
      | _ \<Rightarrow> h)"
| "observe (Receive s) sys h = h\<lparr>h_recv := (h_recv h)(s := h_recv h s @ [hd (sub_ch (the_sub sys s))])\<rparr>"
| "observe (DispStep i) sys h =
     (let d = ws_disp sys i
      in (case di_batch d of None \<Rightarrow> h | Some batch \<Rightarrow> sent_by (Some i) (di_subs d ! di_pos d) batch sys h))"
| "observe _ sys h = h"

definition init_wsys :: "world \<Rightarrow> wsys" where
  "init_wsys w = \<lparr>ws_wt = newWatcher, ws_world = w, ws_pc = (\<lambda>_. AtExit),
     ws_disp = (\<lambda>_. \<lparr>di_events = [], di_subs = [], di_pos = 0, di_batch = None\<rparr>), ws_ndisp = 0\<rparr>"

inductive wreach :: "wsys \<Rightarrow> whist \<Rightarrow> bool" where
  start: "wreach (init_wsys w) \<lparr>h_sent = (\<lambda>_. []), h_recv = (\<lambda>_. [])\<rparr>"
| step: "wreach sys h \<Longrightarrow> wexec st sys = Some sys' \<Longrightarrow> wreach sys' (observe st sys h)"

section \<open>The invariant\<close>

definition is_open :: "subscriber \<Rightarrow> bool" where
  "is_open sub \<longleftrightarrow> \<not> sub_closed sub \<and> \<not> sub_cancelled sub"

definition sub_inv :: "wsys \<Rightarrow> whist \<Rightarrow> nat \<Rightarrow> bool" where
  "sub_inv sys h s \<longleftrightarrow>
     (let sub = the_sub sys s; pc = ws_pc sys s
      in length (sub_ch sub) \<le> subChannelDepth \<and>
         (sub_closed sub \<longleftrightarrow> pc \<in> {AtRemove, AtDrain, AtSentinel, AtExit}) \<and>
         (s \<in> set (wt_subscribers (ws_wt sys)) \<longleftrightarrow> pc \<notin> {AtDrain, AtSentinel, AtExit}) \<and>
         (pc \<in> {AtDrain, AtSentinel, AtExit} \<longrightarrow> sub_cancelled sub) \<and>
         (\<forall>r again. pc \<noteq> AtSend [] r again) \<and>
         (\<not> sub_closed sub \<longrightarrow> h_recv h s @ sub_ch sub = map snd (h_sent h s) \<and>
            closedSentinel \<notin> snd ` set (h_sent h s)))"

definition disp_inv :: "wsys \<Rightarrow> nat \<Rightarrow> bool" where
  "disp_inv sys i \<longleftrightarrow>
     (let d = ws_disp sys i
      in distinct (di_subs d) \<and> set (di_subs d) \<subseteq> {..<wt_next (ws_wt sys)} \<and>
         di_pos d \<le> length (di_subs d) \<and>
         (\<forall>b. di_batch d = Some b \<longrightarrow> di_pos d < length (di_subs d) \<and>
            b = matching (the_sub sys (di_subs d ! di_pos d)) (di_events d) \<and> b \<noteq> []))"

text \<open>What dispatcher \<open>i\<close> owes subscriber \<open>s\<close> at its position.\<close>

definition owed :: "wsys \<Rightarrow> nat \<Rightarrow> nat \<Rightarrow> (nat option \<times> Event list) list" where
  "owed sys i s =
     (let d = ws_disp sys i; batch = matching (the_sub sys s) (di_events d)
      in if s \<in> set (take (di_pos d) (di_subs d)) \<and> batch \<noteq> [] then [(Some i, batch)] else [])"

definition delivered :: "wsys \<Rightarrow> whist \<Rightarrow> nat \<Rightarrow> nat \<Rightarrow> bool" where
  "delivered sys h i s \<longleftrightarrow>
     (is_open (the_sub sys s) \<longrightarrow> filter (\<lambda>x. fst x = Some i) (h_sent h s) = owed sys i s)"

definition winv :: "wsys \<Rightarrow> whist \<Rightarrow> bool" where
  "winv sys h \<longleftrightarrow>
     distinct (wt_subscribers (ws_wt sys)) \<and>
     set (wt_subscribers (ws_wt sys)) \<subseteq> {..<wt_next (ws_wt sys)} \<and>
     (\<forall>s < wt_next (ws_wt sys). sub_inv sys h s) \<and>
     (\<forall>i < ws_ndisp sys. disp_inv sys i) \<and>
     (\<forall>i < ws_ndisp sys. \<forall>s < wt_next (ws_wt sys). delivered sys h i s) \<and>
     (\<forall>s \<ge> wt_next (ws_wt sys). h_sent h s = [] \<and> h_recv h s = []) \<and>
     (\<forall>s. \<forall>x \<in> set (h_sent h s). \<forall>i. fst x = Some i \<longrightarrow> i < ws_ndisp sys)"

lemma matching_prefix: "sub_prefix sub = sub_prefix sub' \<Longrightarrow> matching sub events = matching sub' events"
  by (simp add: matching_def)

text \<open>A step that touches one subscriber, and sends at most for its own goroutine.\<close>

definition touches :: "nat \<Rightarrow> wsys \<Rightarrow> whist \<Rightarrow> wsys \<Rightarrow> whist \<Rightarrow> bool" where
  "touches s sys h sys' h' \<longleftrightarrow>
     s < wt_next (ws_wt sys) \<and> wt_next (ws_wt sys') = wt_next (ws_wt sys) \<and>
     ws_ndisp sys' = ws_ndisp sys \<and> ws_disp sys' = ws_disp sys \<and>
     (\<forall>t. t \<noteq> s \<longrightarrow> the_sub sys' t = the_sub sys t \<and> ws_pc sys' t = ws_pc sys t \<and>
        h_sent h' t = h_sent h t \<and> h_recv h' t = h_recv h t) \<and>
     wt_subscribers (ws_wt sys') \<in> {wt_subscribers (ws_wt sys), filter (\<lambda>t. t \<noteq> s) (wt_subscribers (ws_wt sys))} \<and>
     sub_prefix (the_sub sys' s) = sub_prefix (the_sub sys s) \<and>
     (is_open (the_sub sys' s) \<longrightarrow> is_open (the_sub sys s)) \<and>
     (\<exists>bs. h_sent h' s = h_sent h s @ map (Pair None) bs)"

lemma touchesD:
  assumes "touches s sys h sys' h'"
  shows "s < wt_next (ws_wt sys)" "wt_next (ws_wt sys') = wt_next (ws_wt sys)"
    "ws_ndisp sys' = ws_ndisp sys" "ws_disp sys' = ws_disp sys"
    "\<And>t. t \<noteq> s \<Longrightarrow> the_sub sys' t = the_sub sys t" "\<And>t. t \<noteq> s \<Longrightarrow> ws_pc sys' t = ws_pc sys t"
    "\<And>t. t \<noteq> s \<Longrightarrow> h_sent h' t = h_sent h t" "\<And>t. t \<noteq> s \<Longrightarrow> h_recv h' t = h_recv h t"
    "sub_prefix (the_sub sys' t) = sub_prefix (the_sub sys t)"
    "is_open (the_sub sys' t) \<Longrightarrow> is_open (the_sub sys t)"
    "filter (\<lambda>x. fst x = Some k) (h_sent h' t) = filter (\<lambda>x. fst x = Some k) (h_sent h t)"
  using assms unfolding touches_def by (cases "t = s"; auto simp: filter_empty_conv)+

lemma touches_subscribers:
  assumes "touches s sys h sys' h'"
  shows "t \<noteq> s \<Longrightarrow> t \<in> set (wt_subscribers (ws_wt sys')) \<longleftrightarrow> t \<in> set (wt_subscribers (ws_wt sys))"
    "set (wt_subscribers (ws_wt sys')) \<subseteq> set (wt_subscribers (ws_wt sys))"
    "distinct (wt_subscribers (ws_wt sys)) \<Longrightarrow> distinct (wt_subscribers (ws_wt sys'))"
  using assms unfolding touches_def by auto

lemma winvD:
  assumes "winv sys h"
  shows "distinct (wt_subscribers (ws_wt sys))"
    "set (wt_subscribers (ws_wt sys)) \<subseteq> {..<wt_next (ws_wt sys)}"
    "s < wt_next (ws_wt sys) \<Longrightarrow> sub_inv sys h s"
    "i < ws_ndisp sys \<Longrightarrow> disp_inv sys i"
    "i < ws_ndisp sys \<Longrightarrow> s < wt_next (ws_wt sys) \<Longrightarrow> delivered sys h i s"
    "wt_next (ws_wt sys) \<le> s \<Longrightarrow> h_sent h s = [] \<and> h_recv h s = []"
    "x \<in> set (h_sent h s) \<Longrightarrow> fst x = Some i \<Longrightarrow> i < ws_ndisp sys"
  using assms unfolding winv_def by blast+

lemma touches_winv:
  assumes "touches s sys h sys' h'" "winv sys h" "sub_inv sys' h' s"
  shows "winv sys' h'"
proof -
  note t = touchesD [OF assms(1)] and ts = touches_subscribers [OF assms(1)] and i = winvD [OF assms(2)]
  have m: "matching (the_sub sys' u) evs = matching (the_sub sys u) evs" for u evs
    by (rule matching_prefix [OF t(9)])
  show ?thesis
    unfolding winv_def
  proof (intro conjI allI impI ballI)
    show "distinct (wt_subscribers (ws_wt sys'))" by (rule ts(3) [OF i(1)])
    show "set (wt_subscribers (ws_wt sys')) \<subseteq> {..<wt_next (ws_wt sys')}" using ts(2) i(2) t(2) by simp
  next
    fix u assume "u < wt_next (ws_wt sys')"
    then have u: "sub_inv sys h u" using i(3) t(2) by simp
    show "sub_inv sys' h' u"
    proof (cases "u = s")
      case False
      with u show ?thesis by (simp add: sub_inv_def t(5-8) ts(1))
    qed (use assms(3) in simp)
  next
    fix k assume "k < ws_ndisp sys'"
    then have "disp_inv sys k" using i(4) t(3) by simp
    then show "disp_inv sys' k" by (simp add: disp_inv_def t(2,4) m)
  next
    fix k u assume "k < ws_ndisp sys'" "u < wt_next (ws_wt sys')"
    then have "delivered sys h k u" using i(5) t(2,3) by simp
    then show "delivered sys' h' k u" using t(10) by (simp add: delivered_def owed_def t(4,11) m)
  next
    fix u assume "wt_next (ws_wt sys') \<le> u"
    moreover then have "u \<noteq> s" using t(1,2) by simp
    ultimately show "h_sent h' u = []" "h_recv h' u = []" using i(6) [of u] t(2,7,8) by simp_all
  next
    fix u x k assume x: "x \<in> set (h_sent h' u)" "fst x = Some k"
    then have "x \<in> set (filter (\<lambda>x. fst x = Some k) (h_sent h' u))" by simp
    then have "x \<in> set (h_sent h u)" unfolding t(11) by simp
    with x show "k < ws_ndisp sys'" using i(7) t(3) by metis
  qed
qed

section \<open>Every step keeps it\<close>

lemma sys_simps [simp]:
  "the_sub (goto s pc sys) t = the_sub sys t" "ws_wt (goto s pc sys) = ws_wt sys"
  "ws_pc (goto s pc sys) = (ws_pc sys)(s := pc)" "ws_disp (goto s pc sys) = ws_disp sys"
  "ws_ndisp (goto s pc sys) = ws_ndisp sys" "ws_world (goto s pc sys) = ws_world sys"
  "the_sub (set_sub s sub sys) t = (if t = s then sub else the_sub sys t)"
  "wt_subscribers (ws_wt (set_sub s sub sys)) = wt_subscribers (ws_wt sys)"
  "wt_next (ws_wt (set_sub s sub sys)) = wt_next (ws_wt sys)"
  "ws_pc (set_sub s sub sys) = ws_pc sys" "ws_disp (set_sub s sub sys) = ws_disp sys"
  "ws_ndisp (set_sub s sub sys) = ws_ndisp sys"
  "the_sub (sys\<lparr>ws_world := w\<rparr>) t = the_sub sys t" "the_sub (sys\<lparr>ws_disp := ds\<rparr>) t = the_sub sys t"
  "the_sub (sys\<lparr>ws_ndisp := n\<rparr>) t = the_sub sys t"
  by (simp_all add: goto_def set_sub_def the_sub_def)

lemma removeSub_simps [simp]:
  "the_sub (sys\<lparr>ws_wt := removeSub s (ws_wt sys)\<rparr>) t =
     (if t = s then (the_sub sys s)\<lparr>sub_cancelled := True\<rparr> else the_sub sys t)"
  "wt_subscribers (removeSub s wt) = filter (\<lambda>t. t \<noteq> s) (wt_subscribers wt)"
  "wt_next (removeSub s wt) = wt_next wt"
  by (simp_all add: the_sub_def removeSub_def upd_sub_def)

lemma trySend_Some:
  "trySend b sub = Some sub' \<longleftrightarrow> length (sub_ch sub) < subChannelDepth \<and> sub' = sub\<lparr>sub_ch := sub_ch sub @ [b]\<rparr>"
  by (auto simp: trySend_def)

lemma trySend_None: "trySend b sub = None \<longleftrightarrow> subChannelDepth \<le> length (sub_ch sub)"
  by (auto simp: trySend_def)

lemma sent_by_simps:
  "h_recv (sent_by who s b sys h) = h_recv h"
  "h_sent (sent_by who s b sys h) t =
     (if t = s \<and> length (sub_ch (the_sub sys s)) < subChannelDepth then h_sent h s @ [(who, b)] else h_sent h t)"
  by (auto simp: sent_by_def trySend_None)

lemma sub_steps_touch:
  assumes "wexec st sys = Some sys'" "st \<in> {SubStep s, SubGiveUp s, CtxCancel s, Receive s}"
  shows "touches s sys h sys' (observe st sys h)"
proof -
  have none: "\<exists>bs. [] = map (Pair (None :: nat option)) (bs :: Event list list)"
    "\<exists>bs. [(None, b)] = map (Pair (None :: nat option)) (bs :: Event list list)" for b
    by (rule exI [of _ "[]"], simp, rule exI [of _ "[b]"], simp)
  consider "st = SubStep s" | "st = SubGiveUp s" | "st = CtxCancel s" | "st = Receive s" using assms(2) by blast
  then show ?thesis
  proof cases
    case 1
    with assms(1) have "s < wt_next (ws_wt sys)" "subStep s sys = Some sys'" by (auto split: if_splits)
    with 1 show ?thesis
      by (cases "ws_pc sys s") (auto simp: touches_def subStep_def Let_def is_open_def trySend_Some sent_by_simps none
          split: if_splits prod.splits sum.splits list.splits)
  next
    case 2
    with assms(1) have "s < wt_next (ws_wt sys)" "subGiveUp s sys = Some sys'" by (auto split: if_splits)
    with 2 show ?thesis
      by (auto simp: touches_def subGiveUp_def none split: sub_pc.splits if_splits)
  qed (use assms(1) in \<open>auto simp: touches_def is_open_def none split: if_splits list.splits\<close>)
qed

lemma sub_steps_inv:
  assumes "wexec st sys = Some sys'" "st \<in> {SubStep s, SubGiveUp s, CtxCancel s, Receive s}" "sub_inv sys h s"
  shows "sub_inv sys' (observe st sys h) s"
proof -
  consider "st = SubStep s" | "st = SubGiveUp s" | "st = CtxCancel s" | "st = Receive s" using assms(2) by blast
  then show ?thesis
  proof cases
    case 1
    with assms(1) have "subStep s sys = Some sys'" by (auto split: if_splits)
    with 1 assms(3) show ?thesis
      by (cases "ws_pc sys s") (auto simp: sub_inv_def subStep_def Let_def trySend_Some sent_by_simps closedSentinel_def
          split: if_splits prod.splits sum.splits list.splits)
  next
    case 2
    with assms(1) have "subGiveUp s sys = Some sys'" by (auto split: if_splits)
    with 2 assms(3) show ?thesis
      by (auto simp: sub_inv_def subGiveUp_def Let_def split: sub_pc.splits if_splits)
  next
    case 3
    with assms(1) have "sys' = set_sub s ((the_sub sys s)\<lparr>sub_cancelled := True\<rparr>) sys" by (simp split: if_splits)
    with 3 assms(3) show ?thesis by (simp add: sub_inv_def Let_def)
  next
    case 4
    with assms(1) obtain b rest where ch: "sub_ch (the_sub sys s) = b # rest"
      and "sys' = set_sub s ((the_sub sys s)\<lparr>sub_ch := rest\<rparr>) sys"
      by (auto split: if_splits list.splits)
    with 4 assms(3) show ?thesis by (simp add: sub_inv_def Let_def)
  qed
qed

lemma doSubscribe_simps:
  "the_sub (doSubscribe p a sys) t = (if t = wt_next (ws_wt sys)
     then \<lparr>sub_prefix = p, sub_ch = [], sub_cancelled = False, sub_closed = False\<rparr> else the_sub sys t)"
  "wt_subscribers (ws_wt (doSubscribe p a sys)) = wt_subscribers (ws_wt sys) @ [wt_next (ws_wt sys)]"
  "wt_next (ws_wt (doSubscribe p a sys)) = Suc (wt_next (ws_wt sys))"
  "ws_pc (doSubscribe p a sys) = (ws_pc sys)(wt_next (ws_wt sys) := AtStart a)"
  "ws_disp (doSubscribe p a sys) = ws_disp sys" "ws_ndisp (doSubscribe p a sys) = ws_ndisp sys"
  by (simp_all add: doSubscribe_def subscribe_def the_sub_def)

lemma subscribe_winv:
  assumes "winv sys h"
  shows "winv (doSubscribe p a sys) h"
proof -
  note i = winvD [OF assms]
  let ?sys = "doSubscribe p a sys" and ?n = "wt_next (ws_wt sys)"
  have d: "u \<in> set (di_subs (ws_disp sys k)) \<Longrightarrow> u < ?n" if "k < ws_ndisp sys" for u k
    using i(4) [OF that] by (auto simp: disp_inv_def Let_def)
  show ?thesis
    unfolding winv_def
  proof (intro conjI allI impI ballI)
    show "distinct (wt_subscribers (ws_wt ?sys))" "set (wt_subscribers (ws_wt ?sys)) \<subseteq> {..<wt_next (ws_wt ?sys)}"
      using i(1,2) by (auto simp: doSubscribe_simps)
  next
    fix u assume u: "u < wt_next (ws_wt ?sys)"
    show "sub_inv ?sys h u"
    proof (cases "u = ?n")
      case True
      then show ?thesis using i(6) [of u] by (simp add: sub_inv_def Let_def doSubscribe_simps)
    next
      case False
      then show ?thesis using i(3) [of u] u by (simp add: sub_inv_def Let_def doSubscribe_simps)
    qed
  next
    fix k assume k: "k < ws_ndisp ?sys"
    then have k': "k < ws_ndisp sys" by (simp add: doSubscribe_simps)
    have "di_subs (ws_disp sys k) ! di_pos (ws_disp sys k) \<noteq> ?n"
      if "di_pos (ws_disp sys k) < length (di_subs (ws_disp sys k))"
      using d [OF k' nth_mem [OF that]] by simp
    then show "disp_inv ?sys k" using i(4) [OF k'] by (auto simp: disp_inv_def Let_def doSubscribe_simps)
    fix u assume u: "u < wt_next (ws_wt ?sys)"
    show "delivered ?sys h k u"
    proof (cases "u = ?n")
      case True
      then have "u \<notin> set (take (di_pos (ws_disp sys k)) (di_subs (ws_disp sys k)))"
        using d [OF k'] by (blast dest: in_set_takeD)
      then show ?thesis
        using i(6) [of u] True by (simp add: delivered_def owed_def Let_def doSubscribe_simps)
    next
      case False
      then show ?thesis using i(5) [OF k', of u] u by (simp add: delivered_def owed_def Let_def doSubscribe_simps)
    qed
  next
    fix u assume "wt_next (ws_wt ?sys) \<le> u"
    then show "h_sent h u = []" "h_recv h u = []" using i(6) [of u] by (simp_all add: doSubscribe_simps)
  next
    fix u x k assume "x \<in> set (h_sent h u)" "fst x = Some k"
    then show "k < ws_ndisp ?sys" using i(7) by (simp add: doSubscribe_simps)
  qed
qed

lemma dispatch_winv:
  assumes "winv sys h"
  shows "winv (doDispatch events sys) h"
proof (cases "events = []")
  case True
  then show ?thesis using assms by (simp add: doDispatch_def)
next
  case False
  note i = winvD [OF assms]
  let ?sys = "doDispatch events sys"
  have s: "the_sub ?sys t = the_sub sys t" "ws_wt ?sys = ws_wt sys" "ws_pc ?sys = ws_pc sys"
    "ws_ndisp ?sys = Suc (ws_ndisp sys)" "ws_disp ?sys k = (if k = ws_ndisp sys
       then \<lparr>di_events = events, di_subs = wt_subscribers (ws_wt sys), di_pos = 0, di_batch = None\<rparr> else ws_disp sys k)"
    for t k using False by (simp_all add: doDispatch_def the_sub_def)
  show ?thesis
    unfolding winv_def
  proof (intro conjI allI impI ballI)
    fix u assume u: "u < wt_next (ws_wt ?sys)"
    then show "sub_inv ?sys h u" using i(3) by (simp add: sub_inv_def s)
  next
    fix k assume k: "k < ws_ndisp ?sys"
    then show "disp_inv ?sys k"
      using i(1,2) i(4) [of k] by (cases "k = ws_ndisp sys") (simp_all add: disp_inv_def s)
    fix u assume u: "u < wt_next (ws_wt ?sys)"
    show "delivered ?sys h k u"
    proof (cases "k = ws_ndisp sys")
      case True
      then have "filter (\<lambda>x. fst x = Some k) (h_sent h u) = []"
        using i(7) by (auto simp: filter_empty_conv)
      with True show ?thesis by (simp add: delivered_def owed_def Let_def s)
    next
      case False
      then show ?thesis using i(5) [of k u] k u by (simp add: delivered_def owed_def Let_def s)
    qed
  next
    fix u x k assume "x \<in> set (h_sent h u)" "fst x = Some k"
    then show "k < ws_ndisp ?sys" using i(7) [of x u k] by (simp add: s)
  qed (use i in \<open>simp_all add: s\<close>)
qed

text \<open>A step of dispatcher \<open>i\<close> at subscriber \<open>s\<close>: it moves on without a send, or it sends.\<close>

lemma dispStep_cases:
  assumes "dispStep i sys = Some sys'"
  obtains (skip) "di_batch (ws_disp sys i) = None"
      "matching (the_sub sys (di_subs (ws_disp sys i) ! di_pos (ws_disp sys i))) (di_events (ws_disp sys i)) = [] \<or>
       sub_closed (the_sub sys (di_subs (ws_disp sys i) ! di_pos (ws_disp sys i)))"
      "sys' = sys\<lparr>ws_disp := (ws_disp sys)(i := (ws_disp sys i)\<lparr>di_pos := Suc (di_pos (ws_disp sys i))\<rparr>)\<rparr>"
  | (ready) b where "di_batch (ws_disp sys i) = None" "b \<noteq> []"
      "b = matching (the_sub sys (di_subs (ws_disp sys i) ! di_pos (ws_disp sys i))) (di_events (ws_disp sys i))"
      "sys' = sys\<lparr>ws_disp := (ws_disp sys)(i := (ws_disp sys i)\<lparr>di_batch := Some b\<rparr>)\<rparr>"
  | (send) b where "di_batch (ws_disp sys i) = Some b"
      "sys' = set_sub (di_subs (ws_disp sys i) ! di_pos (ws_disp sys i))
         (sendOrCancel b (the_sub sys (di_subs (ws_disp sys i) ! di_pos (ws_disp sys i))))
         (sys\<lparr>ws_disp := (ws_disp sys)(i := (ws_disp sys i)\<lparr>di_pos := Suc (di_pos (ws_disp sys i)), di_batch := None\<rparr>)\<rparr>)"
  using assms unfolding dispStep_def Let_def by (auto split: if_splits option.splits)

lemma sendOrCancel_simps [simp]:
  "sub_prefix (sendOrCancel b sub) = sub_prefix sub" "sub_closed (sendOrCancel b sub) = sub_closed sub"
  "matching (sendOrCancel b sub) events = matching sub events"
  by (simp_all add: sendOrCancel_def trySend_def matching_def)

lemma sendOrCancel_ch:
  "sub_ch (sendOrCancel b sub) = (if length (sub_ch sub) < subChannelDepth then sub_ch sub @ [b] else sub_ch sub)"
  "sub_cancelled (sendOrCancel b sub) = (sub_cancelled sub \<or> \<not> length (sub_ch sub) < subChannelDepth)"
  by (auto simp: sendOrCancel_def trySend_def)

text \<open>What is left to show for such a step.\<close>

lemma disp_frame:
  assumes "winv sys h" "i < ws_ndisp sys"
    and same: "wt_subscribers (ws_wt sys') = wt_subscribers (ws_wt sys)" "wt_next (ws_wt sys') = wt_next (ws_wt sys)"
      "ws_pc sys' = ws_pc sys" "ws_ndisp sys' = ws_ndisp sys" "\<And>k. k \<noteq> i \<Longrightarrow> ws_disp sys' k = ws_disp sys k"
      "h_recv h' = h_recv h"
    and sub: "\<And>t. t \<noteq> s \<Longrightarrow> the_sub sys' t = the_sub sys t" "\<And>t. t \<noteq> s \<Longrightarrow> h_sent h' t = h_sent h t"
      "\<And>t. sub_prefix (the_sub sys' t) = sub_prefix (the_sub sys t)"
      "is_open (the_sub sys' s) \<Longrightarrow> is_open (the_sub sys s)"
    and sent: "s < wt_next (ws_wt sys)" "h_sent h' s \<in> {h_sent h s, h_sent h s @ [(Some i, b)]}"
    and left: "sub_inv sys' h' s" "disp_inv sys' i" "\<And>u. u < wt_next (ws_wt sys) \<Longrightarrow> delivered sys' h' i u"
  shows "winv sys' h'"
proof -
  note v = winvD [OF assms(1)]
  have m: "matching (the_sub sys' u) evs = matching (the_sub sys u) evs" for u evs
    by (rule matching_prefix [OF sub(3)])
  show ?thesis
    unfolding winv_def same
  proof (intro conjI allI impI ballI)
    fix u assume "u < wt_next (ws_wt sys)"
    then show "sub_inv sys' h' u"
      using v(3) [of u] left(1) by (cases "u = s") (simp_all add: sub_inv_def same sub(1,2))
  next
    fix k assume k: "k < ws_ndisp sys"
    then show "disp_inv sys' k"
      using v(4) [of k] left(2) by (cases "k = i") (simp_all add: disp_inv_def same m)
    fix u assume u: "u < wt_next (ws_wt sys)"
    show "delivered sys' h' k u"
    proof (cases "k = i")
      case False
      have "filter (\<lambda>x. fst x = Some k) (h_sent h' u) = filter (\<lambda>x. fst x = Some k) (h_sent h u)"
        using sent(2) sub(2) [of u] False by (cases "u = s") auto
      moreover have "is_open (the_sub sys' u) \<Longrightarrow> is_open (the_sub sys u)" using sub(1,4) by (cases "u = s") auto
      ultimately show ?thesis
        using v(5) [OF k u] False by (simp add: delivered_def owed_def same m)
    qed (use left(3) u in simp)
  next
    fix u assume u: "wt_next (ws_wt sys) \<le> u"
    then have "u \<noteq> s" using sent(1) by simp
    then show "h_sent h' u = []" "h_recv h u = []" using v(6) [OF u] sub(2) by simp_all
  next
    fix u x k assume "x \<in> set (h_sent h' u)" "fst x = Some k"
    then show "k < ws_ndisp sys" using v(7) [of x u k] assms(2) sent(2) sub(2) [of u] by (cases "u = s") auto
  qed (use v in simp_all)
qed

lemma disp_winv:
  assumes "winv sys h" "i < ws_ndisp sys" "dispStep i sys = Some sys'"
  shows "winv sys' (observe (DispStep i) sys h)"
proof -
  let ?d = "ws_disp sys i" and ?h = "observe (DispStep i) sys h"
  let ?s = "di_subs ?d ! di_pos ?d"
  note v = winvD [OF assms(1)]
  note di = v(4) [OF assms(2), unfolded disp_inv_def Let_def]
  have pos: "di_pos ?d < length (di_subs ?d)" using assms(3) by (auto simp: dispStep_def Let_def split: if_splits)
  have s: "?s < wt_next (ws_wt sys)" using di nth_mem [OF pos] by auto
  have step: "set (take (Suc (di_pos ?d)) (di_subs ?d)) = insert ?s (set (take (di_pos ?d) (di_subs ?d)))"
    using pos by (simp add: take_Suc_conv_app_nth)
  have "distinct (take (Suc (di_pos ?d)) (di_subs ?d))" using di by simp
  then have new: "?s \<notin> set (take (di_pos ?d) (di_subs ?d))" using pos by (simp add: take_Suc_conv_app_nth)
  note si = v(3) [OF s] and dl = v(5) [OF assms(2)]
  from assms(3) show ?thesis
  proof (cases rule: dispStep_cases)
    case skip
    then have h: "?h = h" by simp
    have "delivered sys' h i u" if "u < wt_next (ws_wt sys)" for u
      using dl [OF that] skip(2,3) step new
      by (cases "u = ?s") (auto simp: delivered_def owed_def Let_def is_open_def)
    then show ?thesis
      unfolding h using skip si di pos s
      by (intro disp_frame [OF assms(1,2), where s = ?s and b = "[]"]) (auto simp: sub_inv_def disp_inv_def Let_def)
  next
    case (ready b)
    then have h: "?h = h" by simp
    have "delivered sys' h i u" if "u < wt_next (ws_wt sys)" for u
      using dl [OF that] ready(4) by (simp add: delivered_def owed_def Let_def)
    then show ?thesis
      unfolding h using ready si di pos s
      by (intro disp_frame [OF assms(1,2), where s = ?s and b = "[]"]) (auto simp: sub_inv_def disp_inv_def Let_def)
  next
    case (send b)
    then have b: "b = matching (the_sub sys ?s) (di_events ?d)" "b \<noteq> []" using di by auto
    have h: "?h = sent_by (Some i) ?s b sys h" using send(1) by (simp add: Let_def)
    have "delivered sys' ?h i u" if "u < wt_next (ws_wt sys)" for u
      unfolding h using dl [OF that] send(2) step new b
      by (cases "u = ?s") (auto simp: delivered_def owed_def Let_def is_open_def sent_by_simps sendOrCancel_ch)
    moreover have "sub_inv sys' ?h ?s"
      unfolding h using si send(2) b(2)
      by (auto simp: sub_inv_def Let_def sent_by_simps sendOrCancel_ch closedSentinel_def)
    moreover have "disp_inv sys' i" using di pos send(2) by (auto simp: disp_inv_def Let_def)
    ultimately show ?thesis
      unfolding h using send(2) s
      by (intro disp_frame [OF assms(1,2), where s = ?s and b = b])
        (auto simp: sent_by_simps is_open_def sendOrCancel_ch)
  qed
qed

lemma wreach_winv: "wreach sys h \<Longrightarrow> winv sys h"
proof (induction rule: wreach.induct)
  case (start w)
  show ?case by (simp add: winv_def init_wsys_def newWatcher_def)
next
  case (step sys h st sys')
  have w: "winv (sys\<lparr>ws_world := w\<rparr>) h" for w
    using step.IH by (simp add: winv_def sub_inv_def disp_inv_def delivered_def owed_def)
  have sub: "winv sys' (observe st sys h)" if "st \<in> {SubStep s, SubGiveUp s, CtxCancel s, Receive s}" for s
  proof -
    note touch = sub_steps_touch [OF step.hyps(2) that]
    then show ?thesis
      using touches_winv [OF touch step.IH] sub_steps_inv [OF step.hyps(2) that] winvD(3) [OF step.IH] touchesD(1)
      by blast
  qed
  show ?case
  proof (cases st)
    case (DispStep i)
    then show ?thesis using step disp_winv [OF step.IH, of i sys'] by (simp split: if_splits)
  qed (use step sub subscribe_winv dispatch_winv w in \<open>auto split: if_splits\<close>)
qed

section \<open>What a client can rely on\<close>

text \<open>
  C6: however the goroutines interleave, a client reads what was sent to it in the order it was
  sent, and as long as its subscription is neither cancelled nor closed, every completed dispatch
  that saw the subscription has sent it exactly the events that match its prefix, once and in one
  batch: nothing is dropped silently.  The batch that announces the end is never sent to an open
  subscription.
\<close>

theorem watch_delivery:
  assumes "wreach sys h" "s < wt_next (ws_wt sys)" "\<not> sub_closed (the_sub sys s)"
  shows "h_recv h s @ sub_ch (the_sub sys s) = map snd (h_sent h s) \<and>
    length (sub_ch (the_sub sys s)) \<le> subChannelDepth \<and> closedSentinel \<notin> snd ` set (h_sent h s) \<and>
    (\<not> sub_cancelled (the_sub sys s) \<longrightarrow> (\<forall>i < ws_ndisp sys. let d = ws_disp sys i in
       di_pos d = length (di_subs d) \<longrightarrow>
       filter (\<lambda>x. fst x = Some i) (h_sent h s) =
         (let batch = matching (the_sub sys s) (di_events d)
          in if s \<in> set (di_subs d) \<and> batch \<noteq> [] then [(Some i, batch)] else [])))"
proof -
  note v = winvD [OF wreach_winv [OF assms(1)]]
  have "filter (\<lambda>x. fst x = Some i) (h_sent h s) =
      (let batch = matching (the_sub sys s) (di_events (ws_disp sys i))
       in if s \<in> set (di_subs (ws_disp sys i)) \<and> batch \<noteq> [] then [(Some i, batch)] else [])"
    if "\<not> sub_cancelled (the_sub sys s)" "i < ws_ndisp sys"
      "di_pos (ws_disp sys i) = length (di_subs (ws_disp sys i))" for i
    using v(5) [of i s] assms(2,3) that by (simp add: delivered_def owed_def is_open_def Let_def)
  then show ?thesis
    using v(3) [OF assms(2)] assms(3) by (simp add: sub_inv_def Let_def)
qed

text \<open>A run of steps, with what went over the channels.\<close>

fun wrun :: "wstep list \<Rightarrow> wsys \<Rightarrow> whist \<Rightarrow> (wsys \<times> whist) option" where
  "wrun [] sys h = Some (sys, h)"
| "wrun (st # sts) sys h =
     (case wexec st sys of None \<Rightarrow> None | Some sys' \<Rightarrow> wrun sts sys' (observe st sys h))"

lemma wrun_reach: "wreach sys h \<Longrightarrow> wrun sts sys h = Some (sys', h') \<Longrightarrow> wreach sys' h'"
  by (induction sts arbitrary: sys h) (auto split: option.splits intro: wreach.step)

definition no_hist :: whist where
  "no_hist = \<lparr>h_sent = (\<lambda>_. []), h_recv = (\<lambda>_. [])\<rparr>"

definition demo_event :: "string \<Rightarrow> Event" where
  "demo_event k = \<lparr>ev_KV = \<lparr>Key = k, Value = None, OldValue = None, LeaseID = 0, Deleted = False,
     Created = True, Rev = 60, CreateRevision = 60, PrevRevision = 0\<rparr>, ev_Type = EventPut\<rparr>"

definition demo_wsteps :: "wstep list" where
  "demo_wsteps = [Subscribe ''a'' 0, Dispatch [demo_event ''b'', demo_event ''ab''], DispStep 0, DispStep 0]"

lemmas wrun_defs = init_wsys_def newWatcher_def no_hist_def doSubscribe_def subscribe_def doDispatch_def
  dispStep_def sendOrCancel_def trySend_def sent_by_def subStep_def removeSub_def upd_sub_def
  the_sub_def set_sub_def goto_def Let_def subChannelDepth_def

lemma demo_wrun:
  "case wrun demo_wsteps (init_wsys w) no_hist of None \<Rightarrow> False | Some (sys, h) \<Rightarrow>
     wt_next (ws_wt sys) = 1 \<and> ws_ndisp sys = 1 \<and> \<not> sub_closed (the_sub sys 0) \<and>
     \<not> sub_cancelled (the_sub sys 0) \<and> di_subs (ws_disp sys 0) = [0] \<and> di_pos (ws_disp sys 0) = 1 \<and>
     matching (the_sub sys 0) (di_events (ws_disp sys 0)) = [demo_event ''ab'']"
  by (simp add: demo_wsteps_def wrun_defs matching_def TrimSuffix_def HasSuffix_def HasPrefix_def
      demo_event_def)

theorem watch_delivery_witness:
  "case wrun demo_wsteps (init_wsys (demo_world demo_db)) no_hist of None \<Rightarrow> False | Some (sys, h) \<Rightarrow>
     filter (\<lambda>x. fst x = Some 0) (h_sent h 0) = [(Some 0, [demo_event ''ab''])]"
proof -
  have r: "wreach (init_wsys (demo_world demo_db)) no_hist" unfolding no_hist_def by (rule wreach.start)
  show ?thesis
    using demo_wrun [of "demo_world demo_db"] watch_delivery [OF wrun_reach [OF r], of demo_wsteps _ _ 0]
    by (auto simp: Let_def split: option.splits prod.splits)
qed

text \<open>The goroutine of a subscription can end, on its own, with the sentinel for its client.\<close>

definition can_end :: "nat \<Rightarrow> wsys \<Rightarrow> bool" where
  "can_end s sys \<longleftrightarrow> (\<forall>h. \<exists>sts sys' h'. set sts \<subseteq> {SubStep s, SubGiveUp s} \<and> wrun sts sys h = Some (sys', h') \<and>
     ws_pc sys' s = AtExit \<and> sub_ch (the_sub sys' s) = [closedSentinel] \<and> sub_closed (the_sub sys' s) \<and>
     s \<notin> set (wt_subscribers (ws_wt sys')))"

lemma can_end_step:
  assumes "wexec st sys = Some sys1" "st \<in> {SubStep s, SubGiveUp s}" "can_end s sys1"
  shows "can_end s sys"
  unfolding can_end_def
proof
  fix h
  from assms(3) obtain sts sys' h' where "set sts \<subseteq> {SubStep s, SubGiveUp s}"
    "wrun sts sys1 (observe st sys h) = Some (sys', h')" and e: "ws_pc sys' s = AtExit"
    "sub_ch (the_sub sys' s) = [closedSentinel]" "sub_closed (the_sub sys' s)"
    "s \<notin> set (wt_subscribers (ws_wt sys'))"
    unfolding can_end_def by blast
  then have "set (st # sts) \<subseteq> {SubStep s, SubGiveUp s}" "wrun (st # sts) sys h = Some (sys', h')"
    using assms(1,2) by auto
  with e show "\<exists>sts sys' h'. set sts \<subseteq> {SubStep s, SubGiveUp s} \<and> wrun sts sys h = Some (sys', h') \<and>
     ws_pc sys' s = AtExit \<and> sub_ch (the_sub sys' s) = [closedSentinel] \<and> sub_closed (the_sub sys' s) \<and>
     s \<notin> set (wt_subscribers (ws_wt sys'))"
    by blast
qed

lemma can_end_drain:
  assumes "s < wt_next (ws_wt sys)" "ws_pc sys s = AtDrain" "sub_closed (the_sub sys s)"
    "s \<notin> set (wt_subscribers (ws_wt sys))"
  shows "can_end s sys"
  using assms
proof (induction "sub_ch (the_sub sys s)" arbitrary: sys)
  case Nil
  let ?sys = "goto s AtExit (set_sub s ((the_sub sys s)\<lparr>sub_ch := [closedSentinel]\<rparr>) (goto s AtSentinel sys))"
  have "wrun [SubStep s, SubStep s] sys h = Some (?sys, sent_by None s closedSentinel (goto s AtSentinel sys) h)" for h
    using Nil by (simp add: subStep_def trySend_def subChannelDepth_def Let_def)
  moreover have "set [SubStep s, SubStep s] \<subseteq> {SubStep s, SubGiveUp s}" by simp
  moreover have "ws_pc ?sys s = AtExit" "sub_ch (the_sub ?sys s) = [closedSentinel]" "sub_closed (the_sub ?sys s)"
    "s \<notin> set (wt_subscribers (ws_wt ?sys))"
    using Nil by simp_all
  ultimately show ?case unfolding can_end_def by blast
next
  case (Cons b rest)
  let ?sys = "set_sub s ((the_sub sys s)\<lparr>sub_ch := rest\<rparr>) sys"
  have "wexec (SubStep s) sys = Some ?sys" using Cons.hyps(2) [symmetric] Cons.prems by (simp add: subStep_def Let_def)
  then show ?case using Cons by (intro can_end_step [of "SubStep s" sys ?sys]) simp_all
qed

lemma can_end_close:
  assumes "s < wt_next (ws_wt sys)" "ws_pc sys s = AtClose"
  shows "can_end s sys"
proof -
  let ?sys1 = "goto s AtRemove (set_sub s ((the_sub sys s)\<lparr>sub_closed := True\<rparr>) sys)"
  let ?sys2 = "goto s AtDrain (?sys1\<lparr>ws_wt := removeSub s (ws_wt ?sys1)\<rparr>)"
  have "wexec (SubStep s) sys = Some ?sys1" "wexec (SubStep s) ?sys1 = Some ?sys2"
    using assms by (simp_all add: subStep_def Let_def)
  moreover have "can_end s ?sys2"
    using assms(1) by (intro can_end_drain) (simp_all add: the_sub_def removeSub_def upd_sub_def set_sub_def goto_def)
  ultimately show ?thesis using can_end_step [of "SubStep s"] by blast
qed

lemma replay_step:
  assumes "s < wt_next (ws_wt t)" "ws_pc t s = AtReplay r"
  obtains pc w where "wexec (SubStep s) t = Some (goto s pc (t\<lparr>ws_world := w\<rparr>))"
    "pc \<in> {AtClose, AtWait} \<or> (\<exists>evs r again. pc = AtSend evs r again)"
proof -
  have page: "\<not> again" if "replayPage p r w = (Inr ([], n, again), w1)" for p w n again w1
    using that by (auto simp: replayPage_def pollBatchSize_def split: prod.splits option.splits)
  obtain res w where rp: "replayPage (sub_prefix (the_sub t s)) r (ws_world t) = (res, w)" by fastforce
  show ?thesis
  proof (cases res)
    case (Inl e)
    then show ?thesis using rp assms by (intro that [of AtClose w]) (simp_all add: subStep_def Let_def)
  next
    case (Inr x)
    then obtain evs n again where x: "res = Inr (evs, n, again)" by (cases x) auto
    show ?thesis
    proof (cases "evs = []")
      case True
      then have "\<not> again" using page rp x by blast
      with True x rp assms show ?thesis by (intro that [of AtWait w]) (simp_all add: subStep_def Let_def)
    next
      case False
      with x rp assms show ?thesis by (intro that [of "AtSend evs n again" w]) (simp_all add: subStep_def Let_def)
    qed
  qed
qed

text \<open>
  C36: a subscription whose context is cancelled, because its channel overflowed, because the
  client went away or because the replay failed, ends by itself from wherever its goroutine is,
  without waiting for the client or for a dispatcher: it leaves the list of subscribers, drops
  what the client has not read and leaves it the announcement of the end.
\<close>

theorem cancelled_sub_ends:
  assumes "s < wt_next (ws_wt sys)" "sub_cancelled (the_sub sys s)"
    and "\<not> sub_closed (the_sub sys s)" "ws_pc sys s \<notin> {AtRemove, AtDrain, AtSentinel, AtExit}"
  shows "\<exists>sts sys' h'. set sts \<subseteq> {SubStep s, SubGiveUp s} \<and> wrun sts sys h = Some (sys', h') \<and>
    ws_pc sys' s = AtExit \<and> sub_ch (the_sub sys' s) = [closedSentinel] \<and> sub_closed (the_sub sys' s) \<and>
    s \<notin> set (wt_subscribers (ws_wt sys'))"
proof -
  have wait: "can_end s t" if "s < wt_next (ws_wt t)" "sub_cancelled (the_sub t s)" "ws_pc t s = AtWait" for t
    using that by (intro can_end_step [of "SubStep s" t "goto s AtClose t"] can_end_close)
      (simp_all add: subStep_def Let_def)
  have send: "can_end s t" if "s < wt_next (ws_wt t)" "sub_cancelled (the_sub t s)" "ws_pc t s = AtSend evs r again"
    for t evs r again
    using that by (intro can_end_step [of "SubGiveUp s" t "goto s AtClose t"] can_end_close)
      (simp_all add: subGiveUp_def)
  have replay: "can_end s t" if t: "s < wt_next (ws_wt t)" "sub_cancelled (the_sub t s)" "ws_pc t s = AtReplay r" for t r
  proof -
    from t(1,3) obtain pc w where "wexec (SubStep s) t = Some (goto s pc (t\<lparr>ws_world := w\<rparr>))"
      and pc: "pc \<in> {AtClose, AtWait} \<or> (\<exists>evs r again. pc = AtSend evs r again)"
      by (rule replay_step)
    then show ?thesis
      using t pc can_end_close wait send by (intro can_end_step [of "SubStep s" t]) auto
  qed
  have "can_end s sys"
  proof (cases "ws_pc sys s")
    case (AtStart a)
    show ?thesis
    proof (cases "a = 0")
      case True
      then show ?thesis
        using assms AtStart by (intro can_end_step [of "SubStep s" sys "goto s AtWait sys"] wait) (simp_all add: subStep_def Let_def)
    next
      case False
      obtain ok w where r: "replayAllowed a (ws_world sys) = (ok, w)" by fastforce
      let ?t = "goto s (if ok then AtReplay (wrap64 (a - 1)) else AtClose) (sys\<lparr>ws_world := w\<rparr>)"
      have "can_end s ?t" using assms(1,2) replay [of ?t] can_end_close [of s ?t] by (cases ok) simp_all
      with False r show ?thesis
        using assms AtStart by (intro can_end_step [of "SubStep s" sys ?t]) (simp_all add: subStep_def Let_def)
    qed
  qed (use assms wait send replay can_end_close in auto)
  then show ?thesis unfolding can_end_def by blast
qed

theorem cancelled_sub_ends_witness:
  "\<exists>sts sys' h'. set sts \<subseteq> {SubStep 0, SubGiveUp 0} \<and>
     wrun ([Subscribe ''a'' 5, CtxCancel 0] @ sts) (init_wsys (demo_world demo_db)) no_hist = Some (sys', h') \<and>
     ws_pc sys' 0 = AtExit \<and> sub_ch (the_sub sys' 0) = [closedSentinel]"
proof -
  let ?sys1 = "doSubscribe ''a'' 5 (init_wsys (demo_world demo_db))"
  let ?sys = "set_sub 0 ((the_sub ?sys1 0)\<lparr>sub_cancelled := True\<rparr>) ?sys1"
  have "0 < wt_next (ws_wt ?sys)" "sub_cancelled (the_sub ?sys 0)" "\<not> sub_closed (the_sub ?sys 0)"
    "ws_pc ?sys 0 = AtStart 5"
    by (simp_all add: wrun_defs)
  then show ?thesis
    using cancelled_sub_ends [of 0 ?sys no_hist] by (auto simp: doSubscribe_simps init_wsys_def newWatcher_def)
qed

text \<open>
  The flag and the send are not one step: a dispatcher that found the subscription open may
  send after the drain, and the client gets these events before the announcement of the end.
\<close>

lemma sentinel_behind_stale_events:
  "case wrun [Subscribe [] 0, Dispatch [demo_event ''a''], DispStep 0, CtxCancel 0, SubStep 0, SubStep 0,
      SubStep 0, SubStep 0, SubStep 0, DispStep 0, SubStep 0] (init_wsys w) no_hist of
     None \<Rightarrow> False
   | Some (sys, h) \<Rightarrow> ws_pc sys 0 = AtExit \<and> sub_ch (the_sub sys 0) = [[demo_event ''a''], closedSentinel]"
  by (simp add: wrun_defs matching_def TrimSuffix_def HasSuffix_def demo_event_def closedSentinel_def)

end
