(* ===== verification/Feeds.thy ===== *)
theory Feeds
  imports ChangeStream Watch_Steps
begin

text \<open>
  The two sources of events of \<open>pkg/store/watch.go\<close>, the poll loop and the reader of the change
  stream, together.  The reader's \<open>Start\<close> is a step relation: its select loop, the goroutine that
  queues the initial partitions, and the workers, over a channel of 64 partitions.
\<close>

section \<open>The reader\<close>

definition partitionWorkersBuf :: nat where
  "partitionWorkersBuf = 64"

datatype reader_phase = ReaderSetup | ReaderSelect | ReaderWaiting | ReaderReturned "goerr option"

text \<open>\<open>cr_feed\<close> are the initial partitions that are not queued yet.\<close>

record ChangeStreamReader =
  cr_phase :: reader_phase
  cr_feed :: "partitionState list"
  cr_pending :: "partitionState list"
  cr_reader :: cs_reader
  cr_ctxDone :: bool
  cr_stopCh :: bool
  cr_stopped :: bool

definition NewChangeStreamReader :: ChangeStreamReader where
  "NewChangeStreamReader =
     \<lparr>cr_phase = ReaderSetup, cr_feed = [], cr_pending = [], cr_reader = \<lparr>rd_active = [], rd_started = []\<rparr>,
      cr_ctxDone = False, cr_stopCh = False, cr_stopped = False\<rparr>"

text \<open>\<open>Start\<close> up to its loop, with the result of \<open>startPartitions\<close>.\<close>

definition readerSetup :: "goerr + partitionState list \<Rightarrow> ChangeStreamReader \<Rightarrow> ChangeStreamReader option" where
  "readerSetup res cr =
     (if cr_phase cr \<noteq> ReaderSetup then None
      else Some (case res of
                   Inl e \<Rightarrow> cr\<lparr>cr_phase := ReaderReturned (Some e), cr_stopped := True\<rparr>
                 | Inr ps \<Rightarrow> cr\<lparr>cr_phase := ReaderSelect, cr_feed := ps\<rparr>))"

definition queuePartition :: "partitionState \<Rightarrow> ChangeStreamReader \<Rightarrow> ChangeStreamReader option" where
  "queuePartition p cr =
     (if length (cr_pending cr) < partitionWorkersBuf then Some (cr\<lparr>cr_pending := cr_pending cr @ [p]\<rparr>) else None)"

definition readerFeeds :: "ChangeStreamReader \<Rightarrow> ChangeStreamReader option" where
  "readerFeeds cr = (case cr_feed cr of [] \<Rightarrow> None | p # ps \<Rightarrow> queuePartition p (cr\<lparr>cr_feed := ps\<rparr>))"

definition readerFeedEnds :: "ChangeStreamReader \<Rightarrow> ChangeStreamReader option" where
  "readerFeedEnds cr =
     (if cr_feed cr \<noteq> [] \<and> (cr_ctxDone cr \<or> cr_stopCh cr) then Some (cr\<lparr>cr_feed := []\<rparr>) else None)"

definition readerTakes :: "ChangeStreamReader \<Rightarrow> ChangeStreamReader option" where
  "readerTakes cr =
     (case (cr_phase cr, cr_pending cr) of
        (ReaderSelect, p # ps) \<Rightarrow> Some (cr\<lparr>cr_pending := ps, cr_reader := readerStep (TakePending p) (cr_reader cr)\<rparr>)
      | _ \<Rightarrow> None)"

definition readerStops :: "ChangeStreamReader \<Rightarrow> ChangeStreamReader option" where
  "readerStops cr =
     (if cr_phase cr = ReaderSelect \<and> (cr_ctxDone cr \<or> cr_stopCh cr) then Some (cr\<lparr>cr_phase := ReaderWaiting\<rparr>) else None)"

text \<open>\<open>wg.Wait\<close> returns when no worker is left.\<close>

definition readerReturns :: "ChangeStreamReader \<Rightarrow> ChangeStreamReader option" where
  "readerReturns cr =
     (if cr_phase cr = ReaderWaiting \<and> rd_active (cr_reader cr) = []
      then Some (cr\<lparr>cr_phase := ReaderReturned None, cr_stopped := True\<rparr>) else None)"

definition workerEnds :: "string \<Rightarrow> ChangeStreamReader \<Rightarrow> ChangeStreamReader option" where
  "workerEnds tok cr =
     (if tok \<in> set (rd_active (cr_reader cr))
      then Some (cr\<lparr>cr_reader := readerStep (WorkerDone tok) (cr_reader cr)\<rparr>) else None)"

definition workerQueues :: "string \<Rightarrow> partitionState \<Rightarrow> ChangeStreamReader \<Rightarrow> ChangeStreamReader option" where
  "workerQueues tok p cr = (if tok \<in> set (rd_active (cr_reader cr)) then queuePartition p cr else None)"

text \<open>\<open>Stop\<close> up to its wait for \<open>stopped\<close>; closing a closed channel panics.\<close>

definition reader_Stop :: "ChangeStreamReader \<Rightarrow> ChangeStreamReader option" where
  "reader_Stop cr = (if cr_stopCh cr then None else Some (cr\<lparr>cr_stopCh := True\<rparr>))"

datatype reader_step =
    RdFeeds | RdFeedEnds | RdTakes | RdStops | RdReturns
  | WorkerEnds string | WorkerQueues string partitionState | RdStop | RdCtxEnds

fun rexec :: "reader_step \<Rightarrow> ChangeStreamReader \<Rightarrow> ChangeStreamReader option" where
  "rexec RdFeeds cr = readerFeeds cr"
| "rexec RdFeedEnds cr = readerFeedEnds cr"
| "rexec RdTakes cr = readerTakes cr"
| "rexec RdStops cr = readerStops cr"
| "rexec RdReturns cr = readerReturns cr"
| "rexec (WorkerEnds tok) cr = workerEnds tok cr"
| "rexec (WorkerQueues tok p) cr = workerQueues tok p cr"
| "rexec RdStop cr = reader_Stop cr"
| "rexec RdCtxEnds cr = Some (cr\<lparr>cr_ctxDone := True\<rparr>)"

inductive rreach :: "partitionState list \<Rightarrow> ChangeStreamReader \<Rightarrow> bool" for ps where
  rreach_start: "readerSetup (Inr ps) NewChangeStreamReader = Some cr \<Longrightarrow> rreach ps cr"
| rreach_step: "rreach ps cr \<Longrightarrow> rexec st cr = Some cr' \<Longrightarrow> rreach ps cr'"

fun rrun :: "reader_step list \<Rightarrow> ChangeStreamReader \<Rightarrow> ChangeStreamReader option" where
  "rrun [] cr = Some cr"
| "rrun (st # sts) cr = (case rexec st cr of None \<Rightarrow> None | Some cr' \<Rightarrow> rrun sts cr')"

section \<open>The watcher\<close>

text \<open>
  \<open>dispatchFromCS\<close>, with what it adds to the counter of events, and \<open>startChangeStream\<close>: the reader
  it leaves running, or the flag that says that the stream is not available.
\<close>

definition dispatchFromCS :: "Event list \<Rightarrow> Watcher \<Rightarrow> nat \<times> Watcher" where
  "dispatchFromCS events wt = (length events, dispatchEvents events wt)"

definition startChangeStream :: "(string \<Rightarrow> jmap option) \<Rightarrow> string \<Rightarrow> int \<Rightarrow> string list
    \<Rightarrow> (int \<Rightarrow> pbval option list \<times> goerr option) \<Rightarrow> Watcher \<Rightarrow> world
    \<Rightarrow> ChangeStreamReader option \<times> Watcher \<times> world" where
  "startChangeStream um replicaID now tokens query wt w =
     (case startPartitions um replicaID now tokens query w of
        (res, w1) \<Rightarrow>
          (readerSetup res NewChangeStreamReader,
           (case res of Inl e \<Rightarrow> csHealth StartFailed wt | Inr ps \<Rightarrow> wt), w1))"

section \<open>Every initial partition is read\<close>

definition tokens_of :: "partitionState list \<Rightarrow> string set" where
  "tokens_of ps = ps_token ` set ps"

lemma tokens_of_simps [simp]:
  "tokens_of [] = {}" "tokens_of (p # ps) = insert (ps_token p) (tokens_of ps)"
  "tokens_of (ps @ qs) = tokens_of ps \<union> tokens_of qs"
  by (auto simp: tokens_of_def)

definition reader_inv :: "partitionState list \<Rightarrow> ChangeStreamReader \<Rightarrow> bool" where
  "reader_inv ps cr \<longleftrightarrow>
     distinct (rd_active (cr_reader cr)) \<and> set (rd_active (cr_reader cr)) \<subseteq> tokens_of (rd_started (cr_reader cr)) \<and>
     length (cr_pending cr) \<le> partitionWorkersBuf \<and> cr_phase cr \<noteq> ReaderSetup \<and>
     (\<forall>e. cr_phase cr = ReaderReturned e \<longrightarrow> e = None \<and> cr_stopped cr \<and> rd_active (cr_reader cr) = []) \<and>
     (\<not> cr_ctxDone cr \<and> \<not> cr_stopCh cr \<longrightarrow>
        cr_phase cr = ReaderSelect \<and>
        tokens_of ps \<subseteq> tokens_of (cr_feed cr) \<union> tokens_of (cr_pending cr) \<union> tokens_of (rd_started (cr_reader cr)))"

lemma reader_invI:
  assumes "reader_inv ps cr"
    and "distinct (rd_active (cr_reader cr'))" "set (rd_active (cr_reader cr')) \<subseteq> tokens_of (rd_started (cr_reader cr'))"
      "length (cr_pending cr') \<le> partitionWorkersBuf" "cr_phase cr' \<noteq> ReaderSetup"
      "\<And>e. cr_phase cr' = ReaderReturned e \<Longrightarrow> e = None \<and> cr_stopped cr' \<and> rd_active (cr_reader cr') = []"
    and "cr_ctxDone cr \<Longrightarrow> cr_ctxDone cr'" "cr_stopCh cr \<Longrightarrow> cr_stopCh cr'"
    and "\<not> cr_ctxDone cr' \<Longrightarrow> \<not> cr_stopCh cr' \<Longrightarrow> cr_phase cr = ReaderSelect \<Longrightarrow> cr_phase cr' = ReaderSelect"
    and "\<not> cr_ctxDone cr' \<Longrightarrow> \<not> cr_stopCh cr' \<Longrightarrow>
      tokens_of (cr_feed cr) \<union> tokens_of (cr_pending cr) \<union> tokens_of (rd_started (cr_reader cr)) \<subseteq>
      tokens_of (cr_feed cr') \<union> tokens_of (cr_pending cr') \<union> tokens_of (rd_started (cr_reader cr'))"
  shows "reader_inv ps cr'"
  using assms unfolding reader_inv_def by blast

lemma reader_invD:
  assumes "reader_inv ps cr"
  shows "distinct (rd_active (cr_reader cr))" "set (rd_active (cr_reader cr)) \<subseteq> tokens_of (rd_started (cr_reader cr))"
    "length (cr_pending cr) \<le> partitionWorkersBuf" "cr_phase cr \<noteq> ReaderSetup"
    "\<And>e. cr_phase cr = ReaderReturned e \<Longrightarrow> e = None \<and> cr_stopped cr \<and> rd_active (cr_reader cr) = []"
    "\<not> cr_ctxDone cr \<Longrightarrow> \<not> cr_stopCh cr \<Longrightarrow> cr_phase cr = ReaderSelect"
    "\<not> cr_ctxDone cr \<Longrightarrow> \<not> cr_stopCh cr \<Longrightarrow>
      tokens_of ps \<subseteq> tokens_of (cr_feed cr) \<union> tokens_of (cr_pending cr) \<union> tokens_of (rd_started (cr_reader cr))"
  using assms by (simp_all add: reader_inv_def)

lemma readerTakes_inv:
  assumes "reader_inv ps cr" "readerTakes cr = Some cr'"
  shows "reader_inv ps cr'"
proof -
  note i = reader_invD [OF assms(1)]
  obtain p qs where p: "cr_phase cr = ReaderSelect" "cr_pending cr = p # qs"
    and cr': "cr' = cr\<lparr>cr_pending := qs, cr_reader := readerStep (TakePending p) (cr_reader cr)\<rparr>"
    using assms(2) by (auto simp: readerTakes_def split: reader_phase.splits list.splits)
  show ?thesis
    by (rule reader_invI [OF assms(1)]) (use i(1-3) p in \<open>auto simp: cr'\<close>)
qed

lemma queuePartition_inv:
  assumes "reader_inv ps (cr\<lparr>cr_feed := p # fs\<rparr>)" "queuePartition p (cr\<lparr>cr_feed := fs\<rparr>) = Some cr'"
  shows "reader_inv ps cr'"
proof -
  have cr': "cr' = cr\<lparr>cr_feed := fs, cr_pending := cr_pending cr @ [p]\<rparr>" "length (cr_pending cr) < partitionWorkersBuf"
    using assms(2) by (auto simp: queuePartition_def split: if_splits)
  show ?thesis
    by (rule reader_invI [OF assms(1)]) (use reader_invD(1-5) [OF assms(1)] cr'(2) in \<open>auto simp: cr'(1)\<close>)
qed

lemma rexec_inv:
  assumes "reader_inv ps cr" "rexec st cr = Some cr'"
  shows "reader_inv ps cr'"
proof (cases st)
  case RdFeeds
  then obtain p fs where p: "cr_feed cr = p # fs" "queuePartition p (cr\<lparr>cr_feed := fs\<rparr>) = Some cr'"
    using assms(2) by (auto simp: readerFeeds_def split: list.splits)
  have "cr = cr\<lparr>cr_feed := p # fs\<rparr>" using p(1) by (cases cr) simp
  then show ?thesis using queuePartition_inv [OF _ p(2)] assms(1) by simp
next
  case RdTakes
  then show ?thesis using readerTakes_inv assms by simp
next
  case (WorkerQueues tok p)
  then have "cr' = cr\<lparr>cr_pending := cr_pending cr @ [p]\<rparr>" "length (cr_pending cr) < partitionWorkersBuf"
    using assms(2) by (auto simp: workerQueues_def queuePartition_def split: if_splits)
  then show ?thesis by (intro reader_invI [OF assms(1)]) (use reader_invD(1-5) [OF assms(1)] in auto)
next
  case (WorkerEnds tok)
  then have "cr' = cr\<lparr>cr_reader := readerStep (WorkerDone tok) (cr_reader cr)\<rparr>"
    using assms(2) by (auto simp: workerEnds_def split: if_splits)
  then show ?thesis
    by (intro reader_invI [OF assms(1)]) (use reader_invD(1-5) [OF assms(1)] in \<open>auto simp: distinct_removeAll\<close>)
next
  case RdReturns
  then have "cr_phase cr = ReaderWaiting" "rd_active (cr_reader cr) = []"
    "cr' = cr\<lparr>cr_phase := ReaderReturned None, cr_stopped := True\<rparr>"
    using assms(2) by (auto simp: readerReturns_def split: if_splits)
  then show ?thesis by (intro reader_invI [OF assms(1)]) (use reader_invD(1-5) [OF assms(1)] in auto)
next
  case RdFeedEnds
  then have "cr' = cr\<lparr>cr_feed := []\<rparr>" "cr_ctxDone cr \<or> cr_stopCh cr"
    using assms(2) by (auto simp: readerFeedEnds_def split: if_splits)
  then show ?thesis by (intro reader_invI [OF assms(1)]) (use reader_invD(1-5) [OF assms(1)] in auto)
next
  case RdStops
  then have "cr' = cr\<lparr>cr_phase := ReaderWaiting\<rparr>" "cr_ctxDone cr \<or> cr_stopCh cr"
    using assms(2) by (auto simp: readerStops_def split: if_splits)
  then show ?thesis by (intro reader_invI [OF assms(1)]) (use reader_invD(1-5) [OF assms(1)] in auto)
next
  case RdStop
  then have "cr' = cr\<lparr>cr_stopCh := True\<rparr>" using assms(2) by (auto simp: reader_Stop_def split: if_splits)
  then show ?thesis by (intro reader_invI [OF assms(1)]) (use reader_invD(1-5) [OF assms(1)] in auto)
next
  case RdCtxEnds
  then have "cr' = cr\<lparr>cr_ctxDone := True\<rparr>" using assms(2) by simp
  then show ?thesis by (intro reader_invI [OF assms(1)]) (use reader_invD(1-5) [OF assms(1)] in auto)
qed

lemma rreach_inv: "rreach ps cr \<Longrightarrow> reader_inv ps cr"
proof (induction rule: rreach.induct)
  case (rreach_start cr)
  then show ?case by (auto simp: readerSetup_def NewChangeStreamReader_def reader_inv_def)
next
  case (rreach_step cr st cr')
  then show ?case using rexec_inv by blast
qed

lemma rrun_rreach: "rreach ps cr \<Longrightarrow> rrun sts cr = Some cr' \<Longrightarrow> rreach ps cr'"
  by (induction sts arbitrary: cr) (auto intro: rreach_step split: option.splits)

definition starting_step :: "reader_step \<Rightarrow> bool" where
  "starting_step st \<longleftrightarrow> st = RdFeeds \<or> st = RdTakes"

definition starts_left :: "ChangeStreamReader \<Rightarrow> nat" where
  "starts_left cr = 2 * length (cr_feed cr) + length (cr_pending cr)"

lemma starting_step_left:
  assumes "starting_step st" "rexec st cr = Some cr'"
  shows "starts_left cr' < starts_left cr \<and> cr_ctxDone cr' = cr_ctxDone cr \<and> cr_stopCh cr' = cr_stopCh cr"
  using assms
  by (auto simp: starting_step_def starts_left_def readerFeeds_def queuePartition_def readerTakes_def
      split: list.splits reader_phase.splits if_splits)

lemma starting_run:
  "list_all starting_step sts \<Longrightarrow> rrun sts cr = Some cr' \<Longrightarrow>
     length sts + starts_left cr' \<le> starts_left cr \<and> cr_ctxDone cr' = cr_ctxDone cr \<and> cr_stopCh cr' = cr_stopCh cr"
proof (induction sts arbitrary: cr)
  case (Cons st sts)
  then obtain cr1 where s: "rexec st cr = Some cr1" "rrun sts cr1 = Some cr'" by (auto split: option.splits)
  from Cons.IH [OF _ s(2)] starting_step_left [OF _ s(1)] Cons.prems(1) show ?case by fastforce
qed simp

text \<open>
  C14: the reader starts on every initial partition, however many there are: until it has, the
  goroutine that queues them or the select loop can go on, no matter in which order they do, and
  neither waits for a worker.  A partition never has two workers at a time.
\<close>

theorem initial_partitions_started:
  assumes "rreach ps cr" "\<not> cr_ctxDone cr" "\<not> cr_stopCh cr"
    and "list_all starting_step sts" "rrun sts cr = Some cr'"
  shows "length sts \<le> starts_left cr \<and> distinct (rd_active (cr_reader cr')) \<and>
    (tokens_of ps \<subseteq> tokens_of (rd_started (cr_reader cr')) \<or> rexec RdFeeds cr' \<noteq> None \<or> rexec RdTakes cr' \<noteq> None)"
proof -
  note r = starting_run [OF assms(4,5)]
  note i = reader_invD [OF rreach_inv [OF rrun_rreach [OF assms(1,5)]]]
  have "rexec RdFeeds cr' \<noteq> None \<or> rexec RdTakes cr' \<noteq> None" if "cr_feed cr' \<noteq> [] \<or> cr_pending cr' \<noteq> []"
  proof (cases "cr_pending cr'")
    case Nil
    with that show ?thesis
      by (auto simp: readerFeeds_def queuePartition_def partitionWorkersBuf_def split: list.splits)
  next
    case (Cons p qs)
    then show ?thesis using i(6) r assms(2,3) by (simp add: readerTakes_def)
  qed
  moreover have "tokens_of ps \<subseteq> tokens_of (rd_started (cr_reader cr'))" if "cr_feed cr' = []" "cr_pending cr' = []"
    using i(7) r assms(2,3) that by simp
  ultimately show ?thesis using i(1) r by linarith
qed

definition demo_partition :: "string \<Rightarrow> partitionState" where
  "demo_partition tok = \<lparr>ps_token = tok, ps_start = 1, ps_resume = 1\<rparr>"

theorem initial_partitions_started_witness:
  "case readerSetup (Inr [demo_partition ''p'', demo_partition ''q'']) NewChangeStreamReader of
     None \<Rightarrow> False
   | Some cr \<Rightarrow>
       (case rrun [RdFeeds, RdTakes, RdFeeds] cr of
          None \<Rightarrow> False
        | Some cr' \<Rightarrow>
            rd_active (cr_reader cr') = [''p''] \<and> distinct (rd_active (cr_reader cr')) \<and>
            (rexec RdFeeds cr' \<noteq> None \<or> rexec RdTakes cr' \<noteq> None))"
proof -
  let ?ps = "[demo_partition ''p'', demo_partition ''q'']"
  obtain cr cr' where cr: "readerSetup (Inr ?ps) NewChangeStreamReader = Some cr" "\<not> cr_ctxDone cr" "\<not> cr_stopCh cr"
    and run: "rrun [RdFeeds, RdTakes, RdFeeds] cr = Some cr'" "rd_active (cr_reader cr') = [''p'']"
      "rd_started (cr_reader cr') = [demo_partition ''p'']"
    by (simp add: readerSetup_def NewChangeStreamReader_def readerFeeds_def readerTakes_def queuePartition_def
        partitionWorkersBuf_def demo_partition_def)
  have "\<not> tokens_of ?ps \<subseteq> tokens_of (rd_started (cr_reader cr'))" by (simp add: run(3) demo_partition_def)
  with initial_partitions_started [OF rreach_start [OF cr(1)] cr(2,3) _ run(1)] cr run show ?thesis
    by (simp add: starting_step_def)
qed

section \<open>The end of the reader\<close>

fun stopping_step :: "reader_step \<Rightarrow> bool" where
  "stopping_step (WorkerEnds tok) = True"
| "stopping_step st = (st \<in> {RdFeedEnds, RdStops, RdReturns})"

definition stops_left :: "ChangeStreamReader \<Rightarrow> nat" where
  "stops_left cr =
     of_bool (cr_feed cr \<noteq> []) + length (rd_active (cr_reader cr)) +
     (case cr_phase cr of ReaderSelect \<Rightarrow> 2 | ReaderWaiting \<Rightarrow> 1 | _ \<Rightarrow> 0)"

lemma stopping_step_left:
  assumes "stopping_step st" "rexec st cr = Some cr'"
  shows "stops_left cr' < stops_left cr \<and> cr_ctxDone cr' = cr_ctxDone cr \<and> cr_stopCh cr' = cr_stopCh cr"
  using assms
  by (cases st) (auto simp: stops_left_def readerFeedEnds_def readerStops_def readerReturns_def workerEnds_def
      length_removeAll_less split: if_splits)

lemma stopping_run:
  "list_all stopping_step sts \<Longrightarrow> rrun sts cr = Some cr' \<Longrightarrow>
     length sts + stops_left cr' \<le> stops_left cr \<and> cr_ctxDone cr' = cr_ctxDone cr \<and> cr_stopCh cr' = cr_stopCh cr"
proof (induction sts arbitrary: cr)
  case (Cons st sts)
  then obtain cr1 where s: "rexec st cr = Some cr1" "rrun sts cr1 = Some cr'" by (auto split: option.splits)
  from Cons.IH [OF _ s(2)] stopping_step_left [OF _ s(1)] Cons.prems(1) show ?case by fastforce
qed simp

text \<open>
  A reader that is told to stop returns: its workers, the queueing goroutine and the loop can
  always go on towards the end, a full channel of partitions does not hold them up, and \<open>Stop\<close>
  gets the signal it waits for.
\<close>

lemma reader_ends:
  assumes "rreach ps cr" "cr_ctxDone cr \<or> cr_stopCh cr" "list_all stopping_step sts" "rrun sts cr = Some cr'"
  shows "length sts \<le> length (rd_active (cr_reader cr)) + 3"
    "cr_phase cr' = ReaderReturned None \<and> cr_stopped cr' \<and> rd_active (cr_reader cr') = [] \<or>
     (\<exists>st. stopping_step st \<and> rexec st cr' \<noteq> None)"
proof -
  note r = stopping_run [OF assms(3,4)]
  note i = reader_invD [OF rreach_inv [OF rrun_rreach [OF assms(1,4)]]]
  have "stops_left cr \<le> length (rd_active (cr_reader cr)) + 3" by (simp add: stops_left_def split: reader_phase.splits)
  then show "length sts \<le> length (rd_active (cr_reader cr)) + 3" using r by linarith
  show "cr_phase cr' = ReaderReturned None \<and> cr_stopped cr' \<and> rd_active (cr_reader cr') = [] \<or>
     (\<exists>st. stopping_step st \<and> rexec st cr' \<noteq> None)"
  proof (cases "cr_phase cr'")
    case ReaderSelect
    then have "rexec RdStops cr' \<noteq> None" using r assms(2) by (simp add: readerStops_def)
    then show ?thesis by (intro disjI2 exI [of _ RdStops]) simp
  next
    case ReaderWaiting
    show ?thesis
    proof (cases "rd_active (cr_reader cr')")
      case Nil
      then have "rexec RdReturns cr' \<noteq> None" using ReaderWaiting by (simp add: readerReturns_def)
      then show ?thesis by (intro disjI2 exI [of _ RdReturns]) simp
    next
      case (Cons tok toks)
      then have "rexec (WorkerEnds tok) cr' \<noteq> None" by (simp add: workerEnds_def)
      then show ?thesis by (intro disjI2 exI [of _ "WorkerEnds tok"]) simp
    qed
  qed (use i(4,5) in auto)
qed

section \<open>Both sources together\<close>

text \<open>
  The poll loop dispatches every row it has not seen, healthy stream or not, and the stream
  dispatches the same rows: a client gets the events of a transaction twice.
\<close>

lemma sends_all:
  assumes "sub_prefix sub = []" "\<not> sub_closed sub" "length (sub_ch sub) < subChannelDepth" "events \<noteq> []"
  shows "dispatchOne events sub = sub\<lparr>sub_ch := sub_ch sub @ [events]\<rparr>"
  using assms by (simp add: dispatchOne_def matching_def TrimSuffix_def HasSuffix_def sendOrCancel_def trySend_def)

lemma dispatch_subscribers [simp]: "wt_subscribers (dispatchEvents events wt) = wt_subscribers wt"
proof -
  have "wt_subscribers (fold (\<lambda>s. upd_sub s f) ss wt) = wt_subscribers wt" for f ss
    by (induction ss arbitrary: wt) (simp_all add: upd_sub_def)
  then show ?thesis by (simp add: dispatchEvents_def)
qed

lemma both_sources_deliver:
  assumes "quiet (w_env w)" "wf_db (w_db w)" "0 < lastRev" "compact_rev (w_db w) \<le> lastRev"
    and "rs = pending [] lastRev (w_db w)" "rs \<noteq> []" "length rs \<le> 500"
    and "distinct (wt_subscribers wt)" "s \<in> set (wt_subscribers wt)"
    and "sub_prefix (wt_sub wt s) = []" "\<not> sub_closed (wt_sub wt s)" "length (sub_ch (wt_sub wt s)) + 1 < subChannelDepth"
    and "dispatchFromCS (map cs_event rs) wt = (n, wt1)" "doPoll lastRev wt1 w = (lastRev', wt2, w')"
  shows "sub_ch (wt_sub wt2 s) = sub_ch (wt_sub wt s) @ [map cs_event rs, map rowEvent rs]"
    "map (Rev \<circ> ev_KV) (map cs_event rs) = map (Rev \<circ> ev_KV) (map rowEvent rs)"
proof -
  have ev: "map cs_event rs \<noteq> []" "map rowEvent rs \<noteq> []" using assms(6) by simp_all
  have one: "wt_sub wt1 s = (wt_sub wt s)\<lparr>sub_ch := sub_ch (wt_sub wt s) @ [map cs_event rs]\<rparr>"
    using sends_all [OF assms(10,11) _ ev(1)] assms(8,9,12,13) by (auto simp: dispatchFromCS_def dispatchEvents_sub)
  have "wt2 = dispatchEvents (map rowEvent rs) wt1"
    using After_quiet(1) [OF assms(1,2), of lastRev "[]" 500] assms(4-7,14)
    by (auto simp: doPoll_def pollBatchSize_def limitClause_def)
  then show "sub_ch (wt_sub wt2 s) = sub_ch (wt_sub wt s) @ [map cs_event rs, map rowEvent rs]"
    using sends_all [of "wt_sub wt1 s", OF _ _ _ ev(2)] one assms(8-13)
    by (auto simp: dispatchFromCS_def dispatchEvents_sub)
  show "map (Rev \<circ> ev_KV) (map cs_event rs) = map (Rev \<circ> ev_KV) (map rowEvent rs)"
    by (simp add: cs_event_def rowEvent_def scanKV_def)
qed

lemma both_sources_demo:
  "case doPoll 30 (snd (dispatchFromCS (map cs_event (pending [] 30 demo_db)) (snd (subscribe [] newWatcher))))
          (demo_world demo_db) of
     (lastRev', wt2, w') \<Rightarrow>
       map (Rev \<circ> ev_KV) (concat (sub_ch (wt_sub wt2 0))) = [40, 50, 40, 50]"
proof -
  let ?rs = "pending [] 30 demo_db" and ?wt = "snd (subscribe [] newWatcher)"
  obtain n wt1 where 1: "dispatchFromCS (map cs_event ?rs) ?wt = (n, wt1)" by fastforce
  obtain l wt2 w' where 2: "doPoll 30 wt1 (demo_world demo_db) = (l, wt2, w')" by (rule prod_cases3)
  have rs: "?rs = [demo_row 4 40 ''b'' None (Some ''v'') 0 True 20 (Some 20), demo_row 5 50 ''c'' (Some ''z'') None 0 False 50 None]"
    by (simp add: pending_def demo_defs)
  have "sub_ch (wt_sub wt2 0) = sub_ch (wt_sub ?wt 0) @ [map cs_event ?rs, map rowEvent ?rs]"
    by (rule both_sources_deliver [OF quiet_demo _ _ _ _ _ _ _ _ _ _ _ 1 2])
      (simp_all add: wf_demo compact_rev_demo rs subscribe_def newWatcher_def subChannelDepth_def)
  then show ?thesis using 1 2
    by (simp add: rs subscribe_def newWatcher_def cs_event_def rowEvent_def scanKV_def demo_row_def tsToRev_id)
qed

text \<open>
  A subscription is registered before its replay reads the log: an event that is dispatched in
  between is delivered again by the replay.
\<close>

lemma replay_overlaps_dispatch:
  "case wrun [Subscribe [] 50, Dispatch [rowEvent (demo_row 5 50 ''c'' (Some ''z'') None 0 False 50 None)], DispStep 0,
      DispStep 0, SubStep 0, SubStep 0, SubStep 0] (init_wsys (demo_world demo_db)) no_hist of
     None \<Rightarrow> False
   | Some (sys, h) \<Rightarrow> map (map (Rev \<circ> ev_KV)) (sub_ch (the_sub sys 0)) = [[50], [50]]"
proof -
  let ?w = "demo_world demo_db" and ?r = "demo_row 5 50 ''c'' (Some ''z'') None 0 False 50 None"
  have c: "Store_compactRevision ?w = (1, None, served ?w)"
    using wf_demo compact_rev_demo by (simp add: compactRevision_eq)
  have "quiet (w_env (served ?w))" using quiet_demo by simp
  moreover have "pending [] 49 demo_db = [?r]" by (simp add: pending_def demo_defs)
  ultimately have p: "replayPage [] 49 (served ?w) = (Inr ([rowEvent ?r], 50, False), served (after_query 49 (served ?w)))"
    using After_quiet(1) [of "served ?w" 49 "[]" 500] wf_demo compact_rev_demo
    by (simp add: replayPage_def pollBatchSize_def limitClause_def rowEvent_def scanKV_def demo_row_def tsToRev_id)
  show ?thesis
    using c p by (simp add: wrun_defs replayAllowed_def matching_def TrimSuffix_def HasSuffix_def wrap64_def
        rowEvent_def scanKV_def demo_row_def tsToRev_id)
qed

end
