(* ===== verification/Lease_Steps.thy ===== *)
theory Lease_Steps
  imports Lease
begin

text \<open>
  The lease manager of \<open>pkg/store/lease.go\<close> with its goroutines interleaved: calls of \<open>Grant\<close>,
  \<open>Revoke\<close> and \<open>Keepalive\<close>, the expiry goroutines, the reload of \<open>gcLoop\<close> and \<open>close\<close>.  A step is
  what one of them does while it holds the mutex, or its calls to Spanner between two such points;
  between two steps anybody else can run.  The gauge \<open>ActiveLeases\<close> of \<open>pkg/metrics\<close> is part of the state.
\<close>

section \<open>State\<close>

text \<open>
  \<open>ly_granting\<close> are the calls of \<open>Grant\<close> whose record is written, \<open>ly_revoking\<close> the calls of
  \<open>Revoke\<close> whose keys are deleted, \<open>ly_expiring\<close> the expiry goroutines in their retry loop with the
  number of the next attempt, \<open>ly_loading\<close> the rows of the reload that are not looked at yet.
\<close>

record lease_sys =
  ly_lm :: LeaseManager
  ly_world :: world
  ly_granting :: "Lease list"
  ly_revoking :: "int list"
  ly_expiring :: "(int \<times> nat) list"
  ly_loading :: "lease_row list"
  ly_gauge :: int
  ly_stopCh :: bool
  ly_ctxDone :: bool

definition init_leases :: "int \<Rightarrow> world \<Rightarrow> lease_sys" where
  "init_leases now w =
     \<lparr>ly_lm = newLeaseManager now, ly_world = w, ly_granting = [], ly_revoking = [], ly_expiring = [],
      ly_loading = [], ly_gauge = 0, ly_stopCh = False,
      ly_ctxDone = False\<rparr>"

definition put_lease :: "Lease \<Rightarrow> lease_sys \<Rightarrow> lease_sys" where
  "put_lease lease sys =
     sys\<lparr>ly_lm := scheduleExpiry lease ((ly_lm sys)\<lparr>lm_leases := (lm_leases (ly_lm sys))(L_ID lease \<mapsto> lease)\<rparr>),
         ly_gauge := ly_gauge sys + 1\<rparr>"

section \<open>Steps\<close>

text \<open>\<open>Grant\<close>: the record, then the map, the gauge and the expiry goroutine.\<close>

definition grantApplies :: "int \<Rightarrow> int \<Rightarrow> lease_sys \<Rightarrow> lease_sys" where
  "grantApplies now ttl sys =
     (let lid = wrap64 (lm_nextID (ly_lm sys) + 1);
          sys1 = sys\<lparr>ly_lm := (ly_lm sys)\<lparr>lm_nextID := lid\<rparr>\<rparr>
      in (case apply_call [InsertLease lid ttl CommitTimestamp] (ly_world sys) of
            (Inl e, w1) \<Rightarrow> sys1\<lparr>ly_world := w1\<rparr>
          | (Inr _, w1) \<Rightarrow> sys1\<lparr>ly_world := w1, ly_granting := ly_granting sys @ [newLease lid ttl now]\<rparr>))"

definition grantRecords :: "Lease \<Rightarrow> lease_sys \<Rightarrow> lease_sys option" where
  "grantRecords lease sys =
     (if lease \<in> set (ly_granting sys)
      then Some (put_lease lease (sys\<lparr>ly_granting := remove1 lease (ly_granting sys)\<rparr>)) else None)"

text \<open>\<open>Revoke\<close>: the keys and the record, then the map and the gauge.\<close>

definition revokeKeys :: "int \<Rightarrow> lease_sys \<Rightarrow> goerr option \<times> lease_sys" where
  "revokeKeys lid sys =
     (case expireLeaseKeys lid (ly_world sys) of
        (Some e, w1) \<Rightarrow> (Some e, sys\<lparr>ly_world := w1\<rparr>)
      | (None, w1) \<Rightarrow> (None, sys\<lparr>ly_world := w1, ly_revoking := ly_revoking sys @ [lid]\<rparr>))"

definition revokeRecords :: "int \<Rightarrow> lease_sys \<Rightarrow> lease_sys option" where
  "revokeRecords lid sys =
     (if lid \<in> set (ly_revoking sys)
      then Some (sys\<lparr>ly_revoking := remove1 lid (ly_revoking sys),
                     ly_lm := (ly_lm sys)\<lparr>lm_leases := (lm_leases (ly_lm sys))(lid := None)\<rparr>,
                     ly_gauge := (if lm_leases (ly_lm sys) lid = None then ly_gauge sys else ly_gauge sys - 1)\<rparr>)
      else None)"

text \<open>
  \<open>scheduleExpiry\<close>: the timer fires and the goroutine looks at the lease; then up to five attempts,
  with a wait after each failure in which it also ends when the manager is stopped.
\<close>

definition expiryFires :: "int \<Rightarrow> int \<times> int \<Rightarrow> lease_sys \<Rightarrow> lease_sys option" where
  "expiryFires now tm sys =
     (if tm \<in> set (lm_timers (ly_lm sys)) \<and> snd tm \<le> now
      then (let lm1 = (ly_lm sys)\<lparr>lm_timers := remove1 tm (lm_timers (ly_lm sys))\<rparr>
            in Some (case lm_leases lm1 (fst tm) of
                       None \<Rightarrow> sys\<lparr>ly_lm := lm1\<rparr>
                     | Some cur \<Rightarrow>
                         if time_Until now (L_ExpiresAt cur) > nanos
                         then sys\<lparr>ly_lm := scheduleExpiry cur lm1\<rparr>
                         else sys\<lparr>ly_lm := lm1, ly_expiring := ly_expiring sys @ [(fst tm, 1)]\<rparr>))
      else None)"

definition expiryTries :: "int \<times> nat \<Rightarrow> lease_sys \<Rightarrow> lease_sys option" where
  "expiryTries ex sys =
     (if ex \<in> set (ly_expiring sys)
      then (let sys1 = sys\<lparr>ly_expiring := remove1 ex (ly_expiring sys)\<rparr>
            in Some (case revokeKeys (fst ex) sys1 of
                       (None, sys2) \<Rightarrow> sys2
                     | (Some e, sys2) \<Rightarrow>
                         if snd ex < 5 then sys2\<lparr>ly_expiring := ly_expiring sys2 @ [(fst ex, Suc (snd ex))]\<rparr> else sys2))
      else None)"

text \<open>The channel of \<open>close\<close> is closed, or the context of the store is done.\<close>

definition lease_stopping :: "lease_sys \<Rightarrow> bool" where
  "lease_stopping sys \<longleftrightarrow> ly_stopCh sys \<or> ly_ctxDone sys"

lemma lease_stopping_upd [simp]:
  "lease_stopping (sys\<lparr>ly_stopCh := True\<rparr>)" "lease_stopping (sys\<lparr>ly_ctxDone := True\<rparr>)"
  "lease_stopping (sys\<lparr>ly_lm := lm\<rparr>) = lease_stopping sys" "lease_stopping (sys\<lparr>ly_world := w\<rparr>) = lease_stopping sys"
  "lease_stopping (sys\<lparr>ly_granting := gs\<rparr>) = lease_stopping sys" "lease_stopping (sys\<lparr>ly_revoking := rs\<rparr>) = lease_stopping sys"
  "lease_stopping (sys\<lparr>ly_expiring := es\<rparr>) = lease_stopping sys" "lease_stopping (sys\<lparr>ly_loading := ls\<rparr>) = lease_stopping sys"
  "lease_stopping (sys\<lparr>ly_gauge := g\<rparr>) = lease_stopping sys"
  by (simp_all add: lease_stopping_def)

definition expiryStops :: "int \<times> nat \<Rightarrow> lease_sys \<Rightarrow> lease_sys option" where
  "expiryStops ex sys =
     (if ex \<in> set (ly_expiring sys) \<and> 1 < snd ex \<and> lease_stopping sys
      then Some (sys\<lparr>ly_expiring := remove1 ex (ly_expiring sys)\<rparr>) else None)"

definition timerStops :: "int \<times> int \<Rightarrow> lease_sys \<Rightarrow> lease_sys option" where
  "timerStops tm sys =
     (if tm \<in> set (lm_timers (ly_lm sys)) \<and> lease_stopping sys
      then Some (sys\<lparr>ly_lm := (ly_lm sys)\<lparr>lm_timers := remove1 tm (lm_timers (ly_lm sys))\<rparr>\<rparr>) else None)"

text \<open>\<open>loadLeases\<close>: the query reads one snapshot, then the rows are looked at one by one.\<close>

definition loadScans :: "lease_sys \<Rightarrow> lease_sys option" where
  "loadScans sys =
     (if ly_loading sys \<noteq> [] then None
      else (case stream_rows QLeases kv_lease (ly_world sys) of
              ((rows, err), w1) \<Rightarrow> Some (sys\<lparr>ly_world := w1, ly_loading := rows\<rparr>)))"

definition loadRow :: "lease_sys \<Rightarrow> lease_sys option" where
  "loadRow sys =
     (case ly_loading sys of
        [] \<Rightarrow> None
      | r # rs \<Rightarrow>
          (let lid = l_lease_id r; lease = newLease lid (l_ttl_sec r) (l_granted_at r); sys1 = sys\<lparr>ly_loading := rs\<rparr>
           in Some (if lm_leases (ly_lm sys) lid = None then put_lease lease sys1 else sys1)))"

text \<open>\<open>close\<close>: closing a closed channel panics.\<close>

definition lease_close :: "lease_sys \<Rightarrow> lease_sys option" where
  "lease_close sys = (if ly_stopCh sys then None else Some (sys\<lparr>ly_stopCh := True\<rparr>))"

datatype lease_step =
    GrantApplies int int | GrantRecords Lease
  | RevokeKeys int | RevokeRecords int
  | KeepAlives int int
  | ExpiryFires int "int \<times> int" | ExpiryTries "int \<times> nat" | ExpiryStops "int \<times> nat" | TimerStops "int \<times> int"
  | LoadScans | LoadRow
  | LeaseClose | LeaseCtxEnds
  | LeaseWorld world

fun lexec :: "lease_step \<Rightarrow> lease_sys \<Rightarrow> lease_sys option" where
  "lexec (GrantApplies now ttl) sys = Some (grantApplies now ttl sys)"
| "lexec (GrantRecords lease) sys = grantRecords lease sys"
| "lexec (RevokeKeys lid) sys = Some (snd (revokeKeys lid sys))"
| "lexec (RevokeRecords lid) sys = revokeRecords lid sys"
| "lexec (KeepAlives now lid) sys = Some (sys\<lparr>ly_lm := snd (Lease_Keepalive now lid (ly_lm sys))\<rparr>)"
| "lexec (ExpiryFires now tm) sys = expiryFires now tm sys"
| "lexec (ExpiryTries ex) sys = expiryTries ex sys"
| "lexec (ExpiryStops ex) sys = expiryStops ex sys"
| "lexec (TimerStops tm) sys = timerStops tm sys"
| "lexec LoadScans sys = loadScans sys"
| "lexec LoadRow sys = loadRow sys"
| "lexec LeaseClose sys = lease_close sys"
| "lexec LeaseCtxEnds sys = Some (sys\<lparr>ly_ctxDone := True\<rparr>)"
| "lexec (LeaseWorld w) sys = Some (sys\<lparr>ly_world := w\<rparr>)"

text \<open>
  What has happened: how often a \<open>Grant\<close> found its lease already in the map, and the leases whose
  fifth attempt failed.
\<close>

record lease_hist =
  lh_again :: nat
  lh_stuck :: "int set"

fun lnote :: "lease_step \<Rightarrow> lease_sys \<Rightarrow> lease_hist \<Rightarrow> lease_hist" where
  "lnote (GrantRecords lease) sys h =
     (if lm_leases (ly_lm sys) (L_ID lease) = None then h else h\<lparr>lh_again := Suc (lh_again h)\<rparr>)"
| "lnote (ExpiryTries ex) sys h =
     (if 5 \<le> snd ex \<and> fst (expireLeaseKeys (fst ex) (ly_world sys)) \<noteq> None
      then h\<lparr>lh_stuck := insert (fst ex) (lh_stuck h)\<rparr> else h)"
| "lnote _ sys h = h"

inductive lreach :: "lease_sys \<Rightarrow> lease_hist \<Rightarrow> bool" where
  lreach_start: "lreach (init_leases now w) \<lparr>lh_again = 0, lh_stuck = {}\<rparr>"
| lreach_step: "lreach sys h \<Longrightarrow> lexec st sys = Some sys' \<Longrightarrow> lreach sys' (lnote st sys h)"

fun lrun :: "lease_step list \<Rightarrow> lease_sys \<Rightarrow> lease_hist \<Rightarrow> (lease_sys \<times> lease_hist) option" where
  "lrun [] sys h = Some (sys, h)"
| "lrun (st # sts) sys h = (case lexec st sys of None \<Rightarrow> None | Some sys' \<Rightarrow> lrun sts sys' (lnote st sys h))"

lemma lrun_lreach: "lrun sts sys h = Some (sys', h') \<Longrightarrow> lreach sys h \<Longrightarrow> lreach sys' h'"
  by (induction sts arbitrary: sys h) (auto split: option.splits intro: lreach_step)

text \<open>An operation that nobody interrupts is a run of its steps.\<close>

lemma Grant_steps:
  assumes "ly_granting sys = []" "Lease_Grant now ttl (ly_lm sys) (ly_world sys) = (Inr lease, lm', w')"
  shows "lrun [GrantApplies now ttl, GrantRecords lease] sys h = Some
    (sys\<lparr>ly_lm := lm', ly_world := w', ly_gauge := ly_gauge sys + 1\<rparr>,
     if lm_leases (ly_lm sys) (L_ID lease) = None then h else h\<lparr>lh_again := Suc (lh_again h)\<rparr>)"
  using assms by (auto simp: Lease_Grant_def grantApplies_def grantRecords_def put_lease_def Let_def newLease_def
      split: prod.splits sum.splits)

lemma Revoke_steps:
  assumes "ly_revoking sys = []" "Lease_Revoke lid (ly_lm sys) (ly_world sys) = (None, lm', w')"
  shows "lrun [RevokeKeys lid, RevokeRecords lid] sys h = Some
    (sys\<lparr>ly_lm := lm', ly_world := w',
         ly_gauge := (if lm_leases (ly_lm sys) lid = None then ly_gauge sys else ly_gauge sys - 1)\<rparr>, h)"
  using assms by (auto simp: Lease_Revoke_def revokeKeys_def revokeRecords_def split: prod.splits option.splits)

lemma loadRows_steps:
  "ly_loading sys = rows \<Longrightarrow> \<exists>sys'. lrun (replicate (length rows) LoadRow) sys h = Some (sys', h) \<and>
     ly_lm sys' = loadRows rows (ly_lm sys) \<and> ly_world sys' = ly_world sys"
proof (induction rows arbitrary: sys)
  case (Cons r rows)
  then obtain sys1 where s: "loadRow sys = Some sys1" "ly_loading sys1 = rows" "ly_world sys1 = ly_world sys"
    and lm: "loadRows (r # rows) (ly_lm sys) = loadRows rows (ly_lm sys1)"
    by (auto simp: loadRow_def put_lease_def Let_def newLease_def)
  then show ?case using Cons.IH [OF s(2)] by auto
qed simp

lemma loadLeases_steps:
  assumes "ly_loading sys = []" "loadLeases (ly_lm sys) (ly_world sys) = (err, lm', w')"
  shows "\<exists>n sys'. lrun (LoadScans # replicate n LoadRow) sys h = Some (sys', h) \<and> ly_lm sys' = lm' \<and> ly_world sys' = w'"
proof -
  obtain rows where r: "stream_rows QLeases kv_lease (ly_world sys) = ((rows, err), w')" "lm' = loadRows rows (ly_lm sys)"
    using assms(2) by (auto simp: loadLeases_def split: prod.splits)
  have "loadScans sys = Some (sys\<lparr>ly_world := w', ly_loading := rows\<rparr>)" using assms(1) r(1) by (simp add: loadScans_def)
  then show ?thesis
    using loadRows_steps [of "sys\<lparr>ly_world := w', ly_loading := rows\<rparr>" rows h] r(2)
    by (intro exI [of _ "length rows"]) auto
qed

section \<open>A reload between the two steps of a grant\<close>

definition race :: "lease_step list" where
  "race = [GrantApplies 5 60, LoadScans, LoadRow, LoadRow, GrantRecords (newLease 1001 60 5)]"

definition race_end :: "lease_sys \<times> lease_hist" where
  "race_end = the (lrun race (init_leases 1000 (demo_world demo_db)) \<lparr>lh_again = 0, lh_stuck = {}\<rparr>)"

lemma race_runs: "lrun race (init_leases 1000 (demo_world demo_db)) \<lparr>lh_again = 0, lh_stuck = {}\<rparr> \<noteq> None"
  by code_simp

lemma race_reached: "lreach (fst race_end) (snd race_end)"
  using race_runs by (auto simp: race_end_def intro: lrun_lreach lreach_start)

text \<open>The lease is counted twice and has two expiry goroutines.\<close>

lemma race_values:
  "ly_gauge (fst race_end) = 3" "lh_again (snd race_end) = 1" "map fst (lm_timers (ly_lm (fst race_end))) = [7, 1001, 1001]"
  "lm_leases (ly_lm (fst race_end)) 1001 = Some (newLease 1001 60 5)" "\<not> lease_stopping (fst race_end)"
  by code_simp+

section \<open>The gauge\<close>

definition gauge_inv :: "lease_sys \<Rightarrow> lease_hist \<Rightarrow> bool" where
  "gauge_inv sys h \<longleftrightarrow>
     finite (dom (lm_leases (ly_lm sys))) \<and>
     ly_gauge sys = int (card (dom (lm_leases (ly_lm sys)))) + int (lh_again h)"

lemma gauge_same:
  assumes "gauge_inv sys h" "dom (lm_leases (ly_lm sys')) = dom (lm_leases (ly_lm sys))" "ly_gauge sys' = ly_gauge sys"
  shows "gauge_inv sys' h"
  using assms by (simp add: gauge_inv_def)

lemma L_ID_newLease [simp]: "L_ID (newLease lid ttl t) = lid"
  by (simp add: newLease_def)

lemma scheduleExpiry_simps [simp]:
  "lm_leases (scheduleExpiry lease lm) = lm_leases lm"
  "lm_timers (scheduleExpiry lease lm) = lm_timers lm @ [(L_ID lease, L_ExpiresAt lease)]"
  by (simp_all add: scheduleExpiry_def)

lemma put_lease_gauge:
  assumes "gauge_inv sys h" "ly_lm sys1 = ly_lm sys" "ly_gauge sys1 = ly_gauge sys"
  shows "gauge_inv (put_lease lease sys1)
    (if lm_leases (ly_lm sys) (L_ID lease) = None then h else h\<lparr>lh_again := Suc (lh_again h)\<rparr>)"
  using assms by (auto simp: gauge_inv_def put_lease_def card_insert_if domIff insert_absorb)

lemma Keepalive_dom: "dom (lm_leases (snd (Lease_Keepalive now lid lm))) = dom (lm_leases lm)"
  by (auto simp: Lease_Keepalive_def split: option.splits)

lemma revokeKeys_simps [simp]:
  "ly_lm (snd (revokeKeys lid sys)) = ly_lm sys" "ly_gauge (snd (revokeKeys lid sys)) = ly_gauge sys"
  "ly_expiring (snd (revokeKeys lid sys)) = ly_expiring sys" "lease_stopping (snd (revokeKeys lid sys)) = lease_stopping sys"
  "set (ly_revoking (snd (revokeKeys lid sys))) =
     set (ly_revoking sys) \<union> (if fst (expireLeaseKeys lid (ly_world sys)) = None then {lid} else {})"
  "fst (revokeKeys lid sys) = fst (expireLeaseKeys lid (ly_world sys))"
  by (auto simp: revokeKeys_def lease_stopping_def split: prod.splits option.splits)

lemma expiryTries_simps:
  assumes "expiryTries ex sys = Some sys'"
  shows "ex \<in> set (ly_expiring sys)" "ly_lm sys' = ly_lm sys" "ly_gauge sys' = ly_gauge sys" "lease_stopping sys' = lease_stopping sys"
    "set (ly_revoking sys) \<subseteq> set (ly_revoking sys')" "set (remove1 ex (ly_expiring sys)) \<subseteq> set (ly_expiring sys')"
    "fst ex \<in> fst ` set (ly_expiring sys') \<union> set (ly_revoking sys') \<union> lh_stuck (lnote (ExpiryTries ex) sys h)"
proof -
  let ?sys1 = "sys\<lparr>ly_expiring := remove1 ex (ly_expiring sys)\<rparr>"
  obtain err sys2 where r: "revokeKeys (fst ex) ?sys1 = (err, sys2)" by force
  note s = revokeKeys_simps [of "fst ex" ?sys1, unfolded r, simplified]
  from assms r have "ex \<in> set (ly_expiring sys)" and
    sys': "sys' = (if err \<noteq> None \<and> snd ex < 5 then sys2\<lparr>ly_expiring := ly_expiring sys2 @ [(fst ex, Suc (snd ex))]\<rparr> else sys2)"
    by (auto simp: expiryTries_def Let_def split: if_splits option.splits)
  then show "ex \<in> set (ly_expiring sys)" "ly_lm sys' = ly_lm sys" "ly_gauge sys' = ly_gauge sys" "lease_stopping sys' = lease_stopping sys"
    "set (ly_revoking sys) \<subseteq> set (ly_revoking sys')" "set (remove1 ex (ly_expiring sys)) \<subseteq> set (ly_expiring sys')"
    using s by auto
  show "fst ex \<in> fst ` set (ly_expiring sys') \<union> set (ly_revoking sys') \<union> lh_stuck (lnote (ExpiryTries ex) sys h)"
    using s(5,6) by (auto simp: sys')
qed

lemma lexec_gauge:
  assumes "gauge_inv sys h" "lexec st sys = Some sys'"
  shows "gauge_inv sys' (lnote st sys h)"
proof (cases st)
  case (GrantRecords lease)
  with assms show ?thesis
    using put_lease_gauge [OF assms(1), of "sys\<lparr>ly_granting := remove1 lease (ly_granting sys)\<rparr>" lease]
    by (auto simp: grantRecords_def split: if_splits)
next
  case LoadRow
  with assms show ?thesis
    using put_lease_gauge [OF assms(1), of "sys\<lparr>ly_loading := tl (ly_loading sys)\<rparr>"
        "newLease (l_lease_id (hd (ly_loading sys))) (l_ttl_sec (hd (ly_loading sys))) (l_granted_at (hd (ly_loading sys)))"]
    by (auto simp: loadRow_def Let_def split: list.splits if_splits intro: gauge_same)
next
  case (RevokeRecords lid)
  with assms have "sys' = sys\<lparr>ly_revoking := remove1 lid (ly_revoking sys),
      ly_lm := (ly_lm sys)\<lparr>lm_leases := (lm_leases (ly_lm sys))(lid := None)\<rparr>,
      ly_gauge := (if lm_leases (ly_lm sys) lid = None then ly_gauge sys else ly_gauge sys - 1)\<rparr>"
    by (auto simp: revokeRecords_def split: if_splits)
  moreover have "card (dom (lm_leases (ly_lm sys))) > 0" if "lm_leases (ly_lm sys) lid \<noteq> None"
    using assms(1) that by (auto simp: gauge_inv_def card_gt_0_iff)
  ultimately show ?thesis
    using assms(1) RevokeRecords by (auto simp: gauge_inv_def card_Diff_singleton_if domIff)
next
  case (ExpiryTries ex)
  with assms have "expiryTries ex sys = Some sys'" by simp
  from expiryTries_simps [OF this] assms(1) ExpiryTries show ?thesis by (simp add: gauge_inv_def)
next
  case (KeepAlives now lid)
  then show ?thesis using assms gauge_same [OF assms(1), of sys'] Keepalive_dom [of now lid] by auto
qed (use assms in \<open>auto intro!: gauge_same [OF assms(1)] simp: grantApplies_def Let_def expiryFires_def
    expiryStops_def timerStops_def loadScans_def lease_close_def split: prod.splits sum.splits if_splits option.splits\<close>)

text \<open>
  C38: However the calls of \<open>Grant\<close> and \<open>Revoke\<close>, the expiry goroutines and the reload interleave, the
  gauge \<open>ActiveLeases\<close> is the number of leases in memory plus the number of times a \<open>Grant\<close> found its
  own lease in the map already, put there by a reload that ran between its record and its entry: it
  is exact when no such reload happened, and never too small.
\<close>

theorem active_leases_exact:
  assumes "lreach sys h"
  shows "ly_gauge sys = int (card (dom (lm_leases (ly_lm sys)))) + int (lh_again h)"
proof -
  have "gauge_inv sys h"
    using assms
  proof (induction rule: lreach.induct)
    case (lreach_start now w)
    then show ?case by (simp add: gauge_inv_def init_leases_def newLeaseManager_def)
  next
    case (lreach_step sys h st sys')
    then show ?case using lexec_gauge by blast
  qed
  then show ?thesis by (simp add: gauge_inv_def)
qed

theorem active_leases_exact_witness:
  "card (dom (lm_leases (ly_lm (fst race_end)))) = 2 \<and> ly_gauge (fst race_end) = 3"
  using active_leases_exact [OF race_reached] race_values(1,2) by simp

section \<open>Every lease has its expiry goroutine\<close>

definition handled :: "lease_sys \<Rightarrow> lease_hist \<Rightarrow> int set" where
  "handled sys h = fst ` set (lm_timers (ly_lm sys)) \<union> fst ` set (ly_expiring sys) \<union> set (ly_revoking sys) \<union> lh_stuck h"

definition watched :: "lease_sys \<Rightarrow> lease_hist \<Rightarrow> bool" where
  "watched sys h \<longleftrightarrow>
     (\<forall>lid lease. lm_leases (ly_lm sys) lid = Some lease \<longrightarrow>
        L_ID lease = lid \<and> (\<not> lease_stopping sys \<longrightarrow> lid \<in> handled sys h))"

lemma watchedI:
  assumes "watched sys h" "lease_stopping sys \<Longrightarrow> lease_stopping sys'"
    and "\<And>lid lease. lm_leases (ly_lm sys') lid = Some lease \<Longrightarrow>
      (\<exists>lease0. lm_leases (ly_lm sys) lid = Some lease0 \<and> L_ID lease = L_ID lease0) \<and>
      (\<not> lease_stopping sys' \<longrightarrow> lid \<in> handled sys h \<longrightarrow> lid \<in> handled sys' h') \<or> L_ID lease = lid \<and> lid \<in> handled sys' h'"
  shows "watched sys' h'"
  using assms unfolding watched_def by metis

lemma watched_same:
  assumes "watched sys h" "lease_stopping sys \<Longrightarrow> lease_stopping sys'" "lm_leases (ly_lm sys') = lm_leases (ly_lm sys)"
    and "\<And>lid. lm_leases (ly_lm sys) lid \<noteq> None \<Longrightarrow> \<not> lease_stopping sys' \<Longrightarrow> lid \<in> handled sys h \<Longrightarrow> lid \<in> handled sys' h'"
  shows "watched sys' h'"
  by (rule watchedI [OF assms(1,2)]) (use assms(3,4) in auto)

lemma fst_remove1: "fst ` set xs \<subseteq> insert (fst x) (fst ` set (remove1 x xs))"
proof
  fix a
  assume "a \<in> fst ` set xs"
  then obtain y where "y \<in> set xs" "a = fst y" by blast
  then show "a \<in> insert (fst x) (fst ` set (remove1 x xs))" by (cases "y = x") (auto simp: in_set_remove1)
qed

lemma moved_along:
  assumes "E \<subseteq> insert a E'" "R \<subseteq> R'" "S \<subseteq> S'" "a \<in> E' \<union> R' \<union> S'"
  shows "T \<union> E \<union> R \<union> S \<subseteq> T \<union> E' \<union> R' \<union> S'"
  using assms by blast

lemma put_lease_watched:
  assumes "watched sys h" "ly_lm sys1 = ly_lm sys" "lease_stopping sys1 = lease_stopping sys" "ly_expiring sys1 = ly_expiring sys"
    "ly_revoking sys1 = ly_revoking sys" "lh_stuck h' = lh_stuck h"
  shows "watched (put_lease lease sys1) h'"
  by (rule watchedI [OF assms(1)])
    (use assms(2-) in \<open>auto simp: put_lease_def handled_def split: if_splits\<close>)

lemma expiryFires_watched:
  assumes "watched sys h" "expiryFires now tm sys = Some sys'"
  shows "watched sys' h"
proof -
  let ?lm = "(ly_lm sys)\<lparr>lm_timers := remove1 tm (lm_timers (ly_lm sys))\<rparr>"
  consider "lm_leases (ly_lm sys) (fst tm) = None" "sys' = sys\<lparr>ly_lm := ?lm\<rparr>"
    | cur where "lm_leases (ly_lm sys) (fst tm) = Some cur" "sys' = sys\<lparr>ly_lm := scheduleExpiry cur ?lm\<rparr>"
    | "sys' = sys\<lparr>ly_lm := ?lm, ly_expiring := ly_expiring sys @ [(fst tm, 1)]\<rparr>"
    using assms(2) by (auto simp: expiryFires_def Let_def split: if_splits option.splits)
  then show ?thesis
  proof cases
    case 1
    show ?thesis
      by (rule watched_same [OF assms(1)]) (use 1 fst_remove1 [of "lm_timers (ly_lm sys)" tm] in \<open>force simp: handled_def\<close>)+
  next
    case (2 cur)
    have "L_ID cur = fst tm" using assms(1) 2(1) by (simp add: watched_def)
    with 2 show ?thesis
      by (intro watched_same [OF assms(1)]) (use fst_remove1 [of "lm_timers (ly_lm sys)" tm] in \<open>auto simp: handled_def\<close>)
  next
    case 3
    show ?thesis
      by (rule watched_same [OF assms(1)]) (use 3 fst_remove1 [of "lm_timers (ly_lm sys)" tm] in \<open>auto simp: handled_def\<close>)
  qed
qed

lemma lexec_watched:
  assumes "watched sys h" "lexec st sys = Some sys'"
  shows "watched sys' (lnote st sys h)"
proof (cases st)
  case (GrantRecords lease)
  with assms show ?thesis
    using put_lease_watched [OF assms(1), of "sys\<lparr>ly_granting := remove1 lease (ly_granting sys)\<rparr>"]
    by (auto simp: grantRecords_def split: if_splits)
next
  case LoadRow
  then obtain r rs where "ly_loading sys = r # rs" and
    "sys' = put_lease (newLease (l_lease_id r) (l_ttl_sec r) (l_granted_at r)) (sys\<lparr>ly_loading := rs\<rparr>) \<or>
     sys' = sys\<lparr>ly_loading := rs\<rparr>"
    using assms(2) by (auto simp: loadRow_def Let_def split: list.splits if_splits)
  then show ?thesis
    using put_lease_watched [OF assms(1), of "sys\<lparr>ly_loading := rs\<rparr>" h] watched_same [OF assms(1), of "sys\<lparr>ly_loading := rs\<rparr>" h]
    by (auto simp: LoadRow handled_def)
next
  case (RevokeRecords lid)
  then have "lm_leases (ly_lm sys') = (lm_leases (ly_lm sys))(lid := None)" "ly_revoking sys' = remove1 lid (ly_revoking sys)"
    "lm_timers (ly_lm sys') = lm_timers (ly_lm sys)" "ly_expiring sys' = ly_expiring sys" "lease_stopping sys' = lease_stopping sys"
    using assms(2) by (auto simp: revokeRecords_def split: if_splits)
  then show ?thesis
    by (intro watchedI [OF assms(1)]) (auto simp: RevokeRecords handled_def in_set_remove1 split: if_splits)
next
  case (ExpiryTries ex)
  with assms have "expiryTries ex sys = Some sys'" by simp
  note e = expiryTries_simps [OF this]
  have 1: "lh_stuck h \<subseteq> lh_stuck (lnote (ExpiryTries ex) sys h)" by auto
  have 2: "fst ` set (ly_expiring sys) \<subseteq> insert (fst ex) (fst ` set (ly_expiring sys'))"
    using fst_remove1 [of "ly_expiring sys" ex] image_mono [OF e(6), of fst] by (meson insert_mono subset_trans)
  have "handled sys h \<subseteq> handled sys' (lnote (ExpiryTries ex) sys h)"
    unfolding handled_def e(2) by (rule moved_along [OF 2 e(5) 1 e(7)])
  then show ?thesis using e(2,4) ExpiryTries by (intro watched_same [OF assms(1)]) auto
next
  case (ExpiryFires now tm)
  then show ?thesis using expiryFires_watched [OF assms(1)] assms(2) by simp
next
  case (KeepAlives now lid)
  then have "sys' = sys\<lparr>ly_lm := snd (Lease_Keepalive now lid (ly_lm sys))\<rparr>" using assms(2) by simp
  then show ?thesis
    by (intro watchedI [OF assms(1)]) (auto simp: KeepAlives handled_def Lease_Keepalive_def split: option.splits if_splits)
qed (use assms in \<open>auto intro!: watched_same [OF assms(1)] simp: handled_def grantApplies_def Let_def
    expiryStops_def timerStops_def loadScans_def lease_close_def split: prod.splits sum.splits if_splits option.splits\<close>)

text \<open>
  C12: However the calls and goroutines interleave, and whichever calls to Spanner fail, until the
  manager is stopped every lease in memory is taken care of: an expiry goroutine waits for its timer,
  or one is revoking it, or a \<open>Revoke\<close> is about to remove it; or five attempts to revoke it failed.
\<close>

theorem lease_watched:
  assumes "lreach sys h" "lm_leases (ly_lm sys) lid = Some lease" "\<not> lease_stopping sys"
  shows "lid \<in> fst ` set (lm_timers (ly_lm sys)) \<or> lid \<in> fst ` set (ly_expiring sys) \<or>
    lid \<in> set (ly_revoking sys) \<or> lid \<in> lh_stuck h"
proof -
  have "watched sys h"
    using assms(1)
  proof (induction rule: lreach.induct)
    case (lreach_start now w)
    then show ?case by (simp add: watched_def init_leases_def newLeaseManager_def)
  next
    case (lreach_step sys h st sys')
    then show ?case using lexec_watched by blast
  qed
  with assms(2,3) show ?thesis by (simp add: watched_def handled_def)
qed

theorem lease_watched_witness:
  "lm_leases (ly_lm (fst race_end)) 1001 \<noteq> None \<and> \<not> lease_stopping (fst race_end) \<and>
    (1001 \<in> fst ` set (lm_timers (ly_lm (fst race_end))) \<or> 1001 \<in> fst ` set (ly_expiring (fst race_end)) \<or>
     1001 \<in> set (ly_revoking (fst race_end)) \<or> 1001 \<in> lh_stuck (snd race_end))"
  using lease_watched [OF race_reached race_values(4,5)] race_values(4,5) by blast

end
