(* ===== verification/Metrics.thy ===== *)
theory Metrics
  imports Store_Txn Compaction Services Feeds Lease_Steps
begin

text \<open>
  \<open>pkg/metrics/metrics.go\<close>: the collectors, and what the operations of the other packages record in
  them.  The client library is not part of the repository; what its documentation requires of a
  caller is the predicate \<open>accepted\<close>.
\<close>

section \<open>Collectors\<close>

datatype collector =
    RPCDuration
  | KVOperationsTotal | CurrentRevision
  | ActiveWatches | WatchEventsTotal | WatchSubscriberDropsTotal
  | CSMode | CSActivePartitions | CSPartitionRestarts
  | ActiveLeases | LeaseExpirations
  | CompactedRowsTotal | CompactionDuration
  | SpannerTransactions

text \<open>A histogram has the first bound of its buckets in milliseconds, their factor and their number.\<close>

datatype metric_kind = Counter | Gauge | Histogram nat nat nat

record metric_opts =
  mo_Namespace :: string
  mo_Name :: string
  mo_kind :: metric_kind
  mo_labels :: "string list"

definition metric :: "string \<Rightarrow> metric_kind \<Rightarrow> string list \<Rightarrow> metric_opts" where
  "metric name kind labels = \<lparr>mo_Namespace = ''spanner_etcd'', mo_Name = name, mo_kind = kind, mo_labels = labels\<rparr>"

fun metricOpts :: "collector \<Rightarrow> metric_opts" where
  "metricOpts RPCDuration = metric ''rpc_duration_seconds'' (Histogram 1 2 14) [''method'', ''status'']"
| "metricOpts KVOperationsTotal = metric ''kv_operations_total'' Counter [''operation'', ''status'']"
| "metricOpts CurrentRevision = metric ''current_revision'' Gauge []"
| "metricOpts ActiveWatches = metric ''active_watches'' Gauge []"
| "metricOpts WatchEventsTotal = metric ''watch_events_total'' Counter [''source'']"
| "metricOpts WatchSubscriberDropsTotal = metric ''watch_subscriber_drops_total'' Counter []"
| "metricOpts CSMode = metric ''change_stream_active'' Gauge []"
| "metricOpts CSActivePartitions = metric ''change_stream_partitions_active'' Gauge []"
| "metricOpts CSPartitionRestarts = metric ''change_stream_partition_restarts_total'' Counter []"
| "metricOpts ActiveLeases = metric ''active_leases'' Gauge []"
| "metricOpts LeaseExpirations = metric ''lease_expirations_total'' Counter []"
| "metricOpts CompactedRowsTotal = metric ''compacted_rows_total'' Counter [''trigger'']"
| "metricOpts CompactionDuration = metric ''compaction_duration_seconds'' (Histogram 100 2 11) [''trigger'']"
| "metricOpts SpannerTransactions = metric ''spanner_transactions_total'' Counter [''status'']"

definition collectors :: "collector list" where
  "collectors = [RPCDuration, KVOperationsTotal, CurrentRevision, ActiveWatches, WatchEventsTotal,
     WatchSubscriberDropsTotal, CSMode, CSActivePartitions, CSPartitionRestarts, ActiveLeases, LeaseExpirations,
     CompactedRowsTotal, CompactionDuration, SpannerTransactions]"

section \<open>Observations\<close>

datatype observation =
    Inc collector "string list"
  | Dec collector
  | Add collector "string list" int
  | SetTo collector int
  | Observe collector "string list"

definition statusLabel :: "bool \<Rightarrow> string" where
  "statusLabel ok = (if ok then ''ok'' else ''error'')"

definition txnCounters :: "string \<Rightarrow> bool \<Rightarrow> observation list" where
  "txnCounters op ok = [Inc KVOperationsTotal [op, statusLabel ok], Inc SpannerTransactions [statusLabel ok]]"

text \<open>
  The writes of the store, from their results: \<open>Update\<close> and \<open>Delete\<close> count a failed guard as an error
  although they report none.
\<close>

definition createMetrics :: "int \<times> goerr option \<times> world \<Rightarrow> observation list" where
  "createMetrics = (\<lambda>(rv, err, w).
     txnCounters ''create'' (err = None) @ (if err = None then [SetTo CurrentRevision rv] else []))"

definition guardedMetrics :: "string \<Rightarrow> int \<times> KV option \<times> bool \<times> goerr option \<times> world \<Rightarrow> observation list" where
  "guardedMetrics op = (\<lambda>(rv, prev, ok, err, w). txnCounters op ok @ (if ok then [SetTo CurrentRevision rv] else []))"

definition txnMetrics :: "TxnCompare list \<Rightarrow> TxnOp list \<Rightarrow> TxnOp list \<Rightarrow> world \<Rightarrow> observation list" where
  "txnMetrics compares successOps failureOps w =
     (case validateCompares compares of
        Some e \<Rightarrow> []
      | None \<Rightarrow>
          (case read_write (atomicTxn compares successOps failureOps) initVars w of
             (Inl e, _) \<Rightarrow> txnCounters ''txn'' False
           | (Inr commitTS, v, _) \<Rightarrow>
               txnCounters ''txn'' True @
               (if v_hasMutations v \<and> tsToRev commitTS > 0 then [SetTo CurrentRevision (tsToRev commitTS)] else [])))"

definition compactMetrics :: "string \<Rightarrow> nat \<Rightarrow> observation list" where
  "compactMetrics trigger tot = [Add CompactedRowsTotal [trigger] (int tot), Observe CompactionDuration [trigger]]"

definition rpcMetrics :: "string \<Rightarrow> goerr option \<Rightarrow> observation list" where
  "rpcMetrics full err = [Observe RPCDuration [shortMethod full, statusLabel (err = None)]]"

definition pollMetrics :: "Event list \<Rightarrow> observation list" where
  "pollMetrics events = (if events = [] then [] else [Add WatchEventsTotal [''poll''] (int (length events))])"

definition csMetrics :: "Event list \<Rightarrow> observation list" where
  "csMetrics events = [Add WatchEventsTotal [''change_stream''] (int (length events))]"

text \<open>A subscriber whose channel is full is dropped.\<close>

definition dispatchMetrics :: "Event list \<Rightarrow> subscriber \<Rightarrow> observation list" where
  "dispatchMetrics events sub =
     (let batch = matching sub events
      in if batch \<noteq> [] \<and> \<not> sub_closed sub \<and> trySend batch sub = None then [Inc WatchSubscriberDropsTotal []] else [])"

fun modeMetrics :: "cs_event \<Rightarrow> observation list" where
  "modeMetrics HealthyTimer = [SetTo CSMode 1]"
| "modeMetrics StartFailed = [SetTo CSMode 0]"

text \<open>An attempt to read a partition that ended with a failure is followed by another one.\<close>

definition restartMetrics :: "bool \<Rightarrow> goerr option \<Rightarrow> observation list" where
  "restartMetrics finished err =
     (case err of
        None \<Rightarrow> []
      | Some e \<Rightarrow>
          if finished \<or> errors_Is e ContextCanceled \<or> errors_Is e ContextDeadlineExceeded then []
          else [Inc CSPartitionRestarts []])"

text \<open>What the interleaved goroutines record: subscriptions, partitions, leases.\<close>

fun watchMetrics :: "wstep \<Rightarrow> wsys \<Rightarrow> observation list" where
  "watchMetrics (Subscribe p afterRev) sys = [Inc ActiveWatches []]"
| "watchMetrics (SubStep s) sys = (if ws_pc sys s = AtRemove then [Dec ActiveWatches] else [])"
| "watchMetrics _ sys = []"

fun readerMetrics :: "reader_step \<Rightarrow> ChangeStreamReader \<Rightarrow> observation list" where
  "readerMetrics RdTakes cr =
     (case cr_pending cr of
        p # _ \<Rightarrow> if ps_token p \<in> set (rd_active (cr_reader cr)) then [] else [Inc CSActivePartitions []]
      | [] \<Rightarrow> [])"
| "readerMetrics (WorkerEnds tok) cr = [Dec CSActivePartitions]"
| "readerMetrics _ cr = []"

fun leaseMetrics :: "lease_step \<Rightarrow> lease_sys \<Rightarrow> observation list" where
  "leaseMetrics (GrantRecords lease) sys = [Inc ActiveLeases []]"
| "leaseMetrics (RevokeRecords lid) sys = (if lm_leases (ly_lm sys) lid = None then [] else [Dec ActiveLeases])"
| "leaseMetrics (ExpiryFires now tm) sys =
     (case lm_leases (ly_lm sys) (fst tm) of
        None \<Rightarrow> []
      | Some cur \<Rightarrow> if time_Until now (L_ExpiresAt cur) > nanos then [] else [Inc LeaseExpirations []])"
| "leaseMetrics LoadRow sys =
     (case ly_loading sys of
        [] \<Rightarrow> []
      | r # _ \<Rightarrow> if lm_leases (ly_lm sys) (l_lease_id r) = None then [Inc ActiveLeases []] else [])"
| "leaseMetrics _ sys = []"

section \<open>No observation is refused\<close>

text \<open>
  Registering two collectors under one name panics, and so do a wrong number of label values and a
  negative addition to a counter.
\<close>

lemma names_distinct: "distinct (map (mo_Name \<circ> metricOpts) collectors)"
  by (simp add: collectors_def metric_def)

lemma collectors_all: "set collectors = UNIV"
proof -
  have "c \<in> set collectors" for c by (cases c) (simp_all add: collectors_def)
  then show ?thesis by blast
qed

fun accepted :: "observation \<Rightarrow> bool" where
  "accepted (Inc c ls) \<longleftrightarrow> length ls = length (mo_labels (metricOpts c)) \<and> mo_kind (metricOpts c) \<in> {Counter, Gauge}"
| "accepted (Dec c) \<longleftrightarrow> mo_labels (metricOpts c) = [] \<and> mo_kind (metricOpts c) = Gauge"
| "accepted (Add c ls n) \<longleftrightarrow> length ls = length (mo_labels (metricOpts c)) \<and> mo_kind (metricOpts c) = Counter \<and> 0 \<le> n"
| "accepted (SetTo c n) \<longleftrightarrow> mo_labels (metricOpts c) = [] \<and> mo_kind (metricOpts c) = Gauge"
| "accepted (Observe c ls) \<longleftrightarrow>
     length ls = length (mo_labels (metricOpts c)) \<and> mo_kind (metricOpts c) \<notin> {Counter, Gauge}"

lemma store_accepted:
  "list_all accepted (createMetrics res)" "list_all accepted (guardedMetrics op res')"
  "list_all accepted (txnMetrics compares successOps failureOps w)" "list_all accepted (compactMetrics trigger tot)"
  by (auto simp: createMetrics_def guardedMetrics_def txnMetrics_def compactMetrics_def txnCounters_def metric_def
      split: option.splits sum.splits prod.splits)

lemma watch_accepted:
  "list_all accepted (rpcMetrics full err)" "list_all accepted (pollMetrics events)" "list_all accepted (csMetrics events)"
  "list_all accepted (dispatchMetrics events sub)" "list_all accepted (restartMetrics fin err)"
  "list_all accepted (modeMetrics ev)"
  by (simp_all add: restartMetrics_def rpcMetrics_def pollMetrics_def csMetrics_def dispatchMetrics_def Let_def metric_def split: option.split)
    (cases ev; simp add: metric_def)

lemma steps_accepted:
  "list_all accepted (watchMetrics wst sys)" "list_all accepted (readerMetrics rst cr)" "list_all accepted (leaseMetrics lst lsys)"
proof -
  show "list_all accepted (watchMetrics wst sys)" by (cases wst) (simp_all add: metric_def)
  show "list_all accepted (readerMetrics rst cr)" by (cases rst) (simp_all add: metric_def split: list.split)
  show "list_all accepted (leaseMetrics lst lsys)" by (cases lst) (simp_all add: metric_def split: list.split option.split)
qed

section \<open>Gauges that count\<close>

fun gaugeStep :: "collector \<Rightarrow> observation \<Rightarrow> int \<Rightarrow> int" where
  "gaugeStep c (Inc d ls) v = (if d = c then v + 1 else v)"
| "gaugeStep c (Dec d) v = (if d = c then v - 1 else v)"
| "gaugeStep c (Add d ls n) v = (if d = c then v + n else v)"
| "gaugeStep c (SetTo d n) v = (if d = c then n else v)"
| "gaugeStep c (Observe d ls) v = v"

text \<open>A run of a step function with the value of a gauge beside it.\<close>

fun metered :: "('st \<Rightarrow> 's \<Rightarrow> 's option) \<Rightarrow> ('st \<Rightarrow> 's \<Rightarrow> observation list) \<Rightarrow> collector \<Rightarrow> 'st list
    \<Rightarrow> 's \<Rightarrow> int \<Rightarrow> ('s \<times> int) option" where
  "metered exec obs c [] s v = Some (s, v)"
| "metered exec obs c (st # sts) s v =
     (case exec st s of None \<Rightarrow> None | Some s' \<Rightarrow> metered exec obs c sts s' (fold (gaugeStep c) (obs st s) v))"

locale counting_gauge =
  fixes exec :: "'st \<Rightarrow> 's \<Rightarrow> 's option"
    and obs :: "'st \<Rightarrow> 's \<Rightarrow> observation list"
    and c :: collector
    and good :: "'s \<Rightarrow> bool"
    and count :: "'s \<Rightarrow> int"
  assumes good_step: "good s \<Longrightarrow> exec st s = Some s' \<Longrightarrow> good s'"
    and count_step: "good s \<Longrightarrow> exec st s = Some s' \<Longrightarrow> fold (gaugeStep c) (obs st s) (count s) = count s'"
begin

lemma gauge_counts: "good s \<Longrightarrow> metered exec obs c sts s (count s) = Some (s', v) \<Longrightarrow> v = count s'"
  by (induction sts arbitrary: s) (auto simp: count_step split: option.splits intro: good_step)

end

lemma length_without: "distinct xs \<Longrightarrow> x \<in> set xs \<Longrightarrow> int (length (filter (\<lambda>y. y \<noteq> x) xs)) = int (length xs) - 1"
proof (induction xs)
  case (Cons y xs)
  then show ?case by (cases "y = x") (auto intro!: arg_cong [where f = length] filter_True)
qed simp

text \<open>The subscriptions.\<close>

lemma subStep_subscribers:
  assumes "wreach sys h" "s < wt_next (ws_wt sys)" "subStep s sys = Some sys'"
  shows "int (length (wt_subscribers (ws_wt sys'))) =
    fold (gaugeStep ActiveWatches) (watchMetrics (SubStep s) sys) (int (length (wt_subscribers (ws_wt sys))))"
proof -
  note i = winvD [OF wreach_winv [OF assms(1)]]
  show ?thesis
  proof (cases "ws_pc sys s = AtRemove")
    case True
    then have "s \<in> set (wt_subscribers (ws_wt sys))" using i(3) [OF assms(2)] by (simp add: sub_inv_def Let_def)
    from length_without [OF i(1) this] show ?thesis
      using True assms(3) by (auto simp: subStep_def Let_def removeSub_def upd_sub_def goto_def)
  next
    case False
    then have "wt_subscribers (ws_wt sys') = wt_subscribers (ws_wt sys)"
      using assms(3) by (auto simp: subStep_def Let_def goto_def set_sub_def split: sub_pc.splits if_splits prod.splits sum.splits list.splits)
    with False show ?thesis by simp
  qed
qed

interpretation watches: counting_gauge wexec watchMetrics ActiveWatches "\<lambda>sys. \<exists>h. wreach sys h"
  "\<lambda>sys. int (length (wt_subscribers (ws_wt sys)))"
proof
  fix sys st sys'
  assume "\<exists>h. wreach sys h" and st: "wexec st sys = Some sys'"
  then obtain h where h: "wreach sys h" by blast
  then show "\<exists>h. wreach sys' h" using step [OF h st] by blast
  show "fold (gaugeStep ActiveWatches) (watchMetrics st sys) (int (length (wt_subscribers (ws_wt sys)))) =
      int (length (wt_subscribers (ws_wt sys')))"
  proof (cases st)
    case (SubStep s)
    then show ?thesis using subStep_subscribers [OF h, of s sys'] st by (simp split: if_splits)
  qed (use st in \<open>auto simp: doSubscribe_simps subGiveUp_def dispStep_def doDispatch_def goto_def set_sub_def Let_def
      split: if_splits sub_pc.splits list.splits option.splits\<close>)
qed

text \<open>The partitions.\<close>

interpretation partitions: counting_gauge rexec readerMetrics CSActivePartitions "\<lambda>cr. \<exists>ps. rreach ps cr"
  "\<lambda>cr. int (length (rd_active (cr_reader cr)))"
proof
  fix cr st cr'
  assume "\<exists>ps. rreach ps cr" and st: "rexec st cr = Some cr'"
  then obtain ps where ps: "rreach ps cr" by blast
  then show "\<exists>ps. rreach ps cr'" using rreach_step [OF ps st] by blast
  note d = reader_invD(1) [OF rreach_inv [OF ps]]
  show "fold (gaugeStep CSActivePartitions) (readerMetrics st cr) (int (length (rd_active (cr_reader cr)))) =
      int (length (rd_active (cr_reader cr')))"
  proof (cases st)
    case (WorkerEnds tok)
    then have "tok \<in> set (rd_active (cr_reader cr))" "rd_active (cr_reader cr') = filter (\<lambda>t. t \<noteq> tok) (rd_active (cr_reader cr))"
      using st by (auto simp: workerEnds_def removeAll_filter_not_eq eq_commute split: if_splits)
    then show ?thesis using WorkerEnds length_without [OF d, of tok] by simp
  qed (use st in \<open>auto simp: readerFeeds_def queuePartition_def readerFeedEnds_def readerTakes_def readerStops_def
      readerReturns_def workerQueues_def reader_Stop_def split: if_splits list.splits reader_phase.splits\<close>)
qed

text \<open>The leases.\<close>

interpretation leases: counting_gauge lexec leaseMetrics ActiveLeases "\<lambda>_. True" ly_gauge
proof
  fix sys st sys'
  assume st: "lexec st sys = Some sys'"
  show "fold (gaugeStep ActiveLeases) (leaseMetrics st sys) (ly_gauge sys) = ly_gauge sys'"
  proof (cases st)
    case (ExpiryTries ex)
    then show ?thesis using st expiryTries_simps(3) by simp
  qed (use st in \<open>auto simp: grantApplies_def grantRecords_def revokeRecords_def expiryFires_def expiryStops_def
      timerStops_def loadScans_def loadRow_def lease_close_def put_lease_def Let_def
      split: if_splits prod.splits sum.splits option.splits list.splits\<close>)
qed simp

lemma lease_gauge_recorded:
  "metered lexec leaseMetrics ActiveLeases sts (init_leases now w) 0 = Some (sys, v) \<Longrightarrow> v = ly_gauge sys"
  using leases.gauge_counts [of sts "init_leases now w"] by (simp add: init_leases_def)

definition demo_watching :: "wstep list" where
  "demo_watching = [Subscribe ''a'' 0, Subscribe ''b'' 0, SubStep 0, CtxCancel 0, SubStep 0, SubStep 0, SubStep 0]"

definition demo_parts :: "partitionState list" where
  "demo_parts = map (\<lambda>t. \<lparr>ps_token = t, ps_start = 0, ps_resume = 0\<rparr>) [''p'', ''q'', ''p'']"

definition demo_reading :: "reader_step list" where
  "demo_reading = [RdFeeds, RdFeeds, RdFeeds, RdTakes, RdTakes, RdTakes, WorkerEnds ''p'']"

lemma demo_watching_runs:
  "map_option snd (metered wexec watchMetrics ActiveWatches demo_watching (init_wsys (demo_world demo_db)) 0) = Some 1"
  by code_simp

lemma demo_reading_runs:
  "map_option snd (metered rexec readerMetrics CSActivePartitions demo_reading
     (the (readerSetup (Inr demo_parts) NewChangeStreamReader)) 0) = Some 1"
  by code_simp

text \<open>
  C39: The gauges count what they say: after any run of the goroutines of the watcher, \<open>ActiveWatches\<close>
  is the number of registered subscriptions; after any run of the change stream reader,
  \<open>CSActivePartitions\<close> is the number of partitions with a worker.
\<close>

theorem gauges_exact:
  assumes "metered wexec watchMetrics ActiveWatches wsts (init_wsys w) 0 = Some (sys, watches)"
    and "readerSetup (Inr ps) NewChangeStreamReader = Some cr0"
      "metered rexec readerMetrics CSActivePartitions rsts cr0 0 = Some (cr, partitions)"
  shows "watches = int (length (wt_subscribers (ws_wt sys))) \<and> partitions = int (length (rd_active (cr_reader cr)))"
proof
  have "int (length (wt_subscribers (ws_wt (init_wsys w)))) = 0" by (simp add: init_wsys_def newWatcher_def)
  then show "watches = int (length (wt_subscribers (ws_wt sys)))"
    using watches.gauge_counts [of "init_wsys w" wsts sys watches] assms(1) wreach.start [of w] by auto
  have "int (length (rd_active (cr_reader cr0))) = 0"
    using assms(2) by (auto simp: readerSetup_def NewChangeStreamReader_def split: if_splits)
  then show "partitions = int (length (rd_active (cr_reader cr)))"
    using partitions.gauge_counts [of cr0 rsts cr partitions] assms(3) rreach_start [OF assms(2)] by auto
qed

theorem gauges_exact_witness:
  "length (wt_subscribers (ws_wt (fst (the
     (metered wexec watchMetrics ActiveWatches demo_watching (init_wsys (demo_world demo_db)) 0))))) = 1 \<and>
   length (rd_active (cr_reader (fst (the (metered rexec readerMetrics CSActivePartitions demo_reading
     (the (readerSetup (Inr demo_parts) NewChangeStreamReader)) 0))))) = 1"
proof -
  have "readerSetup (Inr demo_parts) NewChangeStreamReader = Some (the (readerSetup (Inr demo_parts) NewChangeStreamReader))"
    by (simp add: readerSetup_def NewChangeStreamReader_def)
  from gauges_exact [OF _ this] show ?thesis
    using demo_watching_runs demo_reading_runs by fastforce
qed

end
