(* ===== verification/Schema.thy ===== *)
theory Schema
  imports Store_Reads
begin

text \<open>
  \<open>pkg/schema/schema.go\<close>: the setup of the database at the start of a server.  The DDL itself is
  the record \<^typ>\<open>database\<close>; what the admin API answers is a parameter.
\<close>

definition isPermissionDenied :: "goerr \<Rightarrow> bool" where
  "isPermissionDenied e \<longleftrightarrow> ErrCode e = Some PermissionDenied"

text \<open>The errors of the request and of the wait for the operation.\<close>

definition Ensure :: "goerr option \<Rightarrow> goerr option \<Rightarrow> goerr option" where
  "Ensure update_err wait_err =
     (case update_err of
        Some e \<Rightarrow> if isPermissionDenied e then None else Some (Wrapped ''update DDL'' e)
      | None \<Rightarrow>
          (case wait_err of
             Some e \<Rightarrow> if isPermissionDenied e then None else Some (Wrapped ''wait DDL'' e)
           | None \<Rightarrow> None))"

definition seedTxn :: "unit \<Rightarrow> txn \<Rightarrow> (goerr + mutation list) \<times> unit" where
  "seedTxn u t =
     (case txn_read t QCompactRev (\<lambda>db. kv_rev db CompactRevRow) of
        Inl e \<Rightarrow>
          if ErrCode e \<noteq> Some NotFound then (Inl e, ())
          else (Inr [InsertKvRev CompactRevRow 1], ())
      | Inr None \<Rightarrow> (Inr [InsertKvRev CompactRevRow 1], ())
      | Inr (Some t) \<Rightarrow> (Inr [], ()))"

definition SeedCompactRev :: "world \<Rightarrow> goerr option \<times> world" where
  "SeedCompactRev w =
     (case read_write seedTxn () w of (Inl e, _, w1) \<Rightarrow> (Some e, w1) | (Inr _, _, w1) \<Rightarrow> (None, w1))"

definition SeedRevCounter :: "world \<Rightarrow> goerr option \<times> world" where
  "SeedRevCounter w = SeedCompactRev w"

section \<open>Seeding\<close>

lemma seedTxn_unit: "seedTxn u t = seedTxn () t"
  by simp

text \<open>
  Seeding never touches a compaction revision that is there, nor any other table; when it
  reports success there is one.
\<close>

lemma SeedCompactRev_effect:
  assumes "SeedCompactRev w = (err, w')"
  shows "w_db w' = at_call w \<or>
      kv_rev (at_call w) CompactRevRow = None \<and>
      w_db w' = (at_call w)\<lparr>kv_rev := (kv_rev (at_call w))(CompactRevRow \<mapsto> 1)\<rparr>"
    and "err = None \<Longrightarrow> kv_rev (w_db w') CompactRevRow \<noteq> None"
  using assms
  by (auto simp: SeedCompactRev_def read_write_eq seedTxn_def txn_read_def commit_def Let_def dom_def
      split: option.splits sum.splits if_splits commit_fate.splits prod.splits)

text \<open>Seeding does not change what readers see: a missing row already counts as revision 1.\<close>

lemma SeedCompactRev_compact_rev:
  assumes "SeedCompactRev w = (err, w')"
  shows "compact_rev (w_db w') = compact_rev (at_call w)" "abs_store (w_db w') = abs_store (at_call w)"
  using SeedCompactRev_effect(1) [OF assms]
  by (auto simp: compact_rev_def abs_store_def current_def select_latest_def fun_eq_iff)

end
