(* ===== verification/Safety.thy ===== *)
theory Safety
  imports Services ChangeStream Schema
begin

text \<open>
  Every operation of the server keeps the tables well-formed.  \<open>safe w w'\<close> says so of a piece of
  the program that leads from \<open>w\<close> to \<open>w'\<close> by any number of calls to Spanner, whichever of them
  fail, are aborted, or lose their answer, and whatever other clients commit between them.  It
  is reflexive and transitive, so the operations inherit it from the calls they are made of.
\<close>

named_theorems safe_calls \<open>the operations that keep the tables well-formed\<close>

section \<open>What Spanner and the other clients promise\<close>

text \<open>
  A database in which the calls from \<open>i\<close> to \<open>N\<close> find room: it is well-formed, its rows are older
  than the timestamps these calls get, and do not use the ids the sequence gives to them.
\<close>

definition room :: "nat \<Rightarrow> (nat \<Rightarrow> call_env) \<Rightarrow> nat \<Rightarrow> database \<Rightarrow> bool" where
  "room N env i db \<longleftrightarrow> wf_db db \<and>
     (\<forall>r \<in> set (kv db). \<forall>j. i \<le> j \<and> j < N \<longrightarrow> r_rev r < ce_ts (env j) \<and> r_id r \<notin> range (ce_id (env j)))"

text \<open>
  Commit timestamps increase from call to call, ids are given out once, and the commits of the
  other clients, which run the same program, keep the tables well-formed with older timestamps
  and other ids.
\<close>

definition sound :: "nat \<Rightarrow> (nat \<Rightarrow> call_env) \<Rightarrow> bool" where
  "sound N env \<longleftrightarrow>
     (\<forall>i < N. 1 < ce_ts (env i) \<and> ce_ts (env i) < 2 ^ 63 \<and> inj (ce_id (env i)) \<and>
        (\<forall>db. room N env i db \<longrightarrow> room N env i (ce_other (env i) db))) \<and>
     (\<forall>i j. i < j \<and> j < N \<longrightarrow> ce_ts (env i) < ce_ts (env j) \<and> range (ce_id (env i)) \<inter> range (ce_id (env j)) = {})"

definition safe :: "world \<Rightarrow> world \<Rightarrow> bool" where
  "safe w w' \<longleftrightarrow> w_env w' = w_env w \<and> w_pos w \<le> w_pos w' \<and>
     (\<forall>N. sound N (w_env w) \<and> w_pos w' \<le> N \<and> room N (w_env w) (w_pos w) (w_db w)
        \<longrightarrow> room N (w_env w) (w_pos w') (w_db w'))"

lemma safe_refl [simp, intro]: "safe w w"
  by (simp add: safe_def)

lemma safe_trans [trans]: "safe w w1 \<Longrightarrow> safe w1 w2 \<Longrightarrow> safe w w2"
  unfolding safe_def by (metis le_trans)

lemma room_later: "room N env i db \<Longrightarrow> i \<le> j \<Longrightarrow> room N env j db"
  by (auto simp: room_def)

lemma room_wf: "room N env i db \<Longrightarrow> wf_db db"
  by (simp add: room_def)

lemma soundD:
  assumes "sound N env" "i < N"
  shows "1 < ce_ts (env i)" "ce_ts (env i) < 2 ^ 63" "inj (ce_id (env i))"
    "room N env i db \<Longrightarrow> room N env i (ce_other (env i) db)"
    "j < i \<Longrightarrow> ce_ts (env j) < ce_ts (env i)" "j < i \<Longrightarrow> ce_id (env j) m \<noteq> ce_id (env i) n"
proof -
  show "1 < ce_ts (env i)" "ce_ts (env i) < 2 ^ 63" "inj (ce_id (env i))"
    "room N env i db \<Longrightarrow> room N env i (ce_other (env i) db)" "j < i \<Longrightarrow> ce_ts (env j) < ce_ts (env i)"
    using assms unfolding sound_def by blast+
  have "j < i \<Longrightarrow> range (ce_id (env j)) \<inter> range (ce_id (env i)) = {}"
    using assms unfolding sound_def by blast
  then show "j < i \<Longrightarrow> ce_id (env j) m \<noteq> ce_id (env i) n" by blast
qed

lemma roomD:
  assumes "room N env i db" "r \<in> set (kv db)" "i \<le> j" "j < N"
  shows "r_rev r < ce_ts (env j)" "r_id r \<noteq> ce_id (env j) n"
  using assms unfolding room_def by blast+

lemma room_fresh:
  assumes "sound N env" "i < N" "room N env i db"
  shows "fresh_env K (env i) db"
proof -
  have "range (ce_id (env i)) \<inter> r_id ` set (kv db) = {}"
  proof (intro equals0I, elim IntE imageE)
    fix x r n assume "x = ce_id (env i) n" "x = r_id r" "r \<in> set (kv db)"
    then show False using roomD(2) [OF assms(3), of r i n] assms(2) by simp
  qed
  moreover have "r_rev r < ce_ts (env i)" if "r \<in> set (kv db)" for r
    by (rule roomD(1) [OF assms(3) that order_refl assms(2)])
  ultimately show ?thesis
    using soundD(1-3) [OF assms(1,2)] unfolding fresh_env_def by (simp add: less_imp_le)
qed

lemma room_at_call:
  assumes "sound N (w_env w)" "w_pos w < N" "room N (w_env w) (w_pos w) (w_db w)"
  shows "room N (w_env w) (w_pos w) (at_call w)"
  using soundD(4) [OF assms] by (simp add: at_call_def this_call_def)

lemma safe_served: "safe w (served w)"
  using room_at_call [of _ w] room_later [of _ "w_env w" "w_pos w" "at_call w" "Suc (w_pos w)"]
  by (auto simp: safe_def Suc_le_eq)

lemma safe_notifyCh [simp]: "safe w (w1\<lparr>w_notifyCh := ch\<rparr>) = safe w w1"
  by (simp add: safe_def)

lemma safe_notifyCh' [simp]: "safe (w\<lparr>w_notifyCh := ch\<rparr>) w1 = safe w w1"
  by (simp add: safe_def)

lemma safe_notify [simp]: "safe w (notify rv w1) = safe w w1"
  by (simp add: notify_def)

section \<open>Calls\<close>

lemma single_safe [safe_calls]: "single q f w = (r, w') \<Longrightarrow> safe w w'"
  using safe_served [of w] by (auto simp: single_eq split: option.splits)

lemma stream_rows_safe [safe_calls]: "stream_rows q f w = (r, w') \<Longrightarrow> safe w w'"
  using safe_served [of w] by (auto simp: stream_rows_def spanner_call_eq)

text \<open>Mutations that insert log rows at the commit timestamp only.\<close>

fun stamped :: "mutation \<Rightarrow> bool" where
  "stamped (InsertKV rv key val old lease del crt crev prev) = (rv = CommitTimestamp)"
| "stamped _ = True"

lemma apply_mutation_rows:
  assumes "apply_mutation ts i m db = Some db'" "stamped m" "r \<in> set (kv db')"
  shows "r \<in> set (kv db) \<or> r_rev r = ts \<and> r_id r = i"
  using assms by (cases m) (auto split: if_splits option.splits)

lemma apply_mutations_rows:
  assumes "apply_mutations ts ids ms db = Some db'" "\<forall>m \<in> set ms. stamped m" "r \<in> set (kv db')"
  shows "r \<in> set (kv db) \<or> r_rev r = ts \<and> r_id r \<in> range ids"
  using assms
proof (induction ms arbitrary: ids db)
  case (Cons m ms)
  then obtain db1 where db1: "apply_mutation ts (ids 0) m db = Some db1"
    "apply_mutations ts (\<lambda>i. ids (Suc i)) ms db1 = Some db'"
    by (auto split: option.splits)
  from Cons.IH [OF db1(2)] Cons.prems apply_mutation_rows [OF db1(1)] show ?case by auto
qed simp

lemma room_commit:
  assumes "sound N env" "i < N" "room N env i db" "\<forall>m \<in> set ms. stamped m"
    and "apply_mutations (ce_ts (env i)) (ce_id (env i)) ms db = Some db'" "wf_db db'"
  shows "room N env (Suc i) db'"
  unfolding room_def
proof (intro conjI ballI allI impI)
  fix r j assume r: "r \<in> set (kv db')" and j: "Suc i \<le> j \<and> j < N"
  from apply_mutations_rows [OF assms(5,4) r]
  have "r \<in> set (kv db) \<or> r_rev r = ce_ts (env i) \<and> r_id r \<in> range (ce_id (env i))" .
  moreover have "ce_ts (env i) < ce_ts (env j)" "ce_id (env i) m \<noteq> ce_id (env j) n" for m n
    using soundD(5,6) [OF assms(1), of j i] j by simp_all
  moreover have "r_rev r < ce_ts (env j)" "r_id r \<noteq> ce_id (env j) n" if "r \<in> set (kv db)" for n
    using roomD [OF assms(3) that, of j] j by simp_all
  ultimately show "r_rev r < ce_ts (env j)" "r_id r \<notin> range (ce_id (env j))"
    by (auto simp: image_iff)
qed (fact assms(6))

text \<open>
  A commit is safe when its mutations are stamped and keep the tables well-formed wherever
  Spanner can apply them at a new timestamp.
\<close>

lemma commit_safe:
  assumes "\<forall>m \<in> set ms. stamped m"
    and wf: "\<And>db'. wf_db (at_call w) \<Longrightarrow> fresh_env UNIV (this_call w) (at_call w) \<Longrightarrow>
      apply_mutations (ce_ts (this_call w)) (ce_id (this_call w)) ms (at_call w) = Some db' \<Longrightarrow> wf_db db'"
  shows "safe w (snd (commit (this_call w) ms (served w)))"
proof -
  have ok: "safe w ((served w)\<lparr>w_db := db'\<rparr>)"
    if db': "apply_mutations (ce_ts (this_call w)) (ce_id (this_call w)) ms (at_call w) = Some db'" for db'
  proof -
    have "room N (w_env w) (Suc (w_pos w)) db'"
      if N: "sound N (w_env w)" "Suc (w_pos w) \<le> N" "room N (w_env w) (w_pos w) (w_db w)" for N
    proof -
      have r: "room N (w_env w) (w_pos w) (at_call w)"
        using room_at_call [OF N(1) _ N(3)] N(2) by simp
      have "fresh_env UNIV (this_call w) (at_call w)"
        using room_fresh [OF N(1) _ r] N(2) by (simp add: this_call_def)
      from room_commit [OF N(1) _ r assms(1) _ wf [OF room_wf [OF r] this db']] db' N(2)
      show ?thesis by (simp add: this_call_def)
    qed
    then show ?thesis by (auto simp: safe_def)
  qed
  show ?thesis
    by (cases rule: commit_cases [of "this_call w" ms "served w"])
      (use ok safe_served [of w] in auto)
qed

text \<open>The contract of a callback whose transaction is safe.\<close>

locale safe_callback =
  fixes cb :: "'v \<Rightarrow> txn \<Rightarrow> (goerr + mutation list) \<times> 'v"
  assumes stamps: "fst (cb v t) = Inr ms \<Longrightarrow> \<forall>m \<in> set ms. stamped m"
    and keeps_wf: "fst (cb v t) = Inr ms \<Longrightarrow> wf_db (t_db t) \<Longrightarrow> fresh_env UNIV c (t_db t) \<Longrightarrow>
      apply_mutations (ce_ts c) (ce_id c) ms (t_db t) = Some db' \<Longrightarrow> wf_db db'"
begin

lemma read_write_safe:
  assumes "read_write cb v w = (r, v', w')"
  shows "safe w w'"
proof -
  let ?v = "fold (\<lambda>t u. snd (cb u t)) (ce_aborted (this_call w)) v"
  show ?thesis
  proof (cases "fst (cb ?v (handle w))")
    case (Inl e)
    with assms safe_served [of w] show ?thesis by (simp add: read_write_eq Let_def)
  next
    case (Inr ms)
    have "safe w (snd (commit (this_call w) ms (served w)))"
    proof (rule commit_safe [OF stamps [OF Inr]])
      fix db' assume "wf_db (at_call w)" "fresh_env UNIV (this_call w) (at_call w)"
        "apply_mutations (ce_ts (this_call w)) (ce_id (this_call w)) ms (at_call w) = Some db'"
      then show "wf_db db'" using keeps_wf [OF Inr, of "this_call w" db'] by simp
    qed
    moreover have "w' = snd (commit (this_call w) ms (served w))"
      using assms Inr by (simp add: read_write_eq Let_def)
    ultimately show ?thesis by simp
  qed
qed

end

lemma fresh_env_subset: "fresh_env UNIV c db \<Longrightarrow> fresh_env K c db"
  by (simp add: fresh_env_def)

text \<open>The contract of the store's callbacks gives all but the stamps.\<close>

locale stamped_callback = txn_callback +
  assumes stamps': "fst (cb v t) = Inr ms \<Longrightarrow> \<forall>m \<in> set ms. stamped m"

sublocale stamped_callback \<subseteq> safe_callback cb
proof
  fix v t ms c db'
  assume "fst (cb v t) = Inr ms" "wf_db (t_db t)" "fresh_env UNIV c (t_db t)"
    "apply_mutations (ce_ts c) (ce_id c) ms (t_db t) = Some db'"
  then show "wf_db db'" using commit_wf [of v t ms c] fresh_env_subset by fastforce
qed (rule stamps')

interpretation create_safe: stamped_callback "createTxn key val leaseID" "{key}" for key val leaseID
  by unfold_locales (auto simp: createTxn_def split: sum.splits bool.splits)

interpretation update_safe: stamped_callback "updateTxn key val revision leaseID" "{key}" for key val revision leaseID
  by unfold_locales (auto simp: updateTxn_def split: sum.splits option.splits if_splits)

interpretation delete_safe: stamped_callback "deleteTxn key revision" "{key}" for key revision
  by unfold_locales (auto simp: deleteTxn_def tombstone_def split: sum.splits option.splits if_splits)

interpretation deleteIfLease_safe: stamped_callback "deleteIfLeaseTxn key leaseID" "{key}" for key leaseID
  by unfold_locales (auto simp: deleteIfLeaseTxn_def tombstone_def split: sum.splits option.splits if_splits)

lemma op_mutations_stamped: "m \<in> set (op_mutations db op) \<Longrightarrow> stamped m"
  by (auto simp: op_mutations_def putMutation_def tombstone_def split: TxnOpType.splits option.splits)

interpretation atomic_safe: stamped_callback "atomicTxn cs s f" "txn_keys s f" for cs s f
  by unfold_locales (auto elim!: atomicTxn_Inr dest: op_mutations_stamped)

interpretation compact_safe: stamped_callback "compactTxn (revToTS (wrap64 targetRev))" "{}" for targetRev
  by unfold_locales (auto simp: compactTxn_def split: sum.splits option.splits if_splits)

interpretation seed_safe: safe_callback seedTxn
proof
  fix v t ms c db'
  assume "fst (seedTxn v t) = Inr ms" "wf_db (t_db t)"
    "apply_mutations (ce_ts c) (ce_id c) ms (t_db t) = Some db'"
  then show "wf_db db'"
    by (auto simp: seedTxn_def wf_db_def split: sum.splits option.splits if_splits)
qed (auto simp: seedTxn_def split: sum.splits option.splits if_splits)

lemmas [safe_calls] = create_safe.read_write_safe update_safe.read_write_safe delete_safe.read_write_safe
  deleteIfLease_safe.read_write_safe atomic_safe.read_write_safe seed_safe.read_write_safe

lemma compact_read_write_safe [safe_calls]:
  "read_write (compactTxn (revToTS targetRev)) v w = (r, v', w') \<Longrightarrow> in_int64 targetRev \<Longrightarrow> safe w w'"
  using compact_safe.read_write_safe [of targetRev v w r v' w'] by (simp add: wrap64_id)

text \<open>Blind mutations: the rows of a compaction batch, a lease, a cursor.\<close>

lemma apply_call_safe:
  assumes "apply_call ms w = (r, w')" "\<forall>m \<in> set ms. stamped m"
    and "\<And>ts ids db db'. wf_db db \<Longrightarrow> apply_mutations ts ids ms db = Some db' \<Longrightarrow> wf_db db'"
  shows "safe w w'"
  using commit_safe [OF assms(2), of w] assms(1,3) by (auto simp: apply_call_eq)

lemma apply_deletes_safe [safe_calls]: "apply_call (map DeleteKV ids) w = (r, w') \<Longrightarrow> safe w w'"
  by (erule apply_call_safe) (auto simp: apply_deletes drop_rows_wf)

lemma apply_lease_safe [safe_calls]:
  "apply_call [InsertLease lid ttl CommitTimestamp] w = (r, w') \<Longrightarrow> safe w w'"
  "apply_call [DeleteLease lid] w = (r, w') \<Longrightarrow> safe w w'"
  by (erule apply_call_safe; auto simp: wf_db_def distinct_map_filter split: if_splits)+

lemma apply_cursor_safe [safe_calls]:
  "apply_call [InsertOrUpdateCursor rid tok res CommitTimestamp] w = (r, w') \<Longrightarrow> safe w w'"
  by (erule apply_call_safe) (auto simp: wf_db_def)

section \<open>The store\<close>

lemma CurrentRevision_safe [safe_calls]: "Store_CurrentRevision w = (rv, err, w') \<Longrightarrow> safe w w'"
  using CurrentRevision_world [of w] safe_served [of w] by simp

lemma compactRevision_safe [safe_calls]:
  "Store_compactRevision w = (rv, err, w') \<Longrightarrow> safe w w' \<and> in_int64 rv"
  by (auto simp: Store_compactRevision_def tsToRev_int64 in_int64_def [of 0] in_int64_def [of 1]
      split: prod.splits sum.splits option.splits if_splits dest: safe_calls)

lemma Get_safe [safe_calls]: "Store_Get key revision w = (rv, k, err, w') \<Longrightarrow> safe w w'"
  by (auto simp: Store_Get_def Let_def split: prod.splits sum.splits option.splits if_splits
      dest!: safe_calls intro: safe_trans)

lemma List_safe [safe_calls]: "Store_List p sk limit revision w = (rv, cr, kvs, err, w') \<Longrightarrow> safe w w'"
  by (auto simp: Store_List_def Let_def split: prod.splits sum.splits option.splits if_splits
      dest!: safe_calls intro: safe_trans)

lemma Count_safe [safe_calls]: "Store_Count p sk revision w = (rv, n, err, w') \<Longrightarrow> safe w w'"
  by (auto simp: Store_Count_def Let_def split: prod.splits sum.splits option.splits if_splits
      dest!: safe_calls intro: safe_trans)

lemma After_safe [safe_calls]: "Store_After p afterRev limit w = (rv, evs, err, w') \<Longrightarrow> safe w w'"
  by (auto simp: Store_After_def Let_def split: prod.splits sum.splits option.splits if_splits
      dest!: safe_calls intro: safe_trans)

lemma Create_safe [safe_calls]: "Store_Create key val leaseID w = (rv, err, w') \<Longrightarrow> safe w w'"
  by (auto simp: Store_Create_def Let_def split: prod.splits sum.splits dest!: safe_calls)

lemma Update_safe [safe_calls]: "Store_Update key val revision leaseID w = (rv, k, ok, err, w') \<Longrightarrow> safe w w'"
  by (auto simp: Store_Update_def Let_def split: prod.splits sum.splits if_splits
      dest!: safe_calls intro: safe_trans)

lemma Delete_safe [safe_calls]: "Store_Delete key revision w = (rv, k, ok, err, w') \<Longrightarrow> safe w w'"
  by (auto simp: Store_Delete_def Let_def split: prod.splits sum.splits if_splits
      dest!: safe_calls intro: safe_trans)

lemma DeleteIfLease_safe [safe_calls]: "Store_DeleteIfLease key lid w = (b, err, w') \<Longrightarrow> safe w w'"
  by (auto simp: Store_DeleteIfLease_def split: prod.splits sum.splits dest!: safe_calls)

lemma AtomicTxn_safe [safe_calls]: "Store_AtomicTxn cs s f w = (b, rs, rv, err, w') \<Longrightarrow> safe w w'"
  by (auto simp: Store_AtomicTxn_def Let_def split: prod.splits sum.splits option.splits if_splits
      dest!: safe_calls)

section \<open>Compaction\<close>

lemma Compact_safe [safe_calls]:
  "Store_Compact targetRev w = (rv, err, job, w') \<Longrightarrow> in_int64 targetRev \<Longrightarrow> safe w w'"
  by (auto simp: Store_Compact_def Let_def split: prod.splits sum.splits
      dest!: safe_calls intro: safe_trans)

lemma compactLoop_safe_tables:
  assumes "compactLoop targetTS tot w = Some r"
  shows "safe w (snd r)"
  using assms
proof (induction rule: compactLoop.raw_induct [rotated, consumes 1, case_names step])
  case (step loop targetTS tot w r)
  then show ?case
    by (auto simp: scanCompactBatch_def split: prod.splits sum.splits if_splits
        dest!: safe_calls step.IH intro: safe_trans)
qed

lemma compactRows_safe_tables [safe_calls]: "compactRows targetRev w = Some (n, w') \<Longrightarrow> safe w w'"
  using compactLoop_safe_tables by (fastforce simp: compactRows_def)

lemma autoCompactTick_safe_tables [safe_calls]:
  assumes "autoCompactTick cfg w = Some w'"
  shows "safe w w'"
  using assms
  by (auto simp: autoCompactTick_def Let_def tsToRev_int64 split: prod.splits sum.splits option.splits if_splits
      dest!: safe_calls intro: safe_trans)

section \<open>The KV service\<close>

lemma Range_safe [safe_calls]: "KV_Range r w = (resp, w') \<Longrightarrow> safe w w'"
  by (auto simp: KV_Range_def Let_def split: prod.splits option.splits if_splits dest!: safe_calls)

lemma Put_safe [safe_calls]: "KV_Put r w = (resp, w') \<Longrightarrow> safe w w'"
  by (auto simp: KV_Put_def Let_def split: prod.splits option.splits if_splits
      dest!: safe_calls intro: safe_trans)

lemma deleteEach_safe [safe_calls]: "deleteEach prevKv ks acc w = (acc', w') \<Longrightarrow> safe w w'"
  by (induction prevKv ks acc w arbitrary: acc' rule: deleteEach.induct)
    (auto split: prod.splits option.splits if_splits dest!: safe_calls intro: safe_trans)

lemma DeleteRange_safe [safe_calls]: "KV_DeleteRange r w = (resp, w') \<Longrightarrow> safe w w'"
  by (auto simp: KV_DeleteRange_def Let_def split: prod.splits option.splits if_splits
      dest!: safe_calls intro: safe_trans)

lemma txnAtomic_safe [safe_calls]: "txnAtomic r w = (resp, w') \<Longrightarrow> safe w w'"
  by (auto simp: txnAtomic_def Let_def split: prod.splits sum.splits option.splits if_splits
      dest!: safe_calls intro: safe_trans)

lemma evaluateCompare_safe [safe_calls]: "evaluateCompare cs w = (b, w') \<Longrightarrow> safe w w'"
  by (induction cs w rule: evaluateCompare.induct)
    (auto split: prod.splits option.splits CompareTarget.splits if_splits dest!: safe_calls intro: safe_trans)

lemma executeRange_safe [safe_calls]: "executeRange rr w = (resp, w') \<Longrightarrow> safe w w'"
  by (auto simp: executeRange_def Let_def split: prod.splits sum.splits dest!: safe_calls)

lemma executePut_safe [safe_calls]: "executePut pr w = (resp, w') \<Longrightarrow> safe w w'"
  by (auto simp: executePut_def Let_def split: prod.splits sum.splits option.splits if_splits
      dest!: safe_calls intro: safe_trans)

lemma deleteBelow_safe [safe_calls]: "deleteBelow prevKv ende ks acc w = (res, w') \<Longrightarrow> safe w w'"
  by (induction prevKv ende ks acc w arbitrary: res rule: deleteBelow.induct)
    (auto split: prod.splits option.splits if_splits dest!: safe_calls intro: safe_trans)

lemma executeDelete_safe [safe_calls]: "executeDelete dr w = (resp, w') \<Longrightarrow> safe w w'"
  by (auto simp: executeDelete_def Let_def split: prod.splits sum.splits option.splits if_splits
      dest!: safe_calls intro: safe_trans)

lemma executeOp_safe [safe_calls]: "executeOp op w = (resp, w') \<Longrightarrow> safe w w'"
  by (cases op) (auto dest!: safe_calls)

lemma executeLoop_safe [safe_calls]: "executeLoop ops rs lastRev w = (res, w') \<Longrightarrow> safe w w'"
  by (induction ops rs lastRev w rule: executeLoop.induct)
    (auto split: prod.splits sum.splits dest!: safe_calls intro: safe_trans)

lemma executeOps_safe [safe_calls]: "executeOps ops w = (res, w') \<Longrightarrow> safe w w'"
  by (auto simp: executeOps_def split: prod.splits sum.splits option.splits if_splits
      dest!: safe_calls intro: safe_trans)

lemma txnNonAtomic_safe [safe_calls]: "txnNonAtomic r w = (resp, w') \<Longrightarrow> safe w w'"
  by (auto simp: txnNonAtomic_def split: prod.splits sum.splits option.splits if_splits
      dest!: safe_calls intro: safe_trans)

lemma Txn_safe [safe_calls]: "KV_Txn r w = (resp, w') \<Longrightarrow> safe w w'"
  by (auto simp: KV_Txn_def split: if_splits dest!: safe_calls)

lemma KV_Compact_safe [safe_calls]: "KV_Compact revision w = (resp, job, w') \<Longrightarrow> in_int64 revision \<Longrightarrow> safe w w'"
  by (auto simp: KV_Compact_def split: prod.splits option.splits dest!: safe_calls)

section \<open>Leases\<close>

lemma Grant_safe [safe_calls]: "Lease_Grant now ttl lm w = (res, lm', w') \<Longrightarrow> safe w w'"
  by (auto simp: Lease_Grant_def Let_def split: prod.splits sum.splits dest!: safe_calls)

lemma deleteLeaseKeys_safe [safe_calls]: "deleteLeaseKeys lid ks errs w = (n, w') \<Longrightarrow> safe w w'"
  by (induction lid ks errs w rule: deleteLeaseKeys.induct)
    (auto split: prod.splits option.splits dest!: safe_calls intro: safe_trans)

lemma expireLeaseKeys_safe [safe_calls]: "expireLeaseKeys lid w = (err, w') \<Longrightarrow> safe w w'"
  by (auto simp: expireLeaseKeys_def split: prod.splits sum.splits option.splits if_splits
      dest!: safe_calls intro: safe_trans)

lemma Revoke_safe [safe_calls]: "Lease_Revoke lid lm w = (err, lm', w') \<Longrightarrow> safe w w'"
  by (auto simp: Lease_Revoke_def split: prod.splits option.splits dest!: safe_calls)

lemma revokeRetry_safe [safe_calls]: "revokeRetry n a stopped lid lm w = (lm', w') \<Longrightarrow> safe w w'"
  by (induction n a stopped lid lm w rule: revokeRetry.induct)
    (auto split: prod.splits option.splits if_splits dest!: safe_calls intro: safe_trans)

lemma timerFired_safe [safe_calls]: "timerFired now stopped lid lm w = (lm', w') \<Longrightarrow> safe w w'"
  by (auto simp: timerFired_def split: option.splits if_splits dest!: safe_calls)

lemma loadLeases_safe [safe_calls]: "loadLeases lm w = (err, lm', w') \<Longrightarrow> safe w w'"
  by (auto simp: loadLeases_def split: prod.splits dest!: safe_calls)

lemma gcLoop_safe:
  assumes "gcLoop attempt stopped lm w = Some r"
  shows "safe w (snd r)"
  using assms
proof (induction rule: gcLoop.raw_induct [rotated, consumes 1, case_names step])
  case (step loop attempt stopped lm w r)
  then show ?case
    by (auto split: prod.splits option.splits if_splits dest!: safe_calls step.IH intro: safe_trans)
qed

lemma gcLoop_safe' [safe_calls]: "gcLoop attempt stopped lm w = Some (lm', w') \<Longrightarrow> safe w w'"
  using gcLoop_safe by fastforce

lemma lease_service_safe [safe_calls]:
  "LeaseGrant now ttl lm w = (res, lm', w') \<Longrightarrow> safe w w'"
  "LeaseRevoke lid lm w = (res', lm', w') \<Longrightarrow> safe w w'"
  by (auto simp: LeaseGrant_def LeaseRevoke_def Let_def split: prod.splits sum.splits option.splits dest!: safe_calls)

section \<open>Watches and the change stream\<close>

lemma replayAllowed_safe [safe_calls]: "replayAllowed afterRev w = (b, w') \<Longrightarrow> safe w w'"
  by (auto simp: replayAllowed_def split: prod.splits option.splits dest!: safe_calls)

lemma replayPage_safe [safe_calls]: "replayPage p rv w = (res, w') \<Longrightarrow> safe w w'"
  by (auto simp: replayPage_def split: prod.splits option.splits dest!: safe_calls)

lemma replayLoop_safe:
  assumes "replayLoop p full n rv w = Some r"
  shows "safe w (snd (snd r))"
  using assms
proof (induction rule: replayLoop.raw_induct [rotated, consumes 1, case_names step])
  case (step loop p full n rv w r)
  then show ?case
    by (auto simp: Let_def split: prod.splits sum.splits option.splits if_splits bind_splits
        dest!: safe_calls step.IH intro: safe_trans)
qed

lemma replay_safe [safe_calls]: "replay p afterRev full w = Some (bs, ok, w') \<Longrightarrow> safe w w'"
  using replayLoop_safe
  by (fastforce simp: replay_def split: prod.splits bool.splits if_splits dest!: safe_calls intro: safe_trans)

lemma doPoll_safe [safe_calls]: "doPoll lastRev wt w = (rv, wt', w') \<Longrightarrow> safe w w'"
  by (auto simp: doPoll_def split: prod.splits option.splits if_splits dest!: safe_calls)

lemma pollStart_safe [safe_calls]: "pollStart w = (ps, w') \<Longrightarrow> safe w w'"
  by (auto simp: pollStart_def split: prod.splits dest!: safe_calls)

lemma pollStep_safe [safe_calls]: "pollStep ev ps wt w = (ps', wt', w') \<Longrightarrow> safe w w'"
  by (auto simp: pollStep_def Let_def split: poll_event.splits list.splits prod.splits if_splits dest!: safe_calls)

lemma watchLoopStep_safe [safe_calls]: "watchLoopStep wid ev b w = (rs, res, w') \<Longrightarrow> safe w w'"
  by (auto simp: watchLoopStep_def split: loop_event.splits prod.splits if_splits dest!: safe_calls)

lemma loadCursors_safe [safe_calls]: "loadCursors rid w = (res, w') \<Longrightarrow> safe w w'"
  by (auto simp: loadCursors_def split: prod.splits sum.splits dest!: safe_calls)

lemma flushCursor_safe [safe_calls]: "flushCursor rid p w = (err, w') \<Longrightarrow> safe w w'"
  by (auto simp: flushCursor_def split: prod.splits sum.splits dest!: safe_calls)

lemma streamPartition_safe [safe_calls]:
  "streamPartition um rid rows err st w = (fin, e, st', w') \<Longrightarrow> safe w w'"
proof (induction rows arbitrary: st w)
  case (Cons row rows)
  from Cons.prems show ?case
    by (auto simp: Let_def split: prod.splits option.splits if_split_asm
        dest!: safe_calls Cons.IH intro: safe_trans)
qed simp

lemma readPartition_safe [safe_calls]: "readPartition um rid qs st w = (st', w') \<Longrightarrow> safe w w'"
  by (induction um rid qs st w rule: readPartition.induct)
    (auto split: prod.splits option.splits if_splits dest!: safe_calls intro: safe_trans)

lemma startPartitions_safe [safe_calls]: "startPartitions um rid now toks query w = (res, w') \<Longrightarrow> safe w w'"
  by (auto simp: startPartitions_def Let_def split: prod.splits sum.splits dest!: safe_calls)

section \<open>Setup and status\<close>

lemma SeedCompactRev_safe [safe_calls]: "SeedCompactRev w = (err, w') \<Longrightarrow> safe w w'"
  by (auto simp: SeedCompactRev_def split: prod.splits sum.splits dest!: safe_calls)

lemma Status_safe [safe_calls]: "Maintenance_Status m w = (resp, w') \<Longrightarrow> safe w w'"
  by (auto simp: Maintenance_Status_def Let_def split: prod.splits dest!: safe_calls)

end
