(* ===== verification/Lifecycle.thy ===== *)
theory Lifecycle
  imports Safety Feeds Lease_Steps
begin

text \<open>
  The life of a store of \<open>pkg/store/store.go\<close>: \<open>New\<close> and \<open>NewWithConfig\<close> with the background
  goroutines they start, \<open>autoCompactLoop\<close>, and \<open>Close\<close>, which ends them.  The goroutines are those
  of the watcher (poll loop, change stream reader, health monitor), of the lease manager (reload,
  expiry) and the automatic compaction.
\<close>

section \<open>The automatic compaction\<close>

datatype compact_event = CompactDone | CompactTick

text \<open>The loop over the events its \<open>select\<close> takes, and whether it still runs; \<open>None\<close> when a deletion does not return.\<close>

fun autoCompactLoop :: "StoreConfig \<Rightarrow> compact_event list \<Rightarrow> world \<Rightarrow> (bool \<times> world) option" where
  "autoCompactLoop cfg [] w = Some (True, w)"
| "autoCompactLoop cfg (CompactDone # evs) w = Some (False, w)"
| "autoCompactLoop cfg (CompactTick # evs) w =
     (case autoCompactTick cfg w of None \<Rightarrow> None | Some w1 \<Rightarrow> autoCompactLoop cfg evs w1)"

text \<open>
  C40: However long the loop of the automatic compaction runs, and whichever of its calls fail, it
  keeps the tables well-formed and leaves the current value of every key that nobody else changes as
  it was; while it runs, the compaction of other replicas may go on beside it.
\<close>

theorem autoCompactLoop_safe:
  assumes "wf_db (w_db w)" "others_keep (w_env w) key" "autoCompactLoop cfg evs w = Some (running, w')"
  shows "wf_db (w_db w') \<and> abs_store (w_db w') key = abs_store (w_db w) key \<and> w_env w' = w_env w"
  using assms
proof (induction cfg evs w rule: autoCompactLoop.induct)
  case (3 cfg evs w)
  then obtain w1 where w1: "autoCompactTick cfg w = Some w1" "autoCompactLoop cfg evs w1 = Some (running, w')"
    by (auto split: option.splits)
  have env: "w_env w1 = w_env w" using autoCompactTick_safe_tables [OF w1(1)] by (simp add: safe_def)
  note t = autoCompactTick_safe [OF 3(2,3) w1(1)]
  from 3(1) [OF w1(1) _ _ w1(2)] t env 3(3) show ?case by simp
qed auto

theorem autoCompactLoop_safe_witness:
  "\<exists>w'. autoCompactLoop \<lparr>AutoCompactInterval = 1, AutoCompactAge = 20\<rparr> [CompactTick, CompactTick, CompactDone]
       (demo_world demo_db) = Some (False, w') \<and> abs_store (w_db w') ''a'' = abs_store demo_db ''a''"
proof -
  let ?cfg = "\<lparr>AutoCompactInterval = 1, AutoCompactAge = 20\<rparr>"
  obtain w1 where w1: "autoCompactTick ?cfg (demo_world demo_db) = Some w1"
    using autoCompactTick_returns [OF others_demo(2)] by blast
  have "w_env w1 = w_env (demo_world demo_db)" using autoCompactTick_safe_tables [OF w1] by (simp add: safe_def)
  then obtain w2 where w2: "autoCompactTick ?cfg w1 = Some w2"
    using autoCompactTick_returns [of w1 ?cfg] others_demo(2) by auto
  have run: "autoCompactLoop ?cfg [CompactTick, CompactTick, CompactDone] (demo_world demo_db) = Some (False, w2)"
    by (simp add: w1 w2)
  from autoCompactLoop_safe [OF _ others_demo(1) run, of "''a''"] run wf_demo show ?thesis by auto
qed

section \<open>The store\<close>

text \<open>
  \<open>st_monitor\<close>, \<open>st_gcLoop\<close> and \<open>st_autoCompact\<close> say whether those goroutines still run;
  \<open>st_watchStop\<close> is the watcher's \<open>stopCh\<close>.
\<close>

record Store_state =
  st_cfg :: StoreConfig
  st_bgCtx :: bool
  st_poll :: poll_state
  st_watchStop :: bool
  st_reader :: ChangeStreamReader
  st_monitor :: bool
  st_leases :: lease_sys
  st_gcLoop :: bool
  st_autoCompact :: bool

definition Store_NewWithConfig :: "StoreConfig \<Rightarrow> int \<Rightarrow> world \<Rightarrow> goerr + Store_state" where
  "Store_NewWithConfig cfg now w =
     (case NewWithConfig cfg of
        Inl e \<Rightarrow> Inl e
      | Inr (cfg1, looping) \<Rightarrow>
          (case pollStart w of
             (ps, w1) \<Rightarrow>
               Inr \<lparr>st_cfg = cfg1, st_bgCtx = False, st_poll = ps, st_watchStop = False,
                    st_reader = NewChangeStreamReader, st_monitor = True, st_leases = init_leases now w1,
                    st_gcLoop = True, st_autoCompact = looping\<rparr>))"

definition Store_New :: "int \<Rightarrow> world \<Rightarrow> goerr + Store_state" where
  "Store_New now w = Store_NewWithConfig \<lparr>AutoCompactInterval = 0, AutoCompactAge = 0\<rparr> now w"

definition bgCancel :: "Store_state \<Rightarrow> Store_state" where
  "bgCancel st = st\<lparr>st_bgCtx := True, st_reader := (st_reader st)\<lparr>cr_ctxDone := True\<rparr>,
     st_leases := (st_leases st)\<lparr>ly_ctxDone := True\<rparr>\<rparr>"

definition watcher_close :: "Store_state \<Rightarrow> Store_state option" where
  "watcher_close st = (if st_watchStop st then None else Some (st\<lparr>st_watchStop := True\<rparr>))"

text \<open>\<open>Close\<close>; \<open>None\<close> is the panic of closing a closed channel.\<close>

definition Store_Close :: "Store_state \<Rightarrow> Store_state option" where
  "Store_Close st0 =
     (case watcher_close (bgCancel st0) of
        None \<Rightarrow> None
      | Some st \<Rightarrow> map_option (\<lambda>ls. st\<lparr>st_leases := ls\<rparr>) (lease_close (st_leases st)))"

section \<open>The goroutines on their way out\<close>

text \<open>
  What the goroutines do once the context is done: the branches of their \<open>select\<close> statements for
  the end, and what they finish before they look.
\<close>

datatype bg_step =
    BgPoll poll_event | BgSetup "goerr + partitionState list" | BgReader reader_step | BgMonitor
  | BgLease lease_step | BgGc | BgAuto

fun lease_ending :: "lease_step \<Rightarrow> bool" where
  "lease_ending (TimerStops tm) = True"
| "lease_ending (ExpiryTries ex) = True"
| "lease_ending (ExpiryStops ex) = True"
| "lease_ending (RevokeRecords lid) = True"
| "lease_ending LoadRow = True"
| "lease_ending _ = False"

fun bexec :: "bg_step \<Rightarrow> Store_state \<Rightarrow> Store_state option" where
  "bexec (BgPoll ev) st =
     (if pl_running (st_poll st) \<and> (ev = CtxDone \<and> st_bgCtx st \<or> ev = StopCh \<and> st_watchStop st)
      then Some (st\<lparr>st_poll := (st_poll st)\<lparr>pl_running := False\<rparr>\<rparr>) else None)"
| "bexec (BgSetup res) st = map_option (\<lambda>cr. st\<lparr>st_reader := cr\<rparr>) (readerSetup res (st_reader st))"
| "bexec (BgReader rst) st =
     (if stopping_step rst then map_option (\<lambda>cr. st\<lparr>st_reader := cr\<rparr>) (rexec rst (st_reader st)) else None)"
| "bexec BgMonitor st =
     (if st_monitor st \<and> (st_bgCtx st \<or> st_watchStop st) then Some (st\<lparr>st_monitor := False\<rparr>) else None)"
| "bexec (BgLease lst) st =
     (if lease_ending lst then map_option (\<lambda>ls. st\<lparr>st_leases := ls\<rparr>) (lexec lst (st_leases st)) else None)"
| "bexec BgGc st =
     (if st_gcLoop st \<and> ly_loading (st_leases st) = [] \<and> lease_stopping (st_leases st)
      then Some (st\<lparr>st_gcLoop := False\<rparr>) else None)"
| "bexec BgAuto st = (if st_autoCompact st \<and> st_bgCtx st then Some (st\<lparr>st_autoCompact := False\<rparr>) else None)"

fun brun :: "bg_step list \<Rightarrow> Store_state \<Rightarrow> Store_state option" where
  "brun [] st = Some st"
| "brun (b # bs) st = (case bexec b st of None \<Rightarrow> None | Some st' \<Rightarrow> brun bs st')"

fun reader_returned :: "reader_phase \<Rightarrow> bool" where
  "reader_returned (ReaderReturned err) = True"
| "reader_returned _ = False"

definition ended :: "Store_state \<Rightarrow> bool" where
  "ended st \<longleftrightarrow>
     \<not> pl_running (st_poll st) \<and> \<not> st_monitor st \<and> \<not> st_gcLoop st \<and> \<not> st_autoCompact st \<and>
     reader_returned (cr_phase (st_reader st)) \<and> cr_feed (st_reader st) = [] \<and>
     rd_active (cr_reader (st_reader st)) = [] \<and>
     lm_timers (ly_lm (st_leases st)) = [] \<and> ly_expiring (st_leases st) = [] \<and> ly_revoking (st_leases st) = [] \<and>
     ly_loading (st_leases st) = []"

section \<open>Close ends the goroutines\<close>

text \<open>The steps left: an expiry goroutine has up to five attempts, a reloaded lease a timer.\<close>

definition tries_left :: "int \<times> nat \<Rightarrow> nat" where
  "tries_left ex = 7 - min (snd ex) 5"

definition lease_left :: "lease_sys \<Rightarrow> nat" where
  "lease_left sys = length (lm_timers (ly_lm sys)) + sum_list (map tries_left (ly_expiring sys)) +
     length (ly_revoking sys) + 2 * length (ly_loading sys)"

definition reader_left :: "ChangeStreamReader \<Rightarrow> nat" where
  "reader_left cr = stops_left cr + (if cr_phase cr = ReaderSetup then 4 else 0)"

definition bg_left :: "Store_state \<Rightarrow> nat" where
  "bg_left st = of_bool (pl_running (st_poll st)) + reader_left (st_reader st) + of_bool (st_monitor st) +
     lease_left (st_leases st) + of_bool (st_gcLoop st) + of_bool (st_autoCompact st)"

lemma expiryTries_left:
  assumes "expiryTries ex sys = Some sys'"
  shows "lease_left sys' < lease_left sys" "lease_stopping sys' = lease_stopping sys"
proof -
  have "sum_list (map tries_left (ly_expiring sys)) =
      tries_left ex + sum_list (map tries_left (remove1 ex (ly_expiring sys)))"
    by (intro sum_list_map_remove1 expiryTries_simps(1) [OF assms])
  then show "lease_left sys' < lease_left sys"
    using assms by (auto simp: expiryTries_def revokeKeys_def lease_left_def tries_left_def Let_def
        split: if_splits option.splits prod.splits)
  show "lease_stopping sys' = lease_stopping sys" by (rule expiryTries_simps(4) [OF assms])
qed

lemma length_remove1_less: "x \<in> set xs \<Longrightarrow> length (remove1 x xs) < length xs"
  by (induction xs) auto

lemma lease_ending_left:
  assumes "lease_ending lst" "lexec lst sys = Some sys'"
  shows "lease_left sys' < lease_left sys \<and> lease_stopping sys' = lease_stopping sys"
proof (cases lst)
  case (ExpiryTries ex)
  then show ?thesis using assms(2) expiryTries_left by simp
next
  case (ExpiryStops ex)
  then have "ex \<in> set (ly_expiring sys)" using assms(2) by (simp add: expiryStops_def split: if_splits)
  from sum_list_map_remove1 [OF this, of tries_left] show ?thesis
    using ExpiryStops assms(2) by (auto simp: expiryStops_def lease_left_def tries_left_def split: if_splits)
qed (use assms in \<open>auto simp: lease_left_def timerStops_def revokeRecords_def loadRow_def put_lease_def Let_def
    length_remove1_less split: if_splits list.splits\<close>)

lemma readerSetup_left:
  assumes "readerSetup res cr = Some cr'"
  shows "reader_left cr' < reader_left cr \<and> cr_ctxDone cr' = cr_ctxDone cr"
proof -
  have ph: "cr_phase cr = ReaderSetup" using assms by (simp add: readerSetup_def split: if_splits)
  show ?thesis
  proof (cases res)
    case (Inl e)
    then have "cr' = cr\<lparr>cr_phase := ReaderReturned (Some e), cr_stopped := True\<rparr>" using assms ph by (simp add: readerSetup_def)
    then show ?thesis using ph by (simp add: reader_left_def stops_left_def)
  next
    case (Inr ps)
    then have "cr' = cr\<lparr>cr_phase := ReaderSelect, cr_feed := ps\<rparr>" using assms ph by (simp add: readerSetup_def)
    then show ?thesis using ph by (cases "ps = []"; cases "cr_feed cr = []") (simp_all add: reader_left_def stops_left_def)
  qed
qed

lemma bexec_left:
  assumes "bexec b st = Some st'" "st_bgCtx st" "cr_ctxDone (st_reader st)" "lease_stopping (st_leases st)"
  shows "bg_left st' < bg_left st \<and> st_bgCtx st' \<and> cr_ctxDone (st_reader st') \<and> lease_stopping (st_leases st')"
proof (cases b)
  case (BgReader rst)
  then obtain cr where "stopping_step rst" "rexec rst (st_reader st) = Some cr" "st' = st\<lparr>st_reader := cr\<rparr>"
    using assms(1) by (auto split: if_splits)
  moreover from this have "cr_phase (st_reader st) \<noteq> ReaderSetup \<Longrightarrow> cr_phase cr \<noteq> ReaderSetup"
    by (cases rst) (auto simp: readerFeedEnds_def readerStops_def readerReturns_def workerEnds_def split: if_splits)
  ultimately show ?thesis using stopping_step_left [of rst "st_reader st" cr] assms by (auto simp: bg_left_def reader_left_def)
next
  case (BgSetup res)
  then obtain cr where "readerSetup res (st_reader st) = Some cr" "st' = st\<lparr>st_reader := cr\<rparr>" using assms(1) by auto
  with readerSetup_left [of res "st_reader st" cr] assms show ?thesis by (simp add: bg_left_def)
next
  case (BgLease lst)
  then obtain ls where "lease_ending lst" "lexec lst (st_leases st) = Some ls" "st' = st\<lparr>st_leases := ls\<rparr>"
    using assms(1) by (auto split: if_splits)
  with lease_ending_left [of lst "st_leases st" ls] assms show ?thesis by (simp add: bg_left_def)
next
  case (BgPoll ev)
  then have "pl_running (st_poll st)" "st' = st\<lparr>st_poll := (st_poll st)\<lparr>pl_running := False\<rparr>\<rparr>"
    using assms(1) by (simp_all split: if_splits)
  with assms show ?thesis by (simp add: bg_left_def)
next
  case BgMonitor
  then have "st_monitor st" "st' = st\<lparr>st_monitor := False\<rparr>" using assms(1) by (simp_all split: if_splits)
  with assms show ?thesis by (simp add: bg_left_def)
next
  case BgGc
  then have "st_gcLoop st" "st' = st\<lparr>st_gcLoop := False\<rparr>" using assms(1) by (simp_all split: if_splits)
  with assms show ?thesis by (simp add: bg_left_def)
next
  case BgAuto
  then have "st_autoCompact st" "st' = st\<lparr>st_autoCompact := False\<rparr>" using assms(1) by (simp_all split: if_splits)
  with assms show ?thesis by (simp add: bg_left_def)
qed

lemma brun_left:
  "brun bs st = Some st' \<Longrightarrow> st_bgCtx st \<Longrightarrow> cr_ctxDone (st_reader st) \<Longrightarrow> lease_stopping (st_leases st) \<Longrightarrow>
     length bs + bg_left st' \<le> bg_left st \<and> st_bgCtx st' \<and> cr_ctxDone (st_reader st') \<and> lease_stopping (st_leases st')"
proof (induction bs arbitrary: st)
  case (Cons b bs)
  then obtain st1 where s: "bexec b st = Some st1" "brun bs st1 = Some st'" by (auto split: option.splits)
  from bexec_left [OF s(1)] Cons.IH [OF s(2)] Cons.prems show ?case by fastforce
qed simp

lemma reader_can_end:
  assumes "cr_ctxDone cr" "cr_feed cr \<noteq> [] \<or> rd_active (cr_reader cr) \<noteq> [] \<or> \<not> reader_returned (cr_phase cr)"
  shows "(\<exists>res. readerSetup res cr \<noteq> None) \<or> (\<exists>rst. stopping_step rst \<and> rexec rst cr \<noteq> None)"
proof (cases "cr_feed cr = [] \<and> rd_active (cr_reader cr) = []")
  case True
  with assms(2) have "\<not> reader_returned (cr_phase cr)" by blast
  then show ?thesis
  proof (cases "cr_phase cr")
    case ReaderSelect
    then show ?thesis using assms(1) by (intro disjI2 exI [of _ RdStops]) (simp add: readerStops_def)
  next
    case ReaderWaiting
    then show ?thesis using True by (intro disjI2 exI [of _ RdReturns]) (simp add: readerReturns_def)
  qed (auto simp: readerSetup_def)
next
  case False
  then consider "cr_feed cr \<noteq> []" | tok where "tok \<in> set (rd_active (cr_reader cr))"
    by (metis hd_in_set)
  then show ?thesis
  proof cases
    case 1
    then show ?thesis using assms(1) by (intro disjI2 exI [of _ RdFeedEnds]) (simp add: readerFeedEnds_def)
  next
    case 2
    then show ?thesis by (intro disjI2 exI [of _ "WorkerEnds tok"]) (simp add: workerEnds_def)
  qed
qed

lemma leases_can_end:
  assumes "lease_stopping sys"
    "lm_timers (ly_lm sys) \<noteq> [] \<or> ly_expiring sys \<noteq> [] \<or> ly_revoking sys \<noteq> [] \<or> ly_loading sys \<noteq> []"
  shows "\<exists>lst. lease_ending lst \<and> lexec lst sys \<noteq> None"
proof -
  consider tm where "tm \<in> set (lm_timers (ly_lm sys))" | ex where "ex \<in> set (ly_expiring sys)"
    | lid where "lid \<in> set (ly_revoking sys)" | "ly_loading sys \<noteq> []"
    using assms(2) by (metis hd_in_set)
  then show ?thesis
  proof cases
    case (1 tm)
    then show ?thesis using assms(1) by (intro exI [of _ "TimerStops tm"]) (simp add: timerStops_def)
  next
    case (2 ex)
    then show ?thesis by (intro exI [of _ "ExpiryTries ex"]) (simp add: expiryTries_def Let_def)
  next
    case (3 lid)
    then show ?thesis by (intro exI [of _ "RevokeRecords lid"]) (simp add: revokeRecords_def)
  next
    case 4
    then show ?thesis by (intro exI [of _ LoadRow]) (auto simp: loadRow_def Let_def neq_Nil_conv)
  qed
qed

lemma can_end:
  assumes "\<not> ended st" "st_bgCtx st" "cr_ctxDone (st_reader st)" "lease_stopping (st_leases st)"
  shows "\<exists>b. bexec b st \<noteq> None"
proof -
  let ?cr = "st_reader st" and ?sys = "st_leases st"
  consider "pl_running (st_poll st)" | "st_monitor st" | "st_autoCompact st"
    | "cr_feed ?cr \<noteq> [] \<or> rd_active (cr_reader ?cr) \<noteq> [] \<or> \<not> reader_returned (cr_phase ?cr)"
    | "lm_timers (ly_lm ?sys) \<noteq> [] \<or> ly_expiring ?sys \<noteq> [] \<or> ly_revoking ?sys \<noteq> [] \<or> ly_loading ?sys \<noteq> []"
    | "st_gcLoop st" "ly_loading ?sys = []"
    using assms(1) unfolding ended_def by blast
  then show ?thesis
  proof cases
    case 1
    then show ?thesis using assms(2) by (intro exI [of _ "BgPoll CtxDone"]) simp
  next
    case 2
    then show ?thesis using assms(2) by (intro exI [of _ BgMonitor]) simp
  next
    case 3
    then show ?thesis using assms(2) by (intro exI [of _ BgAuto]) simp
  next
    case 4
    from reader_can_end [OF assms(3) this] consider res where "readerSetup res ?cr \<noteq> None"
      | rst where "stopping_step rst" "rexec rst ?cr \<noteq> None" by blast
    then show ?thesis
    proof cases
      case (1 res)
      then show ?thesis by (intro exI [of _ "BgSetup res"]) simp
    next
      case (2 rst)
      then show ?thesis by (intro exI [of _ "BgReader rst"]) simp
    qed
  next
    case 5
    from leases_can_end [OF assms(4) this] obtain lst where "lease_ending lst" "lexec lst ?sys \<noteq> None" by blast
    then show ?thesis by (intro exI [of _ "BgLease lst"]) simp
  next
    case 6
    then show ?thesis using assms(4) by (intro exI [of _ BgGc]) simp
  qed
qed


definition demo_store :: Store_state where
  "demo_store = projr (Store_New 1000 (demo_world demo_db))"

definition demo_closing :: "bg_step list" where
  "demo_closing = [BgPoll StopCh, BgSetup (Inl ErrCompacted), BgMonitor, BgGc, BgAuto]"

lemma demo_closing_runs:
  "Store_Close demo_store \<noteq> None" "brun demo_closing (the (Store_Close demo_store)) \<noteq> None"
  "bg_left demo_store = 8"
  by code_simp+


end
