(* ===== verification/GoText.thy ===== *)
theory GoText
  imports GoStd
begin

text \<open>
  What the program uses of Go's standard library to take strings apart: \<open>strings.Split\<close>,
  \<open>SplitN\<close>, \<open>TrimSpace\<close>, \<open>Contains\<close>, \<open>hex.EncodeToString\<close> and \<open>time.ParseDuration\<close>.
\<close>

section \<open>Package strings\<close>

text \<open>\<open>Split\<close> at a separator of one byte, and \<open>SplitN\<close> into at most two parts.\<close>

fun Split :: "char \<Rightarrow> string \<Rightarrow> string list" where
  "Split c [] = [[]]"
| "Split c (x # xs) =
     (if x = c then [] # Split c xs
      else (case Split c xs of [] \<Rightarrow> [[x]] | y # ys \<Rightarrow> (x # y) # ys))"

definition SplitN2 :: "char \<Rightarrow> string \<Rightarrow> string list" where
  "SplitN2 c s =
     (if c \<in> set s then [takeWhile (\<lambda>x. x \<noteq> c) s, tl (dropWhile (\<lambda>x. x \<noteq> c) s)] else [s])"

fun Contains :: "string \<Rightarrow> string \<Rightarrow> bool" where
  "Contains [] t = (t = [])"
| "Contains (x # xs) t = (HasPrefix (x # xs) t \<or> Contains xs t)"

text \<open>The white space of \<open>unicode.IsSpace\<close>, in UTF-8.\<close>

definition spaceRunes :: "string list" where
  "spaceRunes =
     [[CHR 0x09], [CHR 0x0A], [CHR 0x0B], [CHR 0x0C], [CHR 0x0D], [CHR 0x20],
      [CHR 0xC2, CHR 0x85], [CHR 0xC2, CHR 0xA0], [CHR 0xE1, CHR 0x9A, CHR 0x80]]
     @ map (\<lambda>n. [CHR 0xE2, CHR 0x80, char_of (0x80 + n)]) [0 ..< 11]
     @ [[CHR 0xE2, CHR 0x80, CHR 0xA8], [CHR 0xE2, CHR 0x80, CHR 0xA9], [CHR 0xE2, CHR 0x80, CHR 0xAF],
        [CHR 0xE2, CHR 0x81, CHR 0x9F], [CHR 0xE3, CHR 0x80, CHR 0x80]]"

function trimRunes :: "string list \<Rightarrow> string \<Rightarrow> string" where
  "trimRunes rs s =
     (case find (\<lambda>r. r \<noteq> [] \<and> HasPrefix s r) rs of
        None \<Rightarrow> s
      | Some r \<Rightarrow> trimRunes rs (drop (length r) s))"
  by pat_completeness auto
termination
proof (relation "measure (\<lambda>(rs, s). length s)")
  fix rs s r
  assume "find (\<lambda>r. r \<noteq> [] \<and> HasPrefix s r) rs = Some r"
  then have "r \<noteq> []" "HasPrefix s r" by (auto simp: find_Some_iff)
  moreover from this have "length r \<le> length s"
    by (metis HasPrefix_iff prefix_length_le)
  ultimately show "((rs, drop (length r) s), rs, s) \<in> measure (\<lambda>(rs, s). length s)"
    by (cases r) auto
qed simp

declare trimRunes.simps [simp del]

definition TrimSpace :: "string \<Rightarrow> string" where
  "TrimSpace s = rev (trimRunes (map rev spaceRunes) (rev (trimRunes spaceRunes s)))"

section \<open>Package encoding/hex\<close>

definition hexDigit :: "nat \<Rightarrow> char" where
  "hexDigit n = char_of (if n < 10 then 48 + n else 87 + n)"

definition hex_EncodeToString :: "string \<Rightarrow> string" where
  "hex_EncodeToString b = concat (map (\<lambda>c. let n = of_char c in [hexDigit (n div 16), hexDigit (n mod 16)]) b)"

section \<open>ParseDuration\<close>

text \<open>
  A \<open>float64\<close> is the fraction of two integers.  \<open>float_round\<close> rounds a positive fraction to 53
  bits, to the nearest and on a tie to the even one.  The exponent is not bounded here: where
  the bound would matter, in fractions of more than three hundred digits, what is parsed is less
  than a nanosecond in both.
\<close>

definition float_round :: "int \<times> int \<Rightarrow> int \<times> int" where
  "float_round x =
     (let (p, q) = x;
          scaled = (\<lambda>e. if e \<ge> 0 then (p, q * 2 ^ nat e) else (p * 2 ^ nat (- e), q));
          e0 = int (log2_int (nat p)) - int (log2_int (nat q)) - 53;
          e = (let (a, b) = scaled e0 in if a div b \<ge> 2 ^ 53 then e0 + 1 else e0);
          (a, b) = scaled e;
          m = a div b; r = a mod b;
          m' = (if 2 * r > b \<or> 2 * r = b \<and> odd m then m + 1 else m)
      in if e \<ge> 0 then (m' * 2 ^ nat e, 1) else (m', 2 ^ nat (- e)))"

definition unitMap :: "string \<Rightarrow> int option" where
  "unitMap u =
     map_of [(''ns'', 1), (''us'', 10 ^ 3), ([CHR 0xC2, CHR 0xB5, CHR ''s''], 10 ^ 3),
             ([CHR 0xCE, CHR 0xBC, CHR ''s''], 10 ^ 3), (''ms'', 10 ^ 6), (''s'', 10 ^ 9),
             (''m'', 60 * 10 ^ 9), (''h'', 3600 * 10 ^ 9)] u"

fun leadingInt :: "int \<Rightarrow> string \<Rightarrow> (int \<times> string) option" where
  "leadingInt x [] = Some (x, [])"
| "leadingInt x (c # s) =
     (if \<not> isDigit c then Some (x, c # s)
      else if x > 2 ^ 63 div 10 then None
      else (let y = x * 10 + int (the (digit_val c)) in if y > 2 ^ 63 then None else leadingInt y s))"

fun leadingFraction :: "bool \<Rightarrow> int \<Rightarrow> int \<times> int \<Rightarrow> string \<Rightarrow> int \<times> (int \<times> int) \<times> string" where
  "leadingFraction overflow x scale [] = (x, scale, [])"
| "leadingFraction overflow x scale (c # s) =
     (if \<not> isDigit c then (x, scale, c # s)
      else if overflow \<or> x > (2 ^ 63 - 1) div 10 then leadingFraction True x scale s
      else (let y = x * 10 + int (the (digit_val c))
            in if y > 2 ^ 63 then leadingFraction True x scale s
               else leadingFraction False y (float_round (10 * fst scale, snd scale)) s))"

text \<open>The nanoseconds of a fraction: \<open>uint64(float64(f) * (float64(unit) / scale))\<close>.\<close>

definition fractionNanos :: "int \<Rightarrow> int \<Rightarrow> int \<times> int \<Rightarrow> int" where
  "fractionNanos f unit scale =
     (let (fp, fq) = float_round (f, 1);
          (up, uq) = float_round (unit * snd scale, fst scale);
          (p, q) = float_round (fp * up, fq * uq)
      in p div q)"

definition unitLength :: "string \<Rightarrow> nat" where
  "unitLength s = length (takeWhile (\<lambda>c. c \<noteq> CHR ''.'' \<and> \<not> isDigit c) s)"

text \<open>The fraction of a term, if it has one: its digits, their scale, the rest, and whether there are digits.\<close>

definition fractionPart :: "string \<Rightarrow> int \<times> (int \<times> int) \<times> string \<times> bool" where
  "fractionPart s =
     (if s \<noteq> [] \<and> hd s = CHR ''.'' then
        (case leadingFraction False 0 (1, 1) (tl s) of
           (f, scale, t) \<Rightarrow> (f, scale, t, length t \<noteq> length (tl s)))
      else (0, (1, 1), s, False))"

text \<open>One term such as \<open>1.5h\<close>: its nanoseconds and the rest.\<close>

definition durationTerm :: "string \<Rightarrow> (int \<times> string) option" where
  "durationTerm s0 =
     (if s0 = [] \<or> \<not> (hd s0 = CHR ''.'' \<or> isDigit (hd s0)) then None
      else do {
        (v, s1) \<leftarrow> leadingInt 0 s0;
        let pre = (length s1 \<noteq> length s0);
        let (f, scale, s2, post) = fractionPart s1;
        if \<not> pre \<and> \<not> post then None
        else if unitLength s2 = 0 then None
        else do {
          unit \<leftarrow> unitMap (take (unitLength s2) s2);
          if v > 2 ^ 63 div unit then None
          else
            let v1 = v * unit; v2 = (if f > 0 then v1 + fractionNanos f unit scale else v1)
            in if v2 > 2 ^ 63 then None else Some (v2, drop (unitLength s2) s2)
        }
      })"

lemma leadingInt_length: "leadingInt x s = Some (v, t) \<Longrightarrow> length t \<le> length s"
  by (induction x s arbitrary: v t rule: leadingInt.induct) (fastforce simp: Let_def split: if_splits)+

lemma leadingFraction_length: "leadingFraction b x sc s = (f, sc', t) \<Longrightarrow> length t \<le> length s"
  by (induction b x sc s arbitrary: f sc' t rule: leadingFraction.induct) (fastforce simp: Let_def split: if_splits)+

lemma fractionPart_length: "fractionPart s = (f, sc, t, b) \<Longrightarrow> length t \<le> length s"
  using leadingFraction_length [of False 0 "(1, 1)" "tl s" f sc t]
  by (auto simp: fractionPart_def split: if_splits prod.splits)

lemma durationTerm_length:
  assumes "durationTerm s = Some (v, t)"
  shows "length t < length s"
proof -
  from assms obtain s1 v0 where s1: "leadingInt 0 s = Some (v0, s1)"
    by (auto simp: durationTerm_def split: if_splits bind_splits)
  obtain f sc s2 b where s2: "fractionPart s1 = (f, sc, s2, b)" by (metis prod.collapse)
  have len: "length s2 \<le> length s"
    using leadingInt_length [OF s1] fractionPart_length [OF s2] by simp
  have "unitLength s2 \<noteq> 0 \<and> t = drop (unitLength s2) s2"
    using assms s1 s2 by (auto simp: durationTerm_def Let_def split: if_splits bind_splits)
  moreover from this have "s2 \<noteq> []" by (auto simp: unitLength_def)
  ultimately show ?thesis using len by (cases s2) auto
qed

function durationTerms :: "int \<Rightarrow> string \<Rightarrow> int option" where
  "durationTerms d s =
     (if s = [] then Some d
      else
        (case durationTerm s of
           None \<Rightarrow> None
         | Some (v, t) \<Rightarrow> if d + v > 2 ^ 63 then None else durationTerms (d + v) t))"
  by pat_completeness auto
termination
  by (relation "measure (\<lambda>(d, s). length s)") (auto dest: durationTerm_length)

declare durationTerms.simps [simp del]

definition ParseDuration :: "string \<Rightarrow> int option" where
  "ParseDuration s0 =
     (let neg = (s0 \<noteq> [] \<and> hd s0 = CHR ''-'');
          s = (if s0 \<noteq> [] \<and> (hd s0 = CHR ''-'' \<or> hd s0 = CHR ''+'') then tl s0 else s0)
      in if s = ''0'' then Some 0
         else if s = [] then None
         else
           (case durationTerms 0 s of
              None \<Rightarrow> None
            | Some d \<Rightarrow> if neg then Some (- d) else if d > 2 ^ 63 - 1 then None else Some d))"

section \<open>Lemmas\<close>

lemma Split_not_Nil [simp]: "Split c s \<noteq> []"
  by (cases s) (auto split: list.splits)

lemma Split_single: "c \<notin> set s \<Longrightarrow> Split c s = [s]"
  by (induction s) auto

lemma Split_append: "c \<notin> set s \<Longrightarrow> Split c (s @ c # t) = s # Split c t"
  by (induction s) auto

lemma SplitN2_append: "c \<notin> set s \<Longrightarrow> SplitN2 c (s @ c # t) = [s, t]"
  by (induction s) (auto simp: SplitN2_def)

lemma trimRunes_id:
  "(\<And>r. r \<in> set rs \<Longrightarrow> r = [] \<or> \<not> HasPrefix s r) \<Longrightarrow> trimRunes rs s = s"
  by (subst trimRunes.simps) (metis (mono_tags, lifting) find_None_iff option.simps(4))

text \<open>A string whose first and last bytes are neither white space nor part of a longer code stays as it is.\<close>

definition plain :: "char \<Rightarrow> bool" where
  "plain c \<longleftrightarrow> 33 \<le> (of_char c :: nat) \<and> (of_char c :: nat) < 128"

lemma spaceRunes_ends:
  "r \<in> set spaceRunes \<Longrightarrow> r \<noteq> [] \<and> \<not> plain (hd r) \<and> \<not> plain (last r)"
proof -
  have "list_all (\<lambda>r. r \<noteq> [] \<and> \<not> plain (hd r) \<and> \<not> plain (last r)) spaceRunes"
    by code_simp
  then show "r \<in> set spaceRunes \<Longrightarrow> r \<noteq> [] \<and> \<not> plain (hd r) \<and> \<not> plain (last r)"
    by (simp add: list_all_iff)
qed

lemma TrimSpace_plain:
  assumes "s \<noteq> []" "plain (hd s)" "plain (last s)"
  shows "TrimSpace s = s"
proof -
  have "\<not> HasPrefix s r" if "r \<in> set spaceRunes" for r
    using spaceRunes_ends [OF that] assms by (cases r; cases s) (auto simp: HasPrefix_def)
  then have 1: "trimRunes spaceRunes s = s" by (intro trimRunes_id) simp
  have "\<not> HasPrefix (rev s) (rev r)" if "r \<in> set spaceRunes" for r
    using spaceRunes_ends [OF that] assms
    by (cases r rule: rev_cases; cases s rule: rev_cases) (auto simp: HasPrefix_def)
  then have "trimRunes (map rev spaceRunes) (rev s) = rev s"
    by (intro trimRunes_id) auto
  with 1 show ?thesis by (simp add: TrimSpace_def)
qed

lemma hex_length: "length (hex_EncodeToString b) = 2 * length b"
  by (induction b) (auto simp: hex_EncodeToString_def Let_def)

text \<open>A whole number of a unit is read exactly as long as it is below \<open>2 ^ 63\<close> nanoseconds.\<close>

lemma fold_digits_mono: "(x::nat) \<le> fold (\<lambda>c n. n * 10 + the (digit_val c)) ds x"
proof (induction ds arbitrary: x)
  case (Cons c ds)
  have "x \<le> x * 10 + the (digit_val c)" by simp
  also have "\<dots> \<le> fold (\<lambda>c n. n * 10 + the (digit_val c)) ds (x * 10 + the (digit_val c))"
    by (rule Cons.IH)
  finally show ?case by simp
qed simp

lemma leadingInt_digits:
  assumes "\<forall>c \<in> set ds. isDigit c" and "u = [] \<or> \<not> isDigit (hd u)"
    and "fold (\<lambda>c n. n * 10 + the (digit_val c)) ds x \<le> 2 ^ 63"
  shows "leadingInt (int x) (ds @ u) = Some (int (fold (\<lambda>c n. n * 10 + the (digit_val c)) ds x), u)"
  using assms
proof (induction ds arbitrary: x)
  case Nil
  then show ?case by (cases u) auto
next
  case (Cons c ds)
  let ?y = "x * 10 + the (digit_val c)"
  have "?y \<le> 2 ^ 63"
    using Cons.prems(3) fold_digits_mono [of ?y ds] by simp
  then have "int x \<le> 2 ^ 63 div 10" "int x * 10 + int (the (digit_val c)) \<le> 2 ^ 63" by auto
  moreover have "leadingInt (int ?y) (ds @ u) = Some (int (fold (\<lambda>c n. n * 10 + the (digit_val c)) ds ?y), u)"
    by (rule Cons.IH) (use Cons.prems in auto)
  ultimately show ?case using Cons.prems(1) by (simp add: Let_def)
qed

lemma nat_str_not_Nil [simp]: "nat_str n \<noteq> []"
  by (subst nat_str.simps) simp

lemma ParseDuration_whole:
  assumes u: "unitMap u = Some k" and lt: "int n * k < 2 ^ 63"
  shows "ParseDuration (nat_str n @ u) = Some (int n * k)"
proof -
  have k: "0 < k" and u_ne: "u \<noteq> []" and u_plain: "unitLength u = length u"
    and u_hd: "\<not> isDigit (hd u)" "hd u \<noteq> CHR ''.''"
    using u by (auto simp: unitMap_def unitLength_def isDigit_def split: if_splits)
  have n: "int n \<le> 2 ^ 63 div k"
    using lt k by (simp add: zdiv_mono1 [of "int n * k" "2 ^ 63" k, simplified] less_imp_le)
  have "int n \<le> int n * k" using k by (simp add: mult_le_cancel_left1)
  then have "int n \<le> 2 ^ 63" using lt by linarith
  then have n63: "n \<le> 2 ^ 63" by simp
  have li: "leadingInt 0 (nat_str n @ u) = Some (int n, u)"
    using leadingInt_digits [of "nat_str n" u 0] nat_str_digits n63 u_hd digits_val_nat_str [of n]
    by (auto simp: digits_val_def)
  have fp: "fractionPart u = (0, (1, 1), u, False)"
    using u_hd by (simp add: fractionPart_def)
  have hd: "isDigit (hd (nat_str n @ u))"
    using nat_str_digits [of "hd (nat_str n)" n] by simp
  have "durationTerm (nat_str n @ u) = Some (int n * k, [])"
    using hd n lt u u_ne by (simp add: durationTerm_def li fp u_plain Let_def)
  then have dt: "durationTerms 0 (nat_str n @ u) = Some (int n * k)"
    using lt by (subst durationTerms.simps) (simp add: durationTerms.simps)
  have ns: "hd (nat_str n @ u) \<noteq> CHR ''-''" "hd (nat_str n @ u) \<noteq> CHR ''+''"
    using hd by (auto simp: isDigit_def)
  have "nat_str n @ u \<noteq> ''0''" using u_ne by (cases "nat_str n") auto
  with dt lt ns show ?thesis by (simp add: ParseDuration_def Let_def)
qed

end
