(* ===== verification/Auth.thy ===== *)
theory Auth
  imports GoText "HOL-Library.AList"
begin

text \<open>
  \<open>pkg/server/auth.go\<close>: passwords, tokens and the interceptors that ask for a token.  The maps
  of the server are association lists without double keys.  The clock and the random bytes are
  arguments; a \<open>time.Time\<close> is its nanoseconds since the epoch.
\<close>

section \<open>The server\<close>

definition DefaultTokenTTL :: int where
  "DefaultTokenTTL = 5 * 60 * 10 ^ 9"

definition tokenHeader :: string where
  "tokenHeader = ''token''"

definition authHeaderKey :: string where
  "authHeaderKey = ''authorization''"

record tokenInfo =
  ti_username :: string
  ti_expiresAt :: int

record AuthServer =
  as_users :: "(string \<times> string) list"
  as_tokens :: "(string \<times> tokenInfo) list"
  as_enabled :: bool
  as_ttl :: int
  as_stopped :: bool

definition newAuthServer :: "(string \<times> string) list \<Rightarrow> int \<Rightarrow> AuthServer" where
  "newAuthServer users ttl =
     \<lparr>as_users = users, as_tokens = [], as_enabled = (length users > 0),
      as_ttl = (if ttl \<le> 0 then DefaultTokenTTL else ttl), as_stopped = False\<rparr>"

text \<open>One tick of \<open>gcLoop\<close>, and \<open>close\<close>, after which it does not tick any more.\<close>

definition gcTick :: "int \<Rightarrow> AuthServer \<Rightarrow> AuthServer" where
  "gcTick now a =
     (if as_stopped a then a
      else a\<lparr>as_tokens := filter (\<lambda>(tok, info). \<not> now > ti_expiresAt info) (as_tokens a)\<rparr>)"

definition auth_close :: "AuthServer \<Rightarrow> AuthServer" where
  "auth_close a = a\<lparr>as_stopped := True\<rparr>"

text \<open>\<open>rand.Read\<close> fills as much of the 16 zero bytes as it delivers; its error is ignored.\<close>

definition generateToken :: "string \<Rightarrow> string" where
  "generateToken random = hex_EncodeToString (take 16 (random @ replicate 16 (CHR 0x00)))"

definition Authenticate :: "string \<Rightarrow> string \<Rightarrow> int \<Rightarrow> string \<Rightarrow> AuthServer \<Rightarrow> (goerr + string) \<times> AuthServer" where
  "Authenticate name password now random a =
     (if \<not> as_enabled a then (Inr ''no-auth'', a)
      else
        (case map_of (as_users a) name of
           None \<Rightarrow> (Inl (Status Unauthenticated ''authentication failed''), a)
         | Some pass \<Rightarrow>
             if pass \<noteq> password then (Inl (Status Unauthenticated ''authentication failed''), a)
             else
               (let tok = generateToken random
                in (Inr tok,
                    a\<lparr>as_tokens := AList.update tok
                         \<lparr>ti_username = name, ti_expiresAt = now + as_ttl a\<rparr> (as_tokens a)\<rparr>))))"

definition AuthEnable :: "AuthServer \<Rightarrow> AuthServer" where
  "AuthEnable a = a"

definition AuthDisable :: "AuthServer \<Rightarrow> AuthServer" where
  "AuthDisable a = a"

definition AuthStatus :: "AuthServer \<Rightarrow> bool" where
  "AuthStatus a = as_enabled a"

text \<open>
  The metadata of a request, by key in lower case; \<open>None\<close> when the context has none.  \<open>mdToken\<close>
  is the token the request shows, empty when it shows none.
\<close>

type_synonym metadata = "string \<Rightarrow> string list"

definition mdToken :: "metadata option \<Rightarrow> string" where
  "mdToken md =
     (case md of
        None \<Rightarrow> []
      | Some h \<Rightarrow>
          (case h tokenHeader of
             v # _ \<Rightarrow> v
           | [] \<Rightarrow> (case h authHeaderKey of v # _ \<Rightarrow> TrimPrefix v ''Bearer '' | [] \<Rightarrow> [])))"

definition validate :: "int \<Rightarrow> metadata option \<Rightarrow> AuthServer \<Rightarrow> bool" where
  "validate now md a =
     (if \<not> as_enabled a then True
      else if md = None then False
      else if mdToken md = [] then False
      else
        (case map_of (as_tokens a) (mdToken md) of
           None \<Rightarrow> False
         | Some info \<Rightarrow> \<not> now > ti_expiresAt info))"

definition isPublicMethod :: "string \<Rightarrow> bool" where
  "isPublicMethod m \<longleftrightarrow>
     Contains m ''Auth/Authenticate'' \<or> Contains m ''Auth/AuthEnable'' \<or> Contains m ''Auth/AuthDisable'' \<or>
     Contains m ''Auth/AuthStatus'' \<or> Contains m ''Health/Check'' \<or> Contains m ''grpc.health''"

definition invalidAuthTokenErr :: goerr where
  "invalidAuthTokenErr = Status Unauthenticated ''etcdserver: invalid auth token''"

text \<open>The interceptors.  The handler is the method's effect on the rest of the server.\<close>

definition authUnaryInterceptor :: "AuthServer \<Rightarrow> int \<Rightarrow> metadata option \<Rightarrow> string
    \<Rightarrow> ('s \<Rightarrow> (goerr + 'r) \<times> 's) \<Rightarrow> 's \<Rightarrow> (goerr + 'r) \<times> 's" where
  "authUnaryInterceptor a now md m handler s =
     (if isPublicMethod m \<or> validate now md a then handler s else (Inl invalidAuthTokenErr, s))"

definition authStreamInterceptor :: "AuthServer \<Rightarrow> int \<Rightarrow> metadata option \<Rightarrow> string
    \<Rightarrow> ('s \<Rightarrow> goerr option \<times> 's) \<Rightarrow> 's \<Rightarrow> goerr option \<times> 's" where
  "authStreamInterceptor a now md m handler s =
     (if isPublicMethod m \<or> validate now md a then handler s else (Some invalidAuthTokenErr, s))"

definition parseUser :: "string \<Rightarrow> (string \<times> string) list \<Rightarrow> (string \<times> string) list" where
  "parseUser pair users =
     (case SplitN2 (CHR '':'') (TrimSpace pair) of
        [name, pass] \<Rightarrow> if name \<noteq> [] then AList.update name pass users else users
      | _ \<Rightarrow> users)"

definition parseUsers :: "string \<Rightarrow> (string \<times> string) list" where
  "parseUsers s = (if s = [] then [] else fold parseUser (Split (CHR '','') s) [])"

section \<open>Runs of the server\<close>

datatype auth_event =
    EvAuthenticate string string int string
  | EvGC int
  | EvEnable int
  | EvDisable int
  | EvClose int

fun auth_time :: "auth_event \<Rightarrow> int" where
  "auth_time (EvAuthenticate n p t r) = t"
| "auth_time (EvGC t) = t"
| "auth_time (EvEnable t) = t"
| "auth_time (EvDisable t) = t"
| "auth_time (EvClose t) = t"

fun authStep :: "auth_event \<Rightarrow> AuthServer \<Rightarrow> AuthServer" where
  "authStep (EvAuthenticate n p t r) a = snd (Authenticate n p t r a)"
| "authStep (EvGC t) a = gcTick t a"
| "authStep (EvEnable t) a = AuthEnable a"
| "authStep (EvDisable t) a = AuthDisable a"
| "authStep (EvClose t) a = auth_close a"

text \<open>The tokens issued in a run, with the time, to callers who knew a user's password.\<close>

fun issued :: "(string \<times> string) list \<Rightarrow> auth_event list \<Rightarrow> (string \<times> int) list" where
  "issued users [] = []"
| "issued users (EvAuthenticate n p t r # evs) =
     (if map_of users n = Some p then (generateToken r, t) # issued users evs else issued users evs)"
| "issued users (_ # evs) = issued users evs"

text \<open>
  What holds of the server along a run at time \<open>now\<close>, with \<open>iss\<close> the tokens issued so far:
  each token of the table stands for an issue, and each issue whose time is not over has its
  token in the table with at least its expiry.
\<close>

definition auth_inv :: "(string \<times> string) list \<Rightarrow> int \<Rightarrow> int \<Rightarrow> (string \<times> int) list \<Rightarrow> AuthServer \<Rightarrow> bool" where
  "auth_inv users ttl now iss a \<longleftrightarrow>
     as_users a = users \<and> as_enabled a \<and> as_ttl a = ttl \<and> distinct (map fst (as_tokens a)) \<and>
     (\<forall>tok info. map_of (as_tokens a) tok = Some info \<longrightarrow> (\<exists>t. (tok, t) \<in> set iss \<and> ti_expiresAt info = t + ttl)) \<and>
     (\<forall>(tok, t) \<in> set iss. t \<le> now \<and>
        (now \<le> t + ttl \<longrightarrow> (\<exists>info. map_of (as_tokens a) tok = Some info \<and> t + ttl \<le> ti_expiresAt info)))"

lemma auth_invD:
  assumes "auth_inv users ttl now iss a"
  shows "as_users a = users" "as_enabled a" "as_ttl a = ttl" "distinct (map fst (as_tokens a))"
    "map_of (as_tokens a) tok = Some info \<Longrightarrow> \<exists>t. (tok, t) \<in> set iss \<and> ti_expiresAt info = t + ttl"
    "(tok, t) \<in> set iss \<Longrightarrow> t \<le> now"
    "(tok, t) \<in> set iss \<Longrightarrow> now \<le> t + ttl \<Longrightarrow>
       \<exists>info. map_of (as_tokens a) tok = Some info \<and> t + ttl \<le> ti_expiresAt info"
  using assms by (auto simp: auth_inv_def)

lemma auth_inv_later:
  assumes "auth_inv users ttl t iss a" "t \<le> t'"
  shows "auth_inv users ttl t' iss a"
  using assms by (fastforce simp: auth_inv_def)

lemma auth_inv_issue:
  assumes inv: "auth_inv users ttl now iss a"
  shows "auth_inv users ttl now (iss @ [(tok, now)])
           (a\<lparr>as_tokens := AList.update tok \<lparr>ti_username = n, ti_expiresAt = now + ttl\<rparr> (as_tokens a)\<rparr>)"
  using auth_invD [OF inv]
  by (fastforce simp: auth_inv_def update_conv' distinct_update)

lemma map_of_filter_value:
  "distinct (map fst ts) \<Longrightarrow> map_of (filter (\<lambda>(k, v). \<not> P v) ts) k
     = (case map_of ts k of None \<Rightarrow> None | Some v \<Rightarrow> if P v then None else Some v)"
  by (induction ts) (auto split: option.splits simp: map_of_eq_None_iff image_iff)

lemma auth_inv_stopped: "auth_inv users ttl now iss (a\<lparr>as_stopped := b\<rparr>) = auth_inv users ttl now iss a"
  by (cases a) (simp only: auth_inv_def AuthServer.simps)

lemma auth_inv_gc:
  assumes inv: "auth_inv users ttl now iss a"
  shows "auth_inv users ttl now iss (gcTick now a)"
proof -
  have *: "map_of (filter (\<lambda>(tok, info). \<not> now > ti_expiresAt info) (as_tokens a)) tok
        = (case map_of (as_tokens a) tok of
             None \<Rightarrow> None | Some info \<Rightarrow> if now > ti_expiresAt info then None else Some info)" for tok
    by (rule map_of_filter_value [OF auth_invD(4) [OF inv]])
  have "distinct (map fst (filter (\<lambda>(tok, info). \<not> now > ti_expiresAt info) (as_tokens a)))"
    using auth_invD(4) [OF inv] by (simp add: distinct_map_filter)
  with auth_invD [OF inv] show ?thesis
    by (fastforce simp: auth_inv_def gcTick_def * split: option.splits if_splits)
qed

lemma auth_inv_step:
  assumes "auth_inv users ttl t0 iss a" "t0 \<le> auth_time ev"
  shows "auth_inv users ttl (auth_time ev) (iss @ issued users [ev]) (authStep ev a)"
proof -
  have inv: "auth_inv users ttl (auth_time ev) iss a" by (rule auth_inv_later [OF assms])
  show ?thesis
  proof (cases ev)
    case (EvAuthenticate n p t r)
    with inv auth_inv_issue [OF inv, of "generateToken r" n] auth_invD(1-3) [OF inv] show ?thesis
      by (auto simp: Authenticate_def Let_def split: option.splits)
  next
    case (EvClose t)
    with inv show ?thesis by (simp add: auth_close_def auth_inv_stopped)
  qed (use inv auth_inv_gc [OF inv] in \<open>auto simp: AuthEnable_def AuthDisable_def\<close>)
qed

lemma issued_append: "issued users (xs @ ys) = issued users xs @ issued users ys"
  by (induction users xs rule: issued.induct) auto

lemma auth_inv_run:
  assumes "auth_inv users ttl t0 iss a" "sorted (t0 # map auth_time evs @ [now])"
  shows "auth_inv users ttl now (iss @ issued users evs) (fold authStep evs a)"
  using assms
proof (induction evs arbitrary: t0 iss a)
  case Nil
  then show ?case by (auto intro: auth_inv_later)
next
  case (Cons ev evs)
  have "auth_inv users ttl (auth_time ev) (iss @ issued users [ev]) (authStep ev a)"
    using Cons.prems by (intro auth_inv_step) auto
  from Cons.IH [OF this] Cons.prems(2) issued_append [of users "[ev]" evs] show ?case by simp
qed

lemma generateToken_length: "length (generateToken r) = 32"
  by (simp add: generateToken_def hex_length)

lemma issued_length: "(tok, t) \<in> set (issued users evs) \<Longrightarrow> length tok = 32"
  by (induction users evs rule: issued.induct) (auto simp: generateToken_length split: if_splits)

lemma validate_run:
  assumes "users \<noteq> []" and "sorted (map auth_time evs @ [now])"
  shows "validate now md (fold authStep evs (newAuthServer users ttl)) \<longleftrightarrow>
           (\<exists>t. (mdToken md, t) \<in> set (issued users evs) \<and> now \<le> t + as_ttl (newAuthServer users ttl))"
proof -
  let ?ttl = "as_ttl (newAuthServer users ttl)"
  let ?a = "fold authStep evs (newAuthServer users ttl)"
  define t0 where "t0 = (case map auth_time evs @ [now] of t # _ \<Rightarrow> t)"
  have "sorted (t0 # map auth_time evs @ [now])"
    using assms(2) by (cases evs) (auto simp: t0_def)
  moreover have "auth_inv users ?ttl t0 [] (newAuthServer users ttl)"
    using assms(1) by (simp add: auth_inv_def newAuthServer_def)
  ultimately have inv: "auth_inv users ?ttl now (issued users evs) ?a"
    using auth_inv_run [of users ?ttl t0 "[]"] by simp
  have len: "mdToken md \<noteq> []" "md \<noteq> None" if "(mdToken md, t) \<in> set (issued users evs)" for t
    using issued_length [OF that] by (auto simp: mdToken_def split: option.splits)
  show ?thesis
  proof
    assume v: "validate now md ?a"
    then obtain info where "map_of (as_tokens ?a) (mdToken md) = Some info" "now \<le> ti_expiresAt info"
      using auth_invD(2) [OF inv] by (auto simp: validate_def split: if_splits option.splits)
    with auth_invD(5) [OF inv] show "\<exists>t. (mdToken md, t) \<in> set (issued users evs) \<and> now \<le> t + ?ttl"
      by fastforce
  next
    assume "\<exists>t. (mdToken md, t) \<in> set (issued users evs) \<and> now \<le> t + ?ttl"
    then obtain t where t: "(mdToken md, t) \<in> set (issued users evs)" "now \<le> t + ?ttl" by blast
    from auth_invD(7) [OF inv t] len [OF t(1)] t(2) show "validate now md ?a"
      by (auto simp: validate_def split: option.splits)
  qed
qed

section \<open>Access\<close>

text \<open>
  The clients' methods are not public, whatever the token; the login methods and the health
  check are.
\<close>

lemma methods_need_token:
  "list_all (\<lambda>m. \<not> isPublicMethod m)
     [''/etcdserverpb.KV/Range'', ''/etcdserverpb.KV/Put'', ''/etcdserverpb.KV/DeleteRange'', ''/etcdserverpb.KV/Txn'',
      ''/etcdserverpb.KV/Compact'', ''/etcdserverpb.Watch/Watch'', ''/etcdserverpb.Lease/LeaseGrant'',
      ''/etcdserverpb.Lease/LeaseRevoke'', ''/etcdserverpb.Lease/LeaseKeepAlive'', ''/etcdserverpb.Lease/LeaseTimeToLive'',
      ''/etcdserverpb.Cluster/MemberList'', ''/etcdserverpb.Maintenance/Status'']"
  by code_simp

text \<open>
  C7: with users configured, and as long as the clock does not go back, a method that is not
  public runs exactly when its request shows a token that \<open>Authenticate\<close> issued to a caller with
  a user's password, and no more than the lifetime ago; otherwise the request is refused with
  the error that makes clients log in again, and nothing is changed.
\<close>

theorem access_exact:
  assumes "users \<noteq> []" and "sorted (map auth_time evs @ [now])"
  shows "authUnaryInterceptor (fold authStep evs (newAuthServer users ttl)) now md m handler s
       = (if isPublicMethod m \<or>
             (\<exists>t. (mdToken md, t) \<in> set (issued users evs) \<and> now \<le> t + (if ttl \<le> 0 then DefaultTokenTTL else ttl))
          then handler s
          else (Inl invalidAuthTokenErr, s))"
  using validate_run [OF assms, of md ttl]
  by (simp add: authUnaryInterceptor_def newAuthServer_def)

definition demo_handler :: "nat \<Rightarrow> (goerr + bool) \<times> nat" where
  "demo_handler n = (Inr True, Suc n)"

definition demo_md :: "string \<Rightarrow> metadata" where
  "demo_md tok k = (if k = ''authorization'' then [''Bearer '' @ tok] else [])"

text \<open>A token issued at time 5 opens the door until time 15 and not at time 16.\<close>

theorem access_exact_witness:
  "authUnaryInterceptor (fold authStep [EvAuthenticate ''u'' ''p'' 5 [], EvGC 15] (newAuthServer [(''u'', ''p'')] 10))
     15 (Some (demo_md (generateToken []))) ''KV/Put'' demo_handler 0 = (Inr True, 1) \<and>
   authUnaryInterceptor (fold authStep [EvAuthenticate ''u'' ''p'' 5 [], EvGC 15] (newAuthServer [(''u'', ''p'')] 10))
     16 (Some (demo_md (generateToken []))) ''KV/Put'' demo_handler 0 = (Inl invalidAuthTokenErr, 0)"
proof -
  have t: "mdToken (Some (demo_md (generateToken []))) = generateToken []"
    by (simp add: mdToken_def demo_md_def tokenHeader_def authHeaderKey_def TrimPrefix_def HasPrefix_def)
  have p: "\<not> isPublicMethod ''KV/Put''" by code_simp
  show ?thesis
    using access_exact [of "[(''u'', ''p'')]" "[EvAuthenticate ''u'' ''p'' 5 [], EvGC 15]" 15 10
        "Some (demo_md (generateToken []))" "''KV/Put''" demo_handler 0]
      access_exact [of "[(''u'', ''p'')]" "[EvAuthenticate ''u'' ''p'' 5 [], EvGC 15]" 16 10
        "Some (demo_md (generateToken []))" "''KV/Put''" demo_handler 0]
    by (simp add: t p demo_handler_def)
qed

section \<open>The list of users\<close>

text \<open>
  The flag \<open>--auth-users\<close> is read back as written: names are not empty and have no colon or
  comma, passwords have no comma, and no pair starts or ends with white space.
\<close>

definition user_ok :: "string \<times> string \<Rightarrow> bool" where
  "user_ok u \<longleftrightarrow>
     fst u \<noteq> [] \<and> snd u \<noteq> [] \<and> CHR '':'' \<notin> set (fst u) \<and> CHR '','' \<notin> set (fst u) \<and> CHR '','' \<notin> set (snd u) \<and>
     plain (hd (fst u)) \<and> plain (last (snd u))"

definition show_user :: "string \<times> string \<Rightarrow> string" where
  "show_user u = fst u @ CHR '':'' # snd u"

fun show_users :: "(string \<times> string) list \<Rightarrow> string" where
  "show_users [] = []"
| "show_users [u] = show_user u"
| "show_users (u # us) = show_user u @ CHR '','' # show_users us"

lemma Split_show_users:
  "us \<noteq> [] \<Longrightarrow> \<forall>u \<in> set us. user_ok u \<Longrightarrow> Split (CHR '','') (show_users us) = map show_user us"
  by (induction us rule: show_users.induct)
    (auto simp: user_ok_def show_user_def Split_single Split_append [of _ "_ @ _ # _", simplified])

lemma parseUser_show: "user_ok u \<Longrightarrow> parseUser (show_user u) users = AList.update (fst u) (snd u) users"
  by (simp add: parseUser_def show_user_def user_ok_def TrimSpace_plain SplitN2_append)

lemma parseUsers_show:
  assumes "\<forall>u \<in> set us. user_ok u"
  shows "map_of (parseUsers (show_users us)) = map_of (rev us)"
proof (cases "us = []")
  case False
  have "show_users us \<noteq> []"
    using False by (cases us rule: show_users.cases) (auto simp: show_user_def)
  then have "parseUsers (show_users us) = fold parseUser (map show_user us) []"
    by (simp add: parseUsers_def Split_show_users [OF False assms])
  also have "map_of (fold parseUser (map show_user us) xs) = map_of (rev us @ xs)" for xs
    using assms
    by (induction us arbitrary: xs) (auto simp: parseUser_show update_conv')
  finally show ?thesis by simp
qed (simp add: parseUsers_def)

end
