(* ===== verification/System.thy ===== *)
theory System
  imports Safety Auth
begin

text \<open>
  One server process: its services behind the interceptors, as \<open>New\<close> in \<open>pkg/server/server.go\<close>
  registers them, and its background goroutines, over the shared database.  A state is the
  process with the world; an action is one request or one step of a goroutine.  Other processes
  are part of the world: what they commit happens between the calls of this one.
\<close>

section \<open>Requests\<close>

datatype rpc =
    RpcRange RangeRequest | RpcPut PutRequest | RpcDeleteRange DeleteRangeRequest | RpcTxn TxnRequest
  | RpcCompact int | RpcLeaseGrant int | RpcLeaseRevoke int | RpcLeaseTimeToLive int
  | RpcMemberList | RpcStatus | RpcAuthStatus

datatype rpc_response =
    RespRange RangeResponse | RespPut PutResponse | RespDeleteRange DeleteRangeResponse | RespTxn TxnResponse
  | RespCompact ResponseHeader | RespLeaseGrant LeaseGrantResponse | RespLeaseRevoke ResponseHeader
  | RespLeaseTimeToLive LeaseTimeToLiveResponse | RespMemberList MemberListResponse
  | RespStatus StatusResponse | RespAuthStatus bool

fun FullMethod :: "rpc \<Rightarrow> string" where
  "FullMethod (RpcRange r) = ''/etcdserverpb.KV/Range''"
| "FullMethod (RpcPut r) = ''/etcdserverpb.KV/Put''"
| "FullMethod (RpcDeleteRange r) = ''/etcdserverpb.KV/DeleteRange''"
| "FullMethod (RpcTxn r) = ''/etcdserverpb.KV/Txn''"
| "FullMethod (RpcCompact n) = ''/etcdserverpb.KV/Compact''"
| "FullMethod (RpcLeaseGrant n) = ''/etcdserverpb.Lease/LeaseGrant''"
| "FullMethod (RpcLeaseRevoke n) = ''/etcdserverpb.Lease/LeaseRevoke''"
| "FullMethod (RpcLeaseTimeToLive n) = ''/etcdserverpb.Lease/LeaseTimeToLive''"
| "FullMethod RpcMemberList = ''/etcdserverpb.Cluster/MemberList''"
| "FullMethod RpcStatus = ''/etcdserverpb.Maintenance/Status''"
| "FullMethod RpcAuthStatus = ''/etcdserverpb.Auth/AuthStatus''"

section \<open>The process\<close>

record server =
  sv_auth :: AuthServer
  sv_cluster :: ClusterServer
  sv_maintenance :: MaintenanceServer
  sv_leases :: LeaseManager
  sv_watcher :: Watcher
  sv_poll :: poll_state
  sv_jobs :: "int list"

text \<open>
  What a handler works on: the leases, the deletions that \<open>Compact\<close> leaves to the background,
  and the world.
\<close>

type_synonym core = "LeaseManager \<times> int list \<times> world"

fun lift_resp :: "('a \<Rightarrow> rpc_response) \<Rightarrow> goerr + 'a \<Rightarrow> goerr + rpc_response" where
  "lift_resp f (Inl e) = Inl e"
| "lift_resp f (Inr x) = Inr (f x)"

fun dispatch_rpc :: "server \<Rightarrow> int \<Rightarrow> rpc \<Rightarrow> core \<Rightarrow> (goerr + rpc_response) \<times> core" where
  "dispatch_rpc sv now (RpcRange r) (lm, jobs, w) =
     (case KV_Range r w of (res, w1) \<Rightarrow> (lift_resp RespRange res, lm, jobs, w1))"
| "dispatch_rpc sv now (RpcPut r) (lm, jobs, w) =
     (case KV_Put r w of (res, w1) \<Rightarrow> (lift_resp RespPut res, lm, jobs, w1))"
| "dispatch_rpc sv now (RpcDeleteRange r) (lm, jobs, w) =
     (case KV_DeleteRange r w of (res, w1) \<Rightarrow> (lift_resp RespDeleteRange res, lm, jobs, w1))"
| "dispatch_rpc sv now (RpcTxn r) (lm, jobs, w) =
     (case KV_Txn r w of (res, w1) \<Rightarrow> (lift_resp RespTxn res, lm, jobs, w1))"
| "dispatch_rpc sv now (RpcCompact n) (lm, jobs, w) =
     (case KV_Compact (wrap64 n) w of
        (res, job, w1) \<Rightarrow>
          (lift_resp RespCompact res, lm, (case job of None \<Rightarrow> jobs | Some j \<Rightarrow> jobs @ [j]), w1))"
| "dispatch_rpc sv now (RpcLeaseGrant ttl) (lm, jobs, w) =
     (case LeaseGrant now ttl lm w of (res, lm1, w1) \<Rightarrow> (lift_resp RespLeaseGrant res, lm1, jobs, w1))"
| "dispatch_rpc sv now (RpcLeaseRevoke lid) (lm, jobs, w) =
     (case LeaseRevoke lid lm w of (res, lm1, w1) \<Rightarrow> (lift_resp RespLeaseRevoke res, lm1, jobs, w1))"
| "dispatch_rpc sv now (RpcLeaseTimeToLive lid) (lm, jobs, w) =
     (lift_resp RespLeaseTimeToLive (LeaseTimeToLive now lid lm), lm, jobs, w)"
| "dispatch_rpc sv now RpcMemberList (lm, jobs, w) =
     (Inr (RespMemberList (MemberList (sv_cluster sv))), lm, jobs, w)"
| "dispatch_rpc sv now RpcStatus (lm, jobs, w) =
     (case Maintenance_Status (sv_maintenance sv) w of (resp, w1) \<Rightarrow> (Inr (RespStatus resp), lm, jobs, w1))"
| "dispatch_rpc sv now RpcAuthStatus (lm, jobs, w) =
     (Inr (RespAuthStatus (AuthStatus (sv_auth sv))), lm, jobs, w)"

text \<open>\<open>loggingUnary\<close>: passes the result through and records the method with its outcome.\<close>

definition loggingUnary :: "string \<Rightarrow> ('s \<Rightarrow> (goerr + 'r) \<times> 's) \<Rightarrow> 's \<Rightarrow> (string \<times> string) \<times> (goerr + 'r) \<times> 's" where
  "loggingUnary full handler s =
     (case handler s of
        (res, s1) \<Rightarrow>
          ((shortMethod full, (case res of Inl e \<Rightarrow> ''error'' | Inr r \<Rightarrow> ''ok'')), res, s1))"

definition loggingStream :: "string \<Rightarrow> ('s \<Rightarrow> goerr option \<times> 's) \<Rightarrow> 's \<Rightarrow> (string \<times> string) \<times> goerr option \<times> 's" where
  "loggingStream full handler s =
     (case handler s of
        (err, s1) \<Rightarrow>
          ((shortMethod full, (case err of Some e \<Rightarrow> ''error'' | None \<Rightarrow> ''ok'')), err, s1))"

definition serve :: "int \<Rightarrow> metadata option \<Rightarrow> rpc \<Rightarrow> server \<times> world
    \<Rightarrow> (string \<times> string) \<times> (goerr + rpc_response) \<times> (server \<times> world)" where
  "serve now md r st =
     (case st of (sv, w) \<Rightarrow>
        (case loggingUnary (FullMethod r)
                (authUnaryInterceptor (sv_auth sv) now md (FullMethod r) (dispatch_rpc sv now r))
                (sv_leases sv, sv_jobs sv, w) of
           (m, res, lm, jobs, w1) \<Rightarrow> (m, res, sv\<lparr>sv_leases := lm, sv_jobs := jobs\<rparr>, w1)))"

section \<open>Goroutines\<close>

datatype action =
    Request int "metadata option" rpc
  | AuthAction auth_event
  | RunJob
  | AutoCompact StoreConfig
  | ExpiryTimer int "nat \<Rightarrow> bool" int
  | KeepAliveStream "keepalive_recv list"
  | ReloadLeases "nat \<Rightarrow> bool"
  | Poll poll_event
  | Replay string int "nat \<Rightarrow> bool"
  | WatchTurn int loop_event bool
  | ReadPartition "string \<Rightarrow> jmap option" string "(cs_row list \<times> goerr option \<times> bool) list" cs_state
  | Seed

text \<open>
  One action, \<open>None\<close> when it does not return.  The batches a change-stream partition hands to the
  watcher are dispatched in order.
\<close>

fun act :: "action \<Rightarrow> server \<times> world \<Rightarrow> (server \<times> world) option" where
  "act (Request now md r) st = Some (snd (snd (serve now md r st)))"
| "act (AuthAction ev) (sv, w) = Some (sv\<lparr>sv_auth := authStep ev (sv_auth sv)\<rparr>, w)"
| "act RunJob (sv, w) =
     (case sv_jobs sv of
        [] \<Rightarrow> Some (sv, w)
      | j # js \<Rightarrow> map_option (\<lambda>(n, w1). (sv\<lparr>sv_jobs := js\<rparr>, w1)) (compactRows j w))"
| "act (AutoCompact cfg) (sv, w) = map_option (Pair sv) (autoCompactTick cfg w)"
| "act (ExpiryTimer now stopped lid) (sv, w) =
     (case timerFired now stopped lid (sv_leases sv) w of (lm, w1) \<Rightarrow> Some (sv\<lparr>sv_leases := lm\<rparr>, w1))"
| "act (KeepAliveStream rs) (sv, w) =
     (case LeaseKeepAlive rs (sv_leases sv) of (sent, err, lm) \<Rightarrow> Some (sv\<lparr>sv_leases := lm\<rparr>, w))"
| "act (ReloadLeases stopped) (sv, w) =
     map_option (\<lambda>(lm, w1). (sv\<lparr>sv_leases := lm\<rparr>, w1)) (gcLoop 0 stopped (sv_leases sv) w)"
| "act (Poll ev) (sv, w) =
     (case pollStep ev (sv_poll sv) (sv_watcher sv) w of
        (ps, wt, w1) \<Rightarrow> Some (sv\<lparr>sv_poll := ps, sv_watcher := wt\<rparr>, w1))"
| "act (Replay p afterRev full) (sv, w) = map_option (\<lambda>(bs, ok, w1). (sv, w1)) (replay p afterRev full w)"
| "act (WatchTurn wid ev b) (sv, w) = (case watchLoopStep wid ev b w of (rs, res, w1) \<Rightarrow> Some (sv, w1))"
| "act (ReadPartition um rid qs st) (sv, w) =
     (case readPartition um rid qs st w of
        (st1, w1) \<Rightarrow>
          Some (sv\<lparr>sv_watcher :=
             fold dispatchEvents (drop (length (css_dispatched st)) (css_dispatched st1)) (sv_watcher sv)\<rparr>, w1))"
| "act Seed (sv, w) = (case SeedRevCounter w of (err, w1) \<Rightarrow> Some (sv, w1))"

inductive reach :: "server \<times> world \<Rightarrow> server \<times> world \<Rightarrow> bool" for st where
  reach_start: "reach st st"
| reach_act: "reach st st1 \<Longrightarrow> act a st1 = Some st2 \<Longrightarrow> reach st st2"

inductive_cases reach_actE: "reach st st'"

section \<open>Safety of the process\<close>

lemma dispatch_rpc_safe:
  "dispatch_rpc sv now r (lm, jobs, w) = (res, lm', jobs', w') \<Longrightarrow> safe w w'"
  by (cases r) (auto simp: wrap64_range split: prod.splits dest!: safe_calls)

lemma serve_safe:
  assumes "serve now md r (sv, w) = (m, res, sv', w')"
  shows "safe w w'"
  using assms
  by (auto simp: serve_def loggingUnary_def authUnaryInterceptor_def split: prod.splits if_splits
      dest: dispatch_rpc_safe)

lemma act_safe: "act a (sv, w) = Some (sv', w') \<Longrightarrow> safe w w'"
proof (cases a)
  case (Request now md r)
  assume "act a (sv, w) = Some (sv', w')"
  with Request serve_safe [of now md r sv w _ _ sv' w'] show ?thesis by (metis act.simps(1) option.inject prod.collapse)
qed (auto simp: SeedRevCounter_def split: list.splits prod.splits dest!: safe_calls)

lemma reach_safe: "reach (sv, w) (sv', w') \<Longrightarrow> safe w w'"
  by (induction "(sv', w')" arbitrary: sv' w' rule: reach.induct) (use act_safe safe_trans in fastforce)+

text \<open>
  C5: in every state a server process can reach, by requests in any order and by its background
  goroutines, the tables are well-formed: whatever calls fail, are aborted or lose their answer,
  and whatever other processes commit in between, as long as Spanner's timestamps increase, its
  ids are new and the other processes keep the tables well-formed themselves.
\<close>

theorem tables_well_formed:
  assumes "sound N (w_env w)" "room N (w_env w) (w_pos w) (w_db w)"
    and "reach (sv, w) (sv', w')" "w_pos w' \<le> N"
  shows "wf_db (w_db w')"
  using reach_safe [OF assms(3)] assms(1,2,4) by (auto simp: safe_def dest: room_wf)

text \<open>A first start: an empty database, five calls with increasing timestamps and their own ids.\<close>

definition start_env :: "nat \<Rightarrow> call_env" where
  "start_env i = \<lparr>ce_other = (\<lambda>db. db), ce_err = (\<lambda>q. None), ce_aborted = [], ce_fate = Committed,
     ce_ts = int i + 2, ce_id = (\<lambda>n. int i + 5 * int n)\<rparr>"

definition start_world :: world where
  "start_world = \<lparr>w_db = \<lparr>kv = [], kv_rev = Map.empty, kv_lease = [], kv_cs_cursors = []\<rparr>,
     w_env = start_env, w_pos = 0, w_notifyCh = []\<rparr>"

definition start_server :: server where
  "start_server = \<lparr>sv_auth = newAuthServer [] 0,
     sv_cluster = \<lparr>cs_memberID = 1, cs_clusterID = 1, cs_peerURLs = []\<rparr>,
     sv_maintenance = \<lparr>ms_memberID = 1, ms_clusterID = 1, ms_version = ''3.5.13''\<rparr>,
     sv_leases = newLeaseManager 0, sv_watcher = newWatcher,
     sv_poll = \<lparr>pl_lastRev = 1, pl_interval = pollInterval, pl_running = True\<rparr>, sv_jobs = []\<rparr>"

definition start_put :: PutRequest where
  "start_put = \<lparr>pr_Key = ''a'', pr_Value = Some ''1'', pr_Lease = 0, pr_PrevKv = False,
     pr_IgnoreValue = False, pr_IgnoreLease = False\<rparr>"

definition start_run :: "(server \<times> world) option" where
  "start_run = Option.bind (act Seed (start_server, start_world)) (act (Request 0 None (RpcPut start_put)))"

lemma start_ids: "int i + 5 * int m = int j + 5 * int n \<Longrightarrow> i < 5 \<Longrightarrow> j < 5 \<Longrightarrow> i = j"
  by presburger

lemma start_sound: "sound 5 (w_env start_world)" "room 5 (w_env start_world) (w_pos start_world) (w_db start_world)"
  using start_ids
  by (fastforce simp: sound_def room_def start_world_def start_env_def wf_db_def wf_rows_def inj_on_def)+

theorem tables_well_formed_witness:
  "case start_run of
     None \<Rightarrow> False
   | Some (sv, w) \<Rightarrow> length (kv (w_db w)) = 1 \<and> kv_rev (w_db w) CompactRevRow = Some 1 \<and> wf_db (w_db w)"
proof -
  have run: "case start_run of
      None \<Rightarrow> False
    | Some (sv, w) \<Rightarrow> length (kv (w_db w)) = 1 \<and> kv_rev (w_db w) CompactRevRow = Some 1 \<and> w_pos w \<le> 5"
    by code_simp
  then obtain sv w where w: "start_run = Some (sv, w)" "w_pos w \<le> 5"
    by (auto split: option.splits)
  then obtain st where "act Seed (start_server, start_world) = Some st"
    "act (Request 0 None (RpcPut start_put)) st = Some (sv, w)"
    by (metis start_run_def bind_eq_Some_conv)
  then have "reach (start_server, start_world) (sv, w)"
    by (metis reach_start reach_act)
  from tables_well_formed [OF start_sound this w(2)] run show ?thesis
    unfolding w(1) by simp
qed

section \<open>Refused requests\<close>

text \<open>
  With users configured, a request of the KV, lease, cluster or maintenance service without a
  valid token is answered with the error that makes clients log in again; no call reaches the
  database and the process is unchanged.
\<close>

lemma serve_refused:
  assumes "\<not> validate now md (sv_auth sv)" "r \<noteq> RpcAuthStatus"
  shows "snd (serve now md r (sv, w)) = (Inl invalidAuthTokenErr, sv, w)"
proof -
  have "\<not> isPublicMethod (FullMethod r)"
    using methods_need_token assms(2) by (cases r) simp_all
  with assms(1) show ?thesis by (simp add: serve_def loggingUnary_def authUnaryInterceptor_def)
qed

end
