(* ===== verification/Startup.thy ===== *)
theory Startup
  imports System
begin

text \<open>
  \<open>cmd/server/main.go\<close> and the assembly in \<open>pkg/server/server.go\<close>: the configuration from the
  environment and the command line, and the start of a server.  The process environment, the
  files, the TLS library and the errors of the Spanner clients are parameters; \<open>os.Exit\<close> is an
  error value.
\<close>

section \<open>The command line\<close>

record appConfig =
  ac_listenAddr :: string
  ac_metricsAddr :: string
  ac_spannerDatabase :: string
  ac_spannerChannels :: int
  ac_spannerMinSessions :: int
  ac_spannerMaxSessions :: int
  ac_spannerNativeMetrics :: bool
  ac_spannerReadLocation :: string
  ac_tlsCert :: string
  ac_tlsKey :: string
  ac_tlsCA :: string
  ac_authUsers :: string
  ac_authTokenTTL :: int
  ac_peerURLs :: "string list"
  ac_logLevel :: string
  ac_autoCompactInterval :: int
  ac_autoCompactAge :: int

datatype exit_reason =
    EmptyReadLocation | InvalidAutoCompactInterval string | InvalidAutoCompactAge string | MissingDatabase

definition server_envOr :: "(string \<Rightarrow> string) \<Rightarrow> string \<Rightarrow> string \<Rightarrow> string" where
  "server_envOr Getenv key dflt = (let v = Getenv key in if v \<noteq> [] then v else dflt)"

definition splitCSV :: "string \<Rightarrow> string list" where
  "splitCSV s = (if s = [] then [] else Split (CHR '','') s)"

definition defaultConfig :: "(string \<Rightarrow> string) \<Rightarrow> appConfig" where
  "defaultConfig Getenv =
     \<lparr>ac_listenAddr = server_envOr Getenv ''LISTEN_ADDR'' ''0.0.0.0:2379'',
      ac_metricsAddr = server_envOr Getenv ''METRICS_ADDR'' ''0.0.0.0:2381'',
      ac_spannerDatabase = server_envOr Getenv ''SPANNER_DATABASE'' [],
      ac_spannerChannels = 4, ac_spannerMinSessions = 10, ac_spannerMaxSessions = 100,
      ac_spannerNativeMetrics = False, ac_spannerReadLocation = [],
      ac_tlsCert = server_envOr Getenv ''TLS_CERT'' [], ac_tlsKey = server_envOr Getenv ''TLS_KEY'' [],
      ac_tlsCA = server_envOr Getenv ''TLS_CA'' [],
      ac_authUsers = server_envOr Getenv ''ETCD_AUTH_USERS'' [], ac_authTokenTTL = 0,
      ac_peerURLs = splitCSV (server_envOr Getenv ''PEER_URLS'' []),
      ac_logLevel = server_envOr Getenv ''LOG_LEVEL'' ''info'',
      ac_autoCompactInterval = 0, ac_autoCompactAge = 0\<rparr>"

definition parseInterval :: "string \<Rightarrow> exit_reason + int" where
  "parseInterval val =
     (if val = ''0'' \<or> val = ''off'' \<or> val = ''disable'' then Inr (-1)
      else (case ParseDuration val of
              None \<Rightarrow> Inl (InvalidAutoCompactInterval val)
            | Some d \<Rightarrow> if d = 0 then Inr (-1) else Inr d))"

definition parseFlag :: "string \<Rightarrow> appConfig \<Rightarrow> exit_reason + appConfig" where
  "parseFlag arg cfg =
     (if HasPrefix arg ''--listen-address='' then Inr (cfg\<lparr>ac_listenAddr := TrimPrefix arg ''--listen-address=''\<rparr>)
      else if HasPrefix arg ''--metrics-addr='' then Inr (cfg\<lparr>ac_metricsAddr := TrimPrefix arg ''--metrics-addr=''\<rparr>)
      else if arg = ''--spanner-native-metrics'' then Inr (cfg\<lparr>ac_spannerNativeMetrics := True\<rparr>)
      else if HasPrefix arg ''--spanner-read-location='' then
        (let val = TrimSpace (TrimPrefix arg ''--spanner-read-location='')
         in if val = [] then Inl EmptyReadLocation else Inr (cfg\<lparr>ac_spannerReadLocation := val\<rparr>))
      else if HasPrefix arg ''--spanner-database='' then
        Inr (cfg\<lparr>ac_spannerDatabase := TrimPrefix arg ''--spanner-database=''\<rparr>)
      else if HasPrefix arg ''--tls-cert='' then Inr (cfg\<lparr>ac_tlsCert := TrimPrefix arg ''--tls-cert=''\<rparr>)
      else if HasPrefix arg ''--tls-key='' then Inr (cfg\<lparr>ac_tlsKey := TrimPrefix arg ''--tls-key=''\<rparr>)
      else if HasPrefix arg ''--tls-ca='' then Inr (cfg\<lparr>ac_tlsCA := TrimPrefix arg ''--tls-ca=''\<rparr>)
      else if HasPrefix arg ''--auth-users='' then Inr (cfg\<lparr>ac_authUsers := TrimPrefix arg ''--auth-users=''\<rparr>)
      else if HasPrefix arg ''--auth-token-ttl='' then
        Inr (case ParseDuration (TrimPrefix arg ''--auth-token-ttl='') of
               Some d \<Rightarrow> cfg\<lparr>ac_authTokenTTL := d\<rparr> | None \<Rightarrow> cfg)
      else if HasPrefix arg ''--log-level='' then Inr (cfg\<lparr>ac_logLevel := TrimPrefix arg ''--log-level=''\<rparr>)
      else if HasPrefix arg ''--peer-urls='' then Inr (cfg\<lparr>ac_peerURLs := splitCSV (TrimPrefix arg ''--peer-urls='')\<rparr>)
      else if HasPrefix arg ''--auto-compact-interval='' then
        (case parseInterval (TrimPrefix arg ''--auto-compact-interval='') of
           Inl e \<Rightarrow> Inl e | Inr d \<Rightarrow> Inr (cfg\<lparr>ac_autoCompactInterval := d\<rparr>))
      else if HasPrefix arg ''--auto-compact-age='' then
        (case ParseDuration (TrimPrefix arg ''--auto-compact-age='') of
           None \<Rightarrow> Inl (InvalidAutoCompactAge (TrimPrefix arg ''--auto-compact-age=''))
         | Some d \<Rightarrow> Inr (cfg\<lparr>ac_autoCompactAge := d\<rparr>))
      else Inr cfg)"

fun parseArgs :: "string list \<Rightarrow> appConfig \<Rightarrow> exit_reason + appConfig" where
  "parseArgs [] cfg = Inr cfg"
| "parseArgs (arg # args) cfg = (case parseFlag arg cfg of Inl e \<Rightarrow> Inl e | Inr cfg1 \<Rightarrow> parseArgs args cfg1)"

definition parseFlags :: "(string \<Rightarrow> string) \<Rightarrow> string list \<Rightarrow> exit_reason + appConfig" where
  "parseFlags Getenv args =
     (case parseArgs args (defaultConfig Getenv) of
        Inl e \<Rightarrow> Inl e
      | Inr cfg \<Rightarrow> if ac_spannerDatabase cfg = [] then Inl MissingDatabase else Inr cfg)"

section \<open>Log levels\<close>

datatype zap_level =
    DebugLevel | InfoLevel | WarnLevel | ErrorLevel | DPanicLevel | PanicLevel | FatalLevel | InvalidLevel

fun gcpLevelEncoder :: "zap_level \<Rightarrow> string" where
  "gcpLevelEncoder DebugLevel = ''DEBUG''"
| "gcpLevelEncoder InfoLevel = ''INFO''"
| "gcpLevelEncoder WarnLevel = ''WARNING''"
| "gcpLevelEncoder ErrorLevel = ''ERROR''"
| "gcpLevelEncoder DPanicLevel = ''CRITICAL''"
| "gcpLevelEncoder PanicLevel = ''CRITICAL''"
| "gcpLevelEncoder FatalLevel = ''CRITICAL''"
| "gcpLevelEncoder InvalidLevel = ''DEFAULT''"

text \<open>
  \<open>buildLogger\<close>: the parts of the configuration it sets.  The production configuration of the logging
  library and its reading of a level name are parameters; a name it cannot read means \<open>info\<close>.
\<close>

record logger_config =
  lg_Level :: zap_level
  lg_TimeKey :: string
  lg_MessageKey :: string
  lg_LevelKey :: string
  lg_CallerKey :: string
  lg_EncodeLevel :: "zap_level \<Rightarrow> string"

definition buildLogger :: "logger_config \<Rightarrow> (string \<Rightarrow> zap_level option) \<Rightarrow> string \<Rightarrow> logger_config" where
  "buildLogger production UnmarshalText level =
     production\<lparr>lg_Level := (case UnmarshalText level of Some l \<Rightarrow> l | None \<Rightarrow> InfoLevel), lg_TimeKey := ''time'',
       lg_MessageKey := ''message'', lg_LevelKey := ''severity'', lg_CallerKey := ''caller'',
       lg_EncodeLevel := gcpLevelEncoder\<rparr>"

section \<open>The gRPC server\<close>

definition defaultVersion :: string where
  "defaultVersion = ''3.5.13''"

definition defaultClusterID :: int where
  "defaultClusterID = 0x1234567890abcdef"

definition defaultMemberID :: int where
  "defaultMemberID = 0xfedcba9876543210"

record Config =
  cf_ListenAddr :: string
  cf_TLSCert :: string
  cf_TLSKey :: string
  cf_TLSCAFile :: string
  cf_MetricsAddr :: string
  cf_AuthUsers :: string
  cf_AuthTokenTTL :: int
  cf_PeerURLs :: "string list"
  cf_Version :: string
  cf_MemberID :: int
  cf_ClusterID :: int

text \<open>
  The transport: plain, or TLS from version 1.2 on with a key pair and, for mutual TLS, the
  bundle that client certificates must be signed by.
\<close>

datatype transport = Plaintext | ServerTLS "string \<times> string" "string option"

record tls_library =
  LoadX509KeyPair :: "string \<Rightarrow> string \<Rightarrow> goerr option"
  os_ReadFile :: "string \<Rightarrow> goerr + string"
  AppendCertsFromPEM :: "string \<Rightarrow> bool"

definition buildServerCreds :: "tls_library \<Rightarrow> string \<Rightarrow> string \<Rightarrow> string \<Rightarrow> goerr + transport" where
  "buildServerCreds tls certFile keyFile caFile =
     (case LoadX509KeyPair tls certFile keyFile of
        Some e \<Rightarrow> Inl e
      | None \<Rightarrow>
          (if caFile \<noteq> [] then
             (case os_ReadFile tls caFile of
                Inl e \<Rightarrow> Inl (Wrapped ''read CA file'' e)
              | Inr caBytes \<Rightarrow>
                  if \<not> AppendCertsFromPEM tls caBytes then Inl (Errorf ''failed to parse CA cert'')
                  else Inr (ServerTLS (certFile, keyFile) (Some caBytes)))
           else Inr (ServerTLS (certFile, keyFile) None)))"

definition setDefaults :: "Config \<Rightarrow> Config" where
  "setDefaults cfg =
     (let cfg1 = (if cf_Version cfg = [] then cfg\<lparr>cf_Version := defaultVersion\<rparr> else cfg);
          cfg2 = (if cf_MemberID cfg1 = 0 then cfg1\<lparr>cf_MemberID := defaultMemberID\<rparr> else cfg1)
      in (if cf_ClusterID cfg2 = 0 then cfg2\<lparr>cf_ClusterID := defaultClusterID\<rparr> else cfg2))"

text \<open>The store's parts are passed in; they are the lease manager, the watcher and its poll loop.\<close>

definition New :: "tls_library \<Rightarrow> LeaseManager \<Rightarrow> Watcher \<Rightarrow> poll_state \<Rightarrow> Config \<Rightarrow> goerr + server \<times> transport" where
  "New tls lm wt ps cfg0 =
     (let cfg = setDefaults cfg0;
          auth = newAuthServer (parseUsers (cf_AuthUsers cfg)) (cf_AuthTokenTTL cfg);
          creds = (if cf_TLSCert cfg \<noteq> [] \<and> cf_TLSKey cfg \<noteq> []
                   then map_sum (Wrapped ''load TLS creds'') id
                          (buildServerCreds tls (cf_TLSCert cfg) (cf_TLSKey cfg) (cf_TLSCAFile cfg))
                   else Inr Plaintext)
      in (case creds of
            Inl e \<Rightarrow> Inl e
          | Inr tr \<Rightarrow>
              Inr (\<lparr>sv_auth = auth,
                    sv_cluster = \<lparr>cs_memberID = cf_MemberID cfg, cs_clusterID = cf_ClusterID cfg,
                                  cs_peerURLs = cf_PeerURLs cfg\<rparr>,
                    sv_maintenance = \<lparr>ms_memberID = cf_MemberID cfg, ms_clusterID = cf_ClusterID cfg,
                                      ms_version = cf_Version cfg\<rparr>,
                    sv_leases = lm, sv_watcher = wt, sv_poll = ps, sv_jobs = []\<rparr>, tr)))"

section \<open>The start\<close>

record spanner_config =
  sc_NumChannels :: int
  sc_MinOpened :: int
  sc_MaxOpened :: int
  sc_DisableNativeMetrics :: bool
  sc_ReadLocation :: "string option"

definition spannerConfig :: "appConfig \<Rightarrow> spanner_config" where
  "spannerConfig cfg =
     \<lparr>sc_NumChannels = ac_spannerChannels cfg, sc_MinOpened = ac_spannerMinSessions cfg,
      sc_MaxOpened = ac_spannerMaxSessions cfg, sc_DisableNativeMetrics = (\<not> ac_spannerNativeMetrics cfg),
      sc_ReadLocation = (if ac_spannerReadLocation cfg \<noteq> [] then Some (ac_spannerReadLocation cfg) else None)\<rparr>"

definition serverConfig :: "appConfig \<Rightarrow> Config" where
  "serverConfig cfg =
     \<lparr>cf_ListenAddr = ac_listenAddr cfg, cf_TLSCert = ac_tlsCert cfg, cf_TLSKey = ac_tlsKey cfg,
      cf_TLSCAFile = ac_tlsCA cfg, cf_MetricsAddr = ac_metricsAddr cfg, cf_AuthUsers = ac_authUsers cfg,
      cf_AuthTokenTTL = ac_authTokenTTL cfg, cf_PeerURLs = ac_peerURLs cfg, cf_Version = [],
      cf_MemberID = 0, cf_ClusterID = 0\<rparr>"

text \<open>
  What the surroundings of a start do: the errors of the admin client, of the DDL request and its
  operation and of the data client, and the clock.
\<close>

record start_outcome =
  so_adminErr :: "goerr option"
  so_ddlErr :: "goerr option"
  so_waitErr :: "goerr option"
  so_client :: "spanner_config \<Rightarrow> goerr option"
  so_now :: int

text \<open>
  \<open>run\<close> up to \<open>Serve\<close>.  The first call of the poll goroutine is made here, before the first
  request.
\<close>

definition run_server :: "start_outcome \<Rightarrow> tls_library \<Rightarrow> appConfig \<Rightarrow> world
    \<Rightarrow> (goerr + server \<times> transport \<times> StoreConfig \<times> bool) \<times> world" where
  "run_server so tls cfg w =
     (case so_adminErr so of
        Some e \<Rightarrow> (Inl (Wrapped ''create spanner admin client'' e), w)
      | None \<Rightarrow>
          (case Ensure (so_ddlErr so) (so_waitErr so) of
             Some e \<Rightarrow> (Inl (Wrapped ''schema'' e), w)
           | None \<Rightarrow>
               (case so_client so (spannerConfig cfg) of
                  Some e \<Rightarrow> (Inl (Wrapped ''create spanner client'' e), w)
                | None \<Rightarrow>
                    (case SeedRevCounter w of
                       (Some e, w1) \<Rightarrow> (Inl (Wrapped ''seed revision counter'' e), w1)
                     | (None, w1) \<Rightarrow>
                         (case NewWithConfig \<lparr>AutoCompactInterval = ac_autoCompactInterval cfg,
                                             AutoCompactAge = ac_autoCompactAge cfg\<rparr> of
                            Inl e \<Rightarrow> (Inl (Wrapped ''create store'' e), w1)
                          | Inr (scfg, looping) \<Rightarrow>
                              (case pollStart w1 of
                                 (ps, w2) \<Rightarrow>
                                   (case New tls (newLeaseManager (so_now so)) newWatcher ps (serverConfig cfg) of
                                      Inl e \<Rightarrow> (Inl (Wrapped ''create server'' e), w2)
                                    | Inr (sv, tr) \<Rightarrow> (Inr (sv, tr, scfg, looping), w2))))))))"

section \<open>Serving\<close>

text \<open>
  \<open>Serve\<close>: the error of the listener, and how serving ends: by the end of the context, with the
  requests in progress done in time or cut off after ten seconds, or by an error of gRPC.  The
  token collection is stopped once the listener was open.
\<close>

datatype serve_end = ContextDone bool | GrpcReturned "goerr option"

definition Serve :: "Config \<Rightarrow> goerr option \<Rightarrow> serve_end \<Rightarrow> server \<Rightarrow> goerr option \<times> bool \<times> server" where
  "Serve cfg listenErr ende sv =
     (case listenErr of
        Some e \<Rightarrow> (Some (Wrapped (''listen '' @ cf_ListenAddr cfg) e), False, sv)
      | None \<Rightarrow>
          (let sv1 = sv\<lparr>sv_auth := auth_close (sv_auth sv)\<rparr>
           in (case ende of
                 ContextDone in_time \<Rightarrow> (None, \<not> in_time, sv1)
               | GrpcReturned err \<Rightarrow> (err, False, sv1))))"

text \<open>\<open>Addr\<close>, with the address of the listener once there is one.\<close>

definition Addr :: "string option \<Rightarrow> Config \<Rightarrow> string" where
  "Addr listener cfg = (case listener of Some a \<Rightarrow> a | None \<Rightarrow> cf_ListenAddr cfg)"

text \<open>
  \<open>serveMetrics\<close>: whether it runs and at which address, and what a path is answered with; an
  \<open>http.ServeMux\<close> takes a pattern without a final slash literally.
\<close>

datatype http_answer = PromHandler | StatusOK string | StatusNotFound

definition metricsAddress :: "Config \<Rightarrow> string option" where
  "metricsAddress cfg = (if cf_MetricsAddr cfg \<noteq> [] then Some (cf_MetricsAddr cfg) else None)"

definition serveMetrics :: "string \<Rightarrow> http_answer" where
  "serveMetrics path =
     (if path = ''/metrics'' then PromHandler
      else if path = ''/healthz'' then StatusOK ''ok''
      else StatusNotFound)"

text \<open>
  \<open>main\<close>, with its exit status: the flags, the logger, \<open>run\<close> and \<open>Serve\<close>.
\<close>

definition server_main :: "(string \<Rightarrow> string) \<Rightarrow> string list \<Rightarrow> goerr option \<Rightarrow> start_outcome \<Rightarrow> tls_library
    \<Rightarrow> goerr option \<Rightarrow> serve_end \<Rightarrow> world \<Rightarrow> int \<times> world" where
  "server_main Getenv args loggerErr so tls listenErr ende w =
     (case parseFlags Getenv args of
        Inl reason \<Rightarrow> (1, w)
      | Inr cfg \<Rightarrow>
          if loggerErr \<noteq> None then (1, w)
          else
            (case run_server so tls cfg w of
               (Inl e, w1) \<Rightarrow> (1, w1)
             | (Inr (sv, tr, scfg, looping), w1) \<Rightarrow>
                 (case Serve (setDefaults (serverConfig cfg)) listenErr ende sv of
                    (Some e, _) \<Rightarrow> (1, w1)
                  | (None, _) \<Rightarrow> (0, w1))))"

section \<open>What a configuration means\<close>

lemma parseFlags_database: "parseFlags Getenv args = Inr cfg \<Longrightarrow> ac_spannerDatabase cfg \<noteq> []"
  by (auto simp: parseFlags_def split: sum.splits if_splits)

text \<open>
  The flag for the interval never yields 0, which would mean the default: whoever writes a zero
  switches the compaction off, and the loop of the store then runs exactly for a positive interval.
\<close>

lemma parseInterval_nonzero: "parseInterval val = Inr d \<Longrightarrow> d \<noteq> 0"
  by (auto simp: parseInterval_def split: option.splits if_splits)

lemma interval_loop:
  assumes "parseInterval val = Inr d" "NewWithConfig \<lparr>AutoCompactInterval = d, AutoCompactAge = age\<rparr> = Inr (scfg, looping)"
  shows "looping \<longleftrightarrow> 0 < d" "looping \<Longrightarrow> AutoCompactInterval scfg = d"
  using parseInterval_nonzero [OF assms(1)] assms(2)
  by (auto simp: NewWithConfig_def Let_def split: if_splits)

lemma interval_whole:
  assumes "unitMap u = Some k" "0 < n" "int n * k < 2 ^ 63" "0 < k"
  shows "parseInterval (nat_str n @ u) = Inr (int n * k)"
proof -
  have "nat_str n @ u \<noteq> ''0''" "nat_str n @ u \<noteq> ''off''" "nat_str n @ u \<noteq> ''disable''"
  proof -
    have d: "isDigit (hd (nat_str n @ u))" using nat_str_digits [of "hd (nat_str n)" n] by simp
    have "\<not> isDigit (hd ''off'')" "\<not> isDigit (hd ''disable'')" by (simp_all add: isDigit_def)
    with d show "nat_str n @ u \<noteq> ''off''" "nat_str n @ u \<noteq> ''disable''" by metis+
    have "u \<noteq> []" using assms(1) by (auto simp: unitMap_def)
    then show "nat_str n @ u \<noteq> ''0''" by (cases "nat_str n") auto
  qed
  then show ?thesis using ParseDuration_whole [OF assms(1,3)] assms(2,4) by (simp add: parseInterval_def)
qed

lemma interval_off: "parseInterval ''0'' = Inr (-1)" "parseInterval ''off'' = Inr (-1)"
  "parseInterval ''disable'' = Inr (-1)" "parseInterval ''0s'' = Inr (-1)"
  by code_simp+

text \<open>
  Client certificates are required exactly when a certificate, a key and a CA file are all given;
  with only one half of the key pair the server speaks plain text.
\<close>

lemma New_transport:
  assumes "New tls lm wt ps cfg = Inr (sv, tr)"
  shows "tr = Plaintext \<longleftrightarrow> cf_TLSCert cfg = [] \<or> cf_TLSKey cfg = []"
    "(\<exists>kp ca. tr = ServerTLS kp (Some ca)) \<longleftrightarrow> cf_TLSCert cfg \<noteq> [] \<and> cf_TLSKey cfg \<noteq> [] \<and> cf_TLSCAFile cfg \<noteq> []"
proof -
  have [simp]: "cf_TLSCert (setDefaults cfg) = cf_TLSCert cfg" "cf_TLSKey (setDefaults cfg) = cf_TLSKey cfg"
    "cf_TLSCAFile (setDefaults cfg) = cf_TLSCAFile cfg"
    by (simp_all add: setDefaults_def Let_def)
  show "tr = Plaintext \<longleftrightarrow> cf_TLSCert cfg = [] \<or> cf_TLSKey cfg = []"
    "(\<exists>kp ca. tr = ServerTLS kp (Some ca)) \<longleftrightarrow> cf_TLSCert cfg \<noteq> [] \<and> cf_TLSKey cfg \<noteq> [] \<and> cf_TLSCAFile cfg \<noteq> []"
    using assms
    by (auto simp: New_def Let_def buildServerCreds_def split: sum.splits option.splits if_splits)
qed

theorem half_tls_is_plaintext:
  "case New \<lparr>LoadX509KeyPair = (\<lambda>c k. None), os_ReadFile = (\<lambda>f. Inr f), AppendCertsFromPEM = (\<lambda>b. True)\<rparr>
          (newLeaseManager 0) newWatcher \<lparr>pl_lastRev = 1, pl_interval = pollInterval, pl_running = True\<rparr>
          \<lparr>cf_ListenAddr = [], cf_TLSCert = ''server.crt'', cf_TLSKey = [], cf_TLSCAFile = ''ca.crt'', cf_MetricsAddr = [],
           cf_AuthUsers = [], cf_AuthTokenTTL = 0, cf_PeerURLs = [], cf_Version = [], cf_MemberID = 0, cf_ClusterID = 0\<rparr> of
     Inl e \<Rightarrow> False | Inr (sv, tr) \<Rightarrow> tr = Plaintext"
  by (simp add: New_def setDefaults_def Let_def)

text \<open>A lifetime that cannot be read is ignored, where an interval or an age that cannot be read ends the start.\<close>

lemma bad_ttl_ignored: "parseFlag ''--auth-token-ttl=5'' cfg = Inr cfg"
proof -
  have "ParseDuration ''5'' = None" by code_simp
  then show ?thesis by (simp add: parseFlag_def HasPrefix_def TrimPrefix_def)
qed

section \<open>The state after a start\<close>

lemma run_server_safe: "run_server so tls cfg w = (res, w') \<Longrightarrow> safe w w'"
  by (auto simp: run_server_def SeedRevCounter_def split: option.splits prod.splits sum.splits
      dest!: safe_calls intro: safe_trans)

text \<open>
  A server that came up takes its users from the configuration, and refuses every request of its
  clients until somebody has logged in.
\<close>

lemma run_server_auth:
  assumes "run_server so tls cfg w = (Inr (sv, tr, scfg, looping), w')"
  shows "sv_auth sv = newAuthServer (parseUsers (ac_authUsers cfg)) (ac_authTokenTTL cfg)"
  using assms
  by (auto simp: run_server_def New_def Let_def setDefaults_def serverConfig_def
      split: option.splits prod.splits sum.splits if_splits)

lemma first_login_needed:
  assumes "run_server so tls cfg w = (Inr (sv, tr, scfg, looping), w')"
    and "ac_authUsers cfg = show_users us" "us \<noteq> []" "\<forall>u \<in> set us. user_ok u" "r \<noteq> RpcAuthStatus"
  shows "snd (serve now md r (sv, w1)) = (Inl invalidAuthTokenErr, sv, w1)"
proof (rule serve_refused [OF _ assms(5)])
  have "map_of (parseUsers (show_users us)) = map_of (rev us)" by (rule parseUsers_show [OF assms(4)])
  moreover obtain n p where "(n, p) \<in> set us" using assms(3) by (cases us) auto
  then have "map_of (rev us) n \<noteq> None" by (metis fst_conv image_eqI map_of_eq_None_iff set_rev)
  ultimately have "parseUsers (show_users us) \<noteq> []" by auto
  then show "\<not> validate now md (sv_auth sv)"
    using assms(2) by (auto simp: run_server_auth [OF assms(1)] validate_def newAuthServer_def)
qed

text \<open>
  The process ends with status 0 exactly when it came up, was listening and was asked to stop, or
  its gRPC server returned without an error; a start that fails writes nothing but what is safe.
\<close>

lemma server_main_exit:
  assumes "parseFlags Getenv args = Inr cfg" "run_server so tls cfg w = (res, w1)"
    "server_main Getenv args loggerErr so tls listenErr ende w = (status, w')"
  shows "status = 0 \<longleftrightarrow>
    loggerErr = None \<and> (\<exists>up. res = Inr up) \<and> listenErr = None \<and> (\<forall>e. ende \<noteq> GrpcReturned (Some e))"
  using assms
  by (auto simp: server_main_def Serve_def Let_def split: option.splits sum.splits prod.splits serve_end.splits if_splits)

lemma server_main_safe: "server_main Getenv args loggerErr so tls listenErr ende w = (status, w') \<Longrightarrow> safe w w'"
  by (auto simp: server_main_def dest: run_server_safe split: sum.splits if_splits prod.splits option.splits)

end
