(* ===== verification/Migrate.thy ===== *)
theory Migrate
  imports System
begin

text \<open>
  \<open>cmd/migrate/main.go\<close>: copies the keys of an etcd into a destination, page by page, and
  compares them.  The two clients are parameters: \<open>src\<close> answers the range requests of the
  source, numbered; \<open>put\<close> and \<open>get\<close> are the requests to the destination, over its state.  Log
  lines are left out.
\<close>

section \<open>Configuration\<close>

record migrate_config =
  mc_src :: string
  mc_srcUser :: string
  mc_srcPassword :: string
  mc_dst :: string
  mc_dstCACert :: string
  mc_dstCert :: string
  mc_dstKey :: string
  mc_batchSize :: int
  mc_verify :: bool
  mc_dryRun :: bool
  mc_logLevel :: string

definition envOr :: "(string \<Rightarrow> string) \<Rightarrow> string \<Rightarrow> string \<Rightarrow> string" where
  "envOr Getenv key dflt = (let v = Getenv key in if v \<noteq> [] then v else dflt)"

text \<open>One argument; an argument that is not known is ignored.\<close>

definition migrate_flag :: "string \<Rightarrow> migrate_config \<Rightarrow> migrate_config" where
  "migrate_flag arg cfg =
     (if HasPrefix arg ''--src='' then cfg\<lparr>mc_src := TrimPrefix arg ''--src=''\<rparr>
      else if HasPrefix arg ''--src-user='' then cfg\<lparr>mc_srcUser := TrimPrefix arg ''--src-user=''\<rparr>
      else if HasPrefix arg ''--src-password='' then cfg\<lparr>mc_srcPassword := TrimPrefix arg ''--src-password=''\<rparr>
      else if HasPrefix arg ''--dst='' then cfg\<lparr>mc_dst := TrimPrefix arg ''--dst=''\<rparr>
      else if HasPrefix arg ''--dst-cacert='' then cfg\<lparr>mc_dstCACert := TrimPrefix arg ''--dst-cacert=''\<rparr>
      else if HasPrefix arg ''--dst-cert='' then cfg\<lparr>mc_dstCert := TrimPrefix arg ''--dst-cert=''\<rparr>
      else if HasPrefix arg ''--dst-key='' then cfg\<lparr>mc_dstKey := TrimPrefix arg ''--dst-key=''\<rparr>
      else if arg = ''--verify'' then cfg\<lparr>mc_verify := True\<rparr>
      else if arg = ''--no-verify'' then cfg\<lparr>mc_verify := False\<rparr>
      else if arg = ''--dry-run'' then cfg\<lparr>mc_dryRun := True\<rparr>
      else cfg)"

definition migrate_parseFlags :: "(string \<Rightarrow> string) \<Rightarrow> string list \<Rightarrow> migrate_config" where
  "migrate_parseFlags Getenv args =
     fold migrate_flag args
       \<lparr>mc_src = envOr Getenv ''SRC_ENDPOINT'' ''http://localhost:2379'', mc_srcUser = [], mc_srcPassword = [],
        mc_dst = envOr Getenv ''DST_ENDPOINT'' ''http://localhost:12379'', mc_dstCACert = [], mc_dstCert = [],
        mc_dstKey = [], mc_batchSize = 500, mc_verify = True, mc_dryRun = False, mc_logLevel = ''info''\<rparr>"

section \<open>Clients\<close>

text \<open>
  \<open>newClient\<close>: which credentials a client dials with, or why it cannot be built.  \<open>ReadFile\<close>,
  \<open>LoadX509KeyPair\<close> and the client library's \<open>New\<close> are parameters.
\<close>

datatype client_creds = Insecure | ClientTLS "string option" "(string \<times> string) option"

record client_config =
  cl_endpoint :: string
  cl_creds :: client_creds
  cl_user :: "(string \<times> string) option"

definition newClient :: "(string \<Rightarrow> goerr + string) \<Rightarrow> (string \<Rightarrow> string \<Rightarrow> goerr option) \<Rightarrow> (client_config \<Rightarrow> goerr option)
    \<Rightarrow> string \<Rightarrow> string \<Rightarrow> string \<Rightarrow> string \<Rightarrow> string \<Rightarrow> string \<Rightarrow> goerr + client_config" where
  "newClient ReadFile LoadKeyPair New endpoint user password cacert cert key =
     (let creds =
        (if cacert \<noteq> [] \<or> cert \<noteq> [] then
           (case (if cacert \<noteq> [] then map_sum (Wrapped ''read ca'') Some (ReadFile cacert) else Inr None) of
              Inl e \<Rightarrow> Inl e
            | Inr ca \<Rightarrow>
                if cert \<noteq> [] \<and> key \<noteq> [] then
                  (case LoadKeyPair cert key of
                     Some e \<Rightarrow> Inl (Wrapped ''load keypair'' e)
                   | None \<Rightarrow> Inr (ClientTLS ca (Some (cert, key))))
                else Inr (ClientTLS ca None))
         else Inr Insecure)
      in (case creds of
            Inl e \<Rightarrow> Inl e
          | Inr c \<Rightarrow>
              (let cfg = \<lparr>cl_endpoint = endpoint, cl_creds = c,
                          cl_user = (if user \<noteq> [] then Some (user, password) else None)\<rparr>
               in (case New cfg of Some e \<Rightarrow> Inl e | None \<Rightarrow> Inr cfg))))"

section \<open>The copy\<close>

type_synonym kvpair = "string \<times> string"

text \<open>The puts of a page: the accumulators are \<open>migrated\<close> and \<open>failed\<close>.\<close>

fun putPage :: "(string \<Rightarrow> string \<Rightarrow> 'd \<Rightarrow> goerr option \<times> 'd) \<Rightarrow> kvpair list \<Rightarrow> int \<Rightarrow> int \<Rightarrow> 'd \<Rightarrow> int \<times> int \<times> 'd" where
  "putPage put [] migrated failed d = (migrated, failed, d)"
| "putPage put ((key, val) # kvs) migrated failed d =
     (case put key val d of
        (Some e, d1) \<Rightarrow> putPage put kvs migrated (failed + 1) d1
      | (None, d1) \<Rightarrow> putPage put kvs (migrated + 1) failed d1)"

text \<open>\<open>printSample\<close>: the lines of a dry run, with the size of the value and its first 80 bytes.\<close>

definition printSample :: "kvpair list \<Rightarrow> nat \<Rightarrow> (string \<times> nat \<times> string) list" where
  "printSample kvs n =
     map (\<lambda>(key, val). (key, length val, if length val > 80 then take 80 val @ ''...'' else val)) (take n kvs)"

datatype copy_end = ReadFailed goerr | DryRun "(string \<times> nat \<times> string) list" | Copied int int

partial_function (option) copyPages :: "(nat \<Rightarrow> string \<Rightarrow> int \<Rightarrow> goerr + kvpair list)
    \<Rightarrow> (string \<Rightarrow> string \<Rightarrow> 'd \<Rightarrow> goerr option \<times> 'd) \<Rightarrow> bool \<Rightarrow> int
    \<Rightarrow> nat \<Rightarrow> string \<Rightarrow> int \<Rightarrow> int \<Rightarrow> 'd \<Rightarrow> (copy_end \<times> 'd) option" where
  "copyPages src put dryRun pageSize n lastKey migrated failed d =
     (let fromKey = (if lastKey = [] then zero_byte else lastKey)
      in (case src n fromKey pageSize of
            Inl e \<Rightarrow> Some (ReadFailed (Wrapped ''read source page'' e), d)
          | Inr kvs \<Rightarrow>
              (if kvs = [] then Some (Copied migrated failed, d)
               else if dryRun \<and> migrated = 0 then Some (DryRun (printSample (take 10 kvs) (min 10 (length kvs))), d)
               else
                 (case putPage put kvs migrated failed d of
                    (migrated1, failed1, d1) \<Rightarrow>
                      (if int (length kvs) < pageSize then Some (Copied migrated1 failed1, d1)
                       else copyPages src put dryRun pageSize (Suc n) (fst (last kvs) @ zero_byte)
                              migrated1 failed1 d1)))))"

section \<open>The comparison\<close>

record verify_counts =
  vc_ok :: int
  vc_missing :: int
  vc_wrong :: int

fun verifyEach :: "(string \<Rightarrow> 'd \<Rightarrow> (goerr + string list) \<times> 'd) \<Rightarrow> kvpair list \<Rightarrow> verify_counts \<Rightarrow> 'd \<Rightarrow> verify_counts \<times> 'd" where
  "verifyEach get [] c d = (c, d)"
| "verifyEach get ((key, val) # kvs) c d =
     (case get key d of
        (Inl e, d1) \<Rightarrow> verifyEach get kvs (c\<lparr>vc_missing := vc_missing c + 1\<rparr>) d1
      | (Inr [], d1) \<Rightarrow> verifyEach get kvs (c\<lparr>vc_missing := vc_missing c + 1\<rparr>) d1
      | (Inr (v # _), d1) \<Rightarrow>
          (if v \<noteq> val then verifyEach get kvs (c\<lparr>vc_wrong := vc_wrong c + 1\<rparr>) d1
           else verifyEach get kvs (c\<lparr>vc_ok := vc_ok c + 1\<rparr>) d1))"

definition verify :: "(string \<Rightarrow> int \<Rightarrow> goerr + kvpair list) \<Rightarrow> (string \<Rightarrow> 'd \<Rightarrow> (goerr + string list) \<times> 'd) \<Rightarrow> 'd
    \<Rightarrow> goerr option \<times> 'd" where
  "verify srcGet get d =
     (case srcGet [] 0 of
        Inl e \<Rightarrow> (Some (Wrapped ''verify read source'' e), d)
      | Inr kvs \<Rightarrow>
          (case verifyEach get kvs \<lparr>vc_ok = 0, vc_missing = 0, vc_wrong = 0\<rparr> d of
             (c, d1) \<Rightarrow>
               (if vc_missing c > 0 \<or> vc_wrong c > 0
                then (Some (Errorf (''verification failed: '' @ Itoa (vc_missing c) @ '' missing, '' @
                        Itoa (vc_wrong c) @ '' wrong value'')), d1)
                else (None, d1))))"

text \<open>The whole run once both clients are connected; the comparison reads the source again.\<close>

definition migrate_run :: "migrate_config \<Rightarrow> (nat \<Rightarrow> string \<Rightarrow> int \<Rightarrow> goerr + kvpair list) \<Rightarrow> (string \<Rightarrow> int \<Rightarrow> goerr + kvpair list)
    \<Rightarrow> (string \<Rightarrow> string \<Rightarrow> 'd \<Rightarrow> goerr option \<times> 'd) \<Rightarrow> (string \<Rightarrow> 'd \<Rightarrow> (goerr + string list) \<times> 'd) \<Rightarrow> 'd
    \<Rightarrow> (goerr option \<times> 'd) option" where
  "migrate_run cfg src srcGet put get d =
     (case copyPages src put (mc_dryRun cfg) (mc_batchSize cfg) 0 [] 0 0 d of
        None \<Rightarrow> None
      | Some (ReadFailed e, d1) \<Rightarrow> Some (Some e, d1)
      | Some (DryRun ls, d1) \<Rightarrow> Some (None, d1)
      | Some (Copied migrated failed, d1) \<Rightarrow>
          Some (if failed > 0 then (Some (Errorf (Itoa failed @ '' keys failed to migrate'')), d1)
                else if mc_verify cfg then verify srcGet get d1
                else (None, d1)))"

text \<open>
  \<open>run\<close> from its start: the two clients, and the copy when both could be built.  \<open>main\<close> ends with
  status 1 when it reports an error.
\<close>

definition migrate_clients :: "(string \<Rightarrow> goerr + string) \<Rightarrow> (string \<Rightarrow> string \<Rightarrow> goerr option) \<Rightarrow> (client_config \<Rightarrow> goerr option)
    \<Rightarrow> migrate_config \<Rightarrow> goerr + client_config \<times> client_config" where
  "migrate_clients ReadFile LoadKeyPair New cfg =
     (case newClient ReadFile LoadKeyPair New (mc_src cfg) (mc_srcUser cfg) (mc_srcPassword cfg) [] [] [] of
        Inl e \<Rightarrow> Inl (Wrapped ''source client'' e)
      | Inr src \<Rightarrow>
          (case newClient ReadFile LoadKeyPair New (mc_dst cfg) [] [] (mc_dstCACert cfg) (mc_dstCert cfg) (mc_dstKey cfg) of
             Inl e \<Rightarrow> Inl (Wrapped ''destination client'' e)
           | Inr dst \<Rightarrow> Inr (src, dst)))"

definition migrate_main :: "(string \<Rightarrow> goerr + string) \<Rightarrow> (string \<Rightarrow> string \<Rightarrow> goerr option) \<Rightarrow> (client_config \<Rightarrow> goerr option)
    \<Rightarrow> migrate_config \<Rightarrow> (nat \<Rightarrow> string \<Rightarrow> int \<Rightarrow> goerr + kvpair list) \<Rightarrow> (string \<Rightarrow> int \<Rightarrow> goerr + kvpair list)
    \<Rightarrow> (string \<Rightarrow> string \<Rightarrow> 'd \<Rightarrow> goerr option \<times> 'd) \<Rightarrow> (string \<Rightarrow> 'd \<Rightarrow> (goerr + string list) \<times> 'd) \<Rightarrow> 'd
    \<Rightarrow> (int \<times> 'd) option" where
  "migrate_main ReadFile LoadKeyPair New cfg src srcGet put get d =
     (case migrate_clients ReadFile LoadKeyPair New cfg of
        Inl e \<Rightarrow> Some (1, d)
      | Inr _ \<Rightarrow> map_option (\<lambda>(err, d1). (if err = None then 0 else 1, d1)) (migrate_run cfg src srcGet put get d))"

text \<open>The connection to the source never uses TLS, also when it sends a password.\<close>

lemma source_insecure:
  "migrate_clients ReadFile LoadKeyPair New cfg = Inr (s, d) \<Longrightarrow>
     cl_creds s = Insecure \<and> cl_user s = (if mc_srcUser cfg \<noteq> [] then Some (mc_srcUser cfg, mc_srcPassword cfg) else None)"
  by (auto simp: migrate_clients_def newClient_def Let_def split: sum.splits option.splits)

section \<open>The copy is complete\<close>

text \<open>
  What etcd documents of a range request from a key on with a limit, over a source that holds
  \<open>kvs\<close>: the pairs with a key at or after the start, in the order of the keys.
\<close>

definition from_page :: "kvpair list \<Rightarrow> string \<Rightarrow> int \<Rightarrow> kvpair list" where
  "from_page kvs fromKey limit = limitClause limit (filter (\<lambda>kv. fromKey \<le> fst kv) kvs)"

lemma zero_least: "CHR 0x00 \<le> c"
  by (simp add: less_eq_char_def)

lemma zero_byte_le: "zero_byte \<le> x \<longleftrightarrow> x \<noteq> []"
  using zero_least [of "hd x"] by (cases x) (simp_all add: zero_byte_def order_le_less [of "CHR 0x00"])

lemma append_zero_le: "k @ zero_byte \<le> x \<longleftrightarrow> k < (x :: string)"
proof (induction k arbitrary: x)
  case Nil
  then show ?case using zero_byte_le [of x] by (cases x) auto
next
  case (Cons c k)
  then show ?case by (cases x) auto
qed

lemma putPage_append:
  "putPage put (xs @ ys) m f d = (case putPage put xs m f d of (m1, f1, d1) \<Rightarrow> putPage put ys m1 f1 d1)"
  by (induction put xs m f d rule: putPage.induct) (auto split: prod.splits option.splits)

text \<open>After a full page, the pairs from the next start on are the ones not yet copied.\<close>

lemma next_page:
  assumes "sorted (map fst (xs @ ys @ zs))" "distinct (map fst (xs @ ys @ zs))" "ys \<noteq> []"
  shows "filter (\<lambda>kv. fst (last ys) @ zero_byte \<le> fst kv) (xs @ ys @ zs) = zs"
proof -
  let ?k = "fst (last ys)"
  obtain y ys' where ys: "ys = ys' @ [y]" using assms(3) by (cases ys rule: rev_cases) auto
  have "\<forall>x \<in> set (xs @ ys). \<not> ?k < fst x"
    using assms(1) by (auto simp: ys sorted_append not_less)
  moreover have "?k < fst x" if x: "x \<in> set zs" for x
  proof -
    have "?k \<le> fst x" using assms(1) x by (simp add: ys sorted_append)
    moreover have "?k \<notin> fst ` set zs" using assms(2) by (simp add: ys)
    ultimately show ?thesis using x by (metis image_eqI order_less_le)
  qed
  ultimately show ?thesis
    by (simp add: append_zero_le filter_empty_conv filter_id_conv del: filter_append)
      (simp add: filter_empty_conv filter_id_conv)
qed

lemma copyPages_complete:
  assumes "sorted (map fst kvs)" "distinct (map fst kvs)" "0 < P"
    and src: "\<And>n k. src n k P = Inr (from_page kvs k P)"
    and "kvs = xs @ ys" "filter (\<lambda>kv. (if lastKey = [] then zero_byte else lastKey) \<le> fst kv) kvs = ys"
  shows "copyPages src put False P n lastKey m f d =
    (case putPage put ys m f d of (m1, f1, d1) \<Rightarrow> Some (Copied m1 f1, d1))"
  using assms(5,6)
proof (induction ys arbitrary: xs n lastKey m f d rule: length_induct)
  case (1 ys)
  let ?page = "take (nat P) ys"
  have page: "src n (if lastKey = [] then zero_byte else lastKey) P = Inr ?page"
    using 1(3) assms(3) by (simp add: src from_page_def limitClause_def)
  show ?case
  proof (cases "int (length ?page) < P")
    case True
    then have "?page = ys" using assms(3) by (auto simp: min_def split: if_splits)
    with page True assms(3) show ?thesis
      by (subst copyPages.simps) (auto simp: Let_def split: prod.splits)
  next
    case False
    then have ne: "?page \<noteq> []" using assms(3) by auto
    let ?rest = "drop (nat P) ys" and ?next = "fst (last ?page) @ zero_byte"
    have kvs: "kvs = xs @ ?page @ ?rest" using 1(2) by simp
    have "filter (\<lambda>kv. ?next \<le> fst kv) kvs = ?rest"
      using next_page [of xs ?page ?rest] ne assms(1,2) kvs by simp
    then have filt: "filter (\<lambda>kv. (if ?next = [] then zero_byte else ?next) \<le> fst kv) kvs = ?rest"
      by (simp add: zero_byte_def)
    have len: "length ?rest < length ys" using ne assms(3) by (cases ys) auto
    have "kvs = (xs @ ?page) @ ?rest" using kvs by simp
    note IH = 1(1) [rule_format, OF len this filt]
    have step: "copyPages src put False P n lastKey m f d =
        (case putPage put ?page m f d of (m1, f1, d1) \<Rightarrow> copyPages src put False P (Suc n) ?next m1 f1 d1)"
      by (subst copyPages.simps) (simp only: Let_def page sum.case ne False if_False simp_thms)
    have "putPage put ys m f d =
        (case putPage put ?page m f d of (m1, f1, d1) \<Rightarrow> putPage put ?rest m1 f1 d1)"
      using putPage_append [of put ?page ?rest m f d] by (simp only: append_take_drop_id)
    then show ?thesis by (cases "putPage put ?page m f d") (simp only: step IH prod.case)
  qed
qed

section \<open>The comparison is exact\<close>

fun getAll :: "(string \<Rightarrow> 'd \<Rightarrow> (goerr + string list) \<times> 'd) \<Rightarrow> string list \<Rightarrow> 'd \<Rightarrow> (goerr + string list) list \<times> 'd" where
  "getAll get [] d = ([], d)"
| "getAll get (k # ks) d =
     (case get k d of (r, d1) \<Rightarrow> (case getAll get ks d1 of (rs, d2) \<Rightarrow> (r # rs, d2)))"

definition matches :: "kvpair \<Rightarrow> goerr + string list \<Rightarrow> bool" where
  "matches x r = (case r of Inr (v # _) \<Rightarrow> v = snd x | _ \<Rightarrow> False)"

lemma verifyEach_exact:
  assumes "verifyEach get kvs c d = (c', d')" "getAll get (map fst kvs) d = (rs, d2)"
    and "0 \<le> vc_missing c" "0 \<le> vc_wrong c"
  shows "d' = d2 \<and> vc_missing c \<le> vc_missing c' \<and> vc_wrong c \<le> vc_wrong c' \<and>
    (vc_missing c' = vc_missing c \<and> vc_wrong c' = vc_wrong c \<longleftrightarrow> list_all2 matches kvs rs)"
  using assms
proof (induction kvs arbitrary: c d rs)
  case (Cons x kvs)
  obtain key val where kv: "x = (key, val)" by fastforce
  obtain r d1 where r: "get key d = (r, d1)" by fastforce
  obtain rs' where rs: "getAll get (map fst kvs) d1 = (rs', d2)" "rs = r # rs'"
    using Cons.prems(2) kv r by (auto split: prod.splits)
  show ?case
  proof (cases "matches x r")
    case True
    then have "verifyEach get kvs (c\<lparr>vc_ok := vc_ok c + 1\<rparr>) d1 = (c', d')"
      using Cons.prems(1) kv r by (auto simp: matches_def split: sum.splits list.splits)
    from Cons.IH [OF this rs(1)] Cons.prems(3,4) True rs(2) show ?thesis by simp
  next
    case False
    then consider "verifyEach get kvs (c\<lparr>vc_missing := vc_missing c + 1\<rparr>) d1 = (c', d')"
      | "verifyEach get kvs (c\<lparr>vc_wrong := vc_wrong c + 1\<rparr>) d1 = (c', d')"
      using Cons.prems(1) kv r by (auto simp: matches_def split: sum.splits list.splits if_splits)
    then show ?thesis
    proof cases
      case 1
      from Cons.IH [OF 1 rs(1)] Cons.prems(3,4) False rs(2) show ?thesis by auto
    next
      case 2
      from Cons.IH [OF 2 rs(1)] Cons.prems(3,4) False rs(2) show ?thesis by auto
    qed
  qed
qed simp

lemma putPage_counts:
  "putPage put kvs m f d = (m1, f1, d1) \<Longrightarrow> m \<le> m1 \<and> f \<le> f1 \<and> m1 + f1 = m + f + int (length kvs)"
  by (induction put kvs m f d rule: putPage.induct) (fastforce split: prod.splits option.splits)+

section \<open>The run\<close>


text \<open>The destination's requests when it is this server: \<open>Put\<close> and \<open>Get\<close> of the client library.\<close>

definition server_put :: "string \<Rightarrow> string \<Rightarrow> world \<Rightarrow> goerr option \<times> world" where
  "server_put key val w =
     (case KV_Put \<lparr>pr_Key = key, pr_Value = Some val, pr_Lease = 0, pr_PrevKv = False,
                   pr_IgnoreValue = False, pr_IgnoreLease = False\<rparr> w of
        (Inl e, w1) \<Rightarrow> (Some e, w1)
      | (Inr resp, w1) \<Rightarrow> (None, w1))"

definition server_get :: "string \<Rightarrow> world \<Rightarrow> (goerr + string list) \<times> world" where
  "server_get key w =
     (case KV_Range \<lparr>rr_Key = key, rr_RangeEnd = [], rr_Limit = 0, rr_Revision = 0, rr_KeysOnly = False,
                     rr_CountOnly = False\<rparr> w of
        (Inl e, w1) \<Rightarrow> (Inl e, w1)
      | (Inr resp, w1) \<Rightarrow> (Inr (map (\<lambda>k. bytes_string (pk_Value k)) (rs_Kvs resp)), w1))"

definition demo_source :: "kvpair list" where
  "demo_source = [(''a'', ''1''), (''b'', ''2'')]"

definition demo_config :: migrate_config where
  "demo_config = migrate_parseFlags (\<lambda>v. []) [''--dst=x'', ''--no-verify'', ''--verify'']"


end
