(* ===== verification/Spec2Isabelle.thy ===== *)
theory Spec2Isabelle
  imports KV_Correct Stream_Steps Metrics Lifecycle Startup Migrate
begin

text \<open>
  A verification development of spanner-etcd, a server that speaks the protocol of etcd and keeps
  its data in Google Cloud Spanner, and of the tool that migrates an etcd into it.

  \<^bold>\<open>The program.\<close>  Every write is a row of the table \<open>kv\<close>; its revision is the commit timestamp.
  \<open>pkg/store\<close> reads and writes that log, compacts it, runs leases and feeds watchers, from a poll
  loop and from a change stream.  \<open>pkg/server\<close> puts the gRPC services of etcd on top, behind logging
  and authentication.  \<open>pkg/schema\<close> sets up the tables, \<open>cmd/server\<close> reads the configuration and
  starts everything, \<open>cmd/migrate\<close> is a client of two servers.

  \<^bold>\<open>The environment.\<close>  Spanner, its client library and the other replicas are not part of the
  source.  A \<open>world\<close> holds the tables and a sequence of \<open>call_env\<close>, one for each call of the
  program: what others commit before it, which statements fail, which attempts are aborted, whether
  the commit takes place and whether its answer arrives, the commit timestamp and the generated
  ids.  The theorems quantify over the world; what they need of it is a named hypothesis
  (\<open>fresh_env\<close>, \<open>lone\<close>, \<open>steady\<close>, \<open>quiet\<close>, \<open>env_ok\<close>, \<open>sound\<close>), and their witnesses show with the
  worlds of \<open>Demo\<close> and others like them that it can hold.  The clock, random bytes, the JSON
  parser, the TLS library and the etcd clients of the migration are arguments.

  \<^bold>\<open>Values.\<close>  An \<open>int64\<close> is an \<open>int\<close>, with \<open>wrap64\<close> where it can overflow; a \<open>[]byte\<close> is an
  optional string, \<open>None\<close> for nil; several results are a tuple that ends with the world.

  \<^bold>\<open>Theories.\<close>
  \<^item> \<open>Prelude\<close>, \<open>GoStd\<close>, \<open>GoText\<close>: Go's values and what is used of its standard library.
  \<^item> \<open>Spanner\<close>: tables, statements, transactions.  \<open>Schema\<close>: \<open>schema.go\<close>, setup and seeding.
  \<^item> \<open>Store\<close>, \<open>Store_Txn\<close>, \<open>Compaction\<close>: \<open>store.go\<close>.  \<open>Store_Log\<close> has the invariant \<open>wf_db\<close> and the
    abstraction \<open>abs_store\<close> from the log to a map from keys to entries.
  \<^item> \<open>Store_Writes\<close>, \<open>Store_Reads\<close>: what the operations of \<open>Store\<close> do to that map.  The locale
    \<open>txn_callback\<close> is the contract of a transaction's callback, interpreted on every write.
  \<^item> \<open>Demo\<close>, \<open>Steady\<close>: concrete worlds, and sequences of calls without interference.
  \<^item> \<open>KVServer\<close>: \<open>kv.go\<close>; \<open>KV_Correct\<close>: its handlers against the abstract store.
  \<^item> \<open>Lease\<close>: \<open>store/lease.go\<close> as sequential operations; \<open>Lease_Steps\<close>: its calls and goroutines
    interleaved.  \<open>Services\<close>: \<open>server/lease.go\<close>, \<open>cluster.go\<close>, \<open>maintenance.go\<close>.
  \<^item> \<open>Watch\<close>: \<open>store/watch.go\<close> as sequential operations; \<open>Watch_Steps\<close>: its goroutines interleaved.
    \<open>WatchServer\<close>: \<open>server/watch.go\<close> as sequential operations; \<open>Stream_Steps\<close>: the goroutines of one
    stream interleaved, with the context helpers of \<open>helpers.go\<close>.
  \<^item> \<open>ChangeStream\<close>: \<open>changestream.go\<close>.  \<open>Feeds\<close>: its reader with its workers interleaved, and the
    two sources of events of the watcher together.
  \<^item> \<open>Lifecycle\<close>: a store from \<open>New\<close> to \<open>Close\<close>, with all its background goroutines.
  \<^item> \<open>Metrics\<close>: \<open>metrics.go\<close>, and what the operations record.  The locale \<open>counting_gauge\<close> is the
    contract of a gauge that counts, interpreted on the watcher, the reader and the lease manager.
  \<^item> \<open>Auth\<close>: \<open>auth.go\<close>.
  \<^item> \<open>Safety\<close>: every operation keeps the tables well-formed.  \<open>System\<close>: one server process, its
    requests and background work as a step relation \<open>reach\<close>, and the logging of \<open>helpers.go\<close>.
  \<^item> \<open>Startup\<close>: \<open>cmd/server/main.go\<close> and \<open>server.go\<close>.  \<open>Migrate\<close>: \<open>cmd/migrate/main.go\<close>.
\<close>

text \<open>
  \<^bold>\<open>What is shown.\<close>
  \<^item> Writes: \<open>Create\<close>, \<open>Update\<close>, \<open>Delete\<close>, \<open>DeleteIfLease\<close> and \<open>AtomicTxn\<close> refine steps of the
    abstract store, on success and on refusal; a transaction is all or nothing for every failure.
  \<^item> Reads: \<open>Get\<close>, \<open>List\<close> and \<open>Count\<close> are snapshots at the revision they report.
  \<^item> Service: a \<open>Txn\<close> of single-key operations is atomic; the guarded writes of Kubernetes exclude
    each other; what ranges, \<open>Put\<close> and \<open>DeleteRange\<close> do.
  \<^item> Compaction returns, deletes exactly the superseded rows and never changes the current state.
  \<^item> Leases: what grant, revocation, timers and reload do, that expiry orphans no key, and that under
    every interleaving a lease in memory is taken care of until it is gone.
  \<^item> Watches: replay, polling, fan-out under every interleaving, ends of subscriptions, and the
    agreement of change records with the log.  A stream sends its client what was queued, in order,
    announces a watch before its events, and ends with its context.
  \<^item> Background: every initial partition of the change stream is read, \<open>Close\<close> ends the goroutines of a store, the
    gauges count what they say.
  \<^item> Access: a method that is not public runs exactly for a request with a valid token.
  \<^item> The whole process keeps the tables well-formed; a migration is exact.
  \<^item> Across components, in this theory: a \<open>Put\<close> wakes the poll loop and reaches the client of a watch
    with the revision the writer was told (\<open>put_reaches_watch\<close>).

  Other lemmas pin down behaviour a user of the code should know: a \<open>Put\<close> that is lost in a race
  (\<open>Put_lost\<close>), history that compaction removes (\<open>compaction_history\<close>), prefix reads that return
  more (\<open>Range_bare_prefix\<close>), gaps and repetitions of events (\<open>replay_gap\<close>, \<open>doPoll_drops\<close>,
  \<open>doPoll_repeats\<close>), watches of other keys (\<open>watch_delivers_other_keys\<close>, \<open>watch_misses_keys\<close>), the
  health flag (\<open>failed_stream_counts_as_healthy\<close>), late batches (\<open>sentinel_behind_stale_events\<close>),
  missing previous values (\<open>cs_event_lacks_prev\<close>), events that come twice (\<open>both_sources_deliver\<close>,
  \<open>replay_overlaps_dispatch\<close>), leases (\<open>Grant_overflow\<close>, \<open>reloaded_lease_ignores_keepalive\<close>,
  \<open>race_values\<close>), range deletes (\<open>DeleteRange_effect\<close>) and configuration (\<open>half_tls_is_plaintext\<close>,
  \<open>bad_ttl_ignored\<close>).

  \<^bold>\<open>Loops and bounds.\<close>  No fuel is used.  \<open>compactLoop\<close>, \<open>replayLoop\<close>, \<open>gcLoop\<close> and \<open>copyPages\<close> may
  run forever in a bad environment and are partial functions into \<open>option\<close>; that \<open>compactRows\<close>,
  \<open>replay\<close> and a migration return under the stated hypotheses is part of the theorems.  The loops
  that wait for events (poll loop, streams, change-stream reader, token collection) are given as
  one turn and the sequence of their events.  Interleaved goroutines are step functions into
  \<open>option\<close>, \<open>None\<close> for a step that is blocked; that they end is shown by a measure that every step
  towards the end decreases, and that some such step is possible as long as one of them runs.
  Batch sizes, channel depth and retry counts are those
  of the code.  The number \<open>N\<close> in \<open>lone\<close>, \<open>steady\<close> and \<open>sound\<close> bounds the calls an assumption speaks
  about; it is arbitrary, or the number of calls the operation makes.

  \<^bold>\<open>Not modelled.\<close>
  \<^item> What libraries do: Spanner, gRPC, HTTP, signals, the logger, Prometheus.  The log lines are left
    out; the help texts of the collectors are not data of the model.
  \<^item> Deadlines: one that passes is an error of the call it ends.
  \<^item> Interleaving below one call to Spanner in \<open>reach\<close>, where the actions of a process follow each
    other and other processes act between any two calls; \<open>Watch_Steps\<close>, \<open>Stream_Steps\<close>, \<open>Feeds\<close>,
    \<open>Lease_Steps\<close> and \<open>Lifecycle\<close> interleave the goroutines of one component each.
  \<^item> The memory model of Go: a step of an interleaving is atomic.  Shared variables are accessed under
    a mutex, as atomics or over channels in the code.
  \<^item> The health and reflection services, which are library code, tests, benchmarks, deployment files.
\<close>

section \<open>From a write to the client of a watch\<close>

text \<open>The poll that the notification of a write starts, when the poll loop has seen everything before.\<close>

lemma poll_sees_write:
  assumes "steady 3 (after_write r w)" "committed UNIV w" "w_notifyCh w = []" "r_rev r = ce_ts (this_call w)"
    and "pl_lastRev ps = current_rev (at_call w)" "compact_rev (at_call w) \<le> current_rev (at_call w)"
  shows "\<exists>w'. pollStep NotifyCh ps wt (after_write r w) =
    (ps\<lparr>pl_lastRev := r_rev r\<rparr>, dispatchEvents [rowEvent r] wt, w')"
proof -
  let ?db = "at_call w" and ?w = "(after_write r w)\<lparr>w_notifyCh := []\<rparr>"
  have st: "steady (Suc (Suc (Suc 0))) ?w"
    using assms(1) by (simp add: steady_def lone_def answered_def eval_nat_numeral)
  note s1 = steadyD [OF st] and s2 = steadyD [OF steady_served [OF st]]
    and s3 = steadyD [OF steady_served [OF steady_served [OF st]]]
  have at: "at_call ?w = append_row r ?db" "at_call (served ?w) = append_row r ?db"
    "at_call (served (served ?w)) = append_row r ?db"
    using s1(1) s2(1) s3(1) by simp_all
  have new: "\<forall>s \<in> set (kv ?db). r_rev s < r_rev r"
    using committedD(2) [OF assms(2)] assms(4) by (simp add: fresh_env_def)
  have wf: "wf_db (append_row r ?db)" using s1(4) by simp
  note n = newest_appended [OF committedD(1) [OF assms(2)] wf new]
  have pos: "1 \<le> current_rev ?db" by (rule current_rev_ge(2) [OF committedD(1) [OF assms(2)]])
  have "compact_rev (append_row r ?db) = compact_rev ?db" by (simp add: compact_rev_def)
  with doPoll_eq [of ?w "current_rev ?db" wt] wf s1(2) s2(2) s3(2) assms(6) pos n(1,2)
  have "\<exists>w'. doPoll (current_rev ?db) wt ?w = (r_rev r, dispatchEvents [rowEvent r] wt, w')"
    by (simp add: at after_query_def)
  moreover have "w_notifyCh (after_write r w) = [r_rev r]" using assms(3,4) by (simp add: after_write_def notify_def)
  ultimately show ?thesis using n(3) assms(5) by (auto simp: pollStep_def Let_def)
qed

text \<open>The response a watch makes of the event of a row that sets a value.\<close>

lemma response_of_write:
  assumes "wf_row r" "written r key val w0"
  shows "\<exists>ev. watchLoopStep wid (LoopEvents [rowEvent r]) False w =
      ([(watchResponse (r_rev r) wid)\<lparr>wr_Events := [ev]\<rparr>], LoopGoOn, w) \<and>
    pe_Type ev = PUT \<and> pk_Key (pe_Kv ev) = key \<and> pk_Value (pe_Kv ev) = val \<and> pk_ModRevision (pe_Kv ev) = r_rev r"
proof -
  have "Rev (ev_KV (rowEvent r)) = r_rev r" "0 < r_rev r"
    using rowEvent_Rev [OF assms(1)] assms(1) by (simp_all add: wf_row_def)
  then have "watchLoopStep wid (LoopEvents [rowEvent r]) False w =
      ([(watchResponse (r_rev r) wid)\<lparr>wr_Events := [toWatchEvent (rowEvent r)]\<rparr>], LoopGoOn, w)"
    by (simp add: watchLoopStep_def closedSentinel_def maxRev_def)
  moreover have "tsToRev (r_rev r) = r_rev r" using \<open>Rev (ev_KV (rowEvent r)) = r_rev r\<close> by (simp add: rowEvent_def scanKV_def)
  ultimately show ?thesis
    using assms(2) by (intro exI [of _ "toWatchEvent (rowEvent r)"])
      (simp add: toWatchEvent_def toProtoKV_def Let_def rowEvent_def scanKV_def written_def)
qed

text \<open>
  C16: a write reaches the clients that watch it.  When the poll loop has seen everything so far and
  nobody interferes, a \<open>Put\<close> takes effect, wakes the poll loop, and its poll puts one batch with
  exactly the event of this write on the channel of an open subscription whose watch covers the key;
  the watch sends its client a response with the key, the value and the revision that the writer was
  told, and the poll loop has seen everything again.
\<close>

theorem put_reaches_watch:
  assumes "steady 7 w" "w_notifyCh w = []" "pl_lastRev ps = current_rev (w_db w)" "compact_rev (w_db w) \<le> current_rev (w_db w)"
    and "distinct (wt_subscribers wt)" "s \<in> set (wt_subscribers wt)" "\<not> sub_closed (wt_sub wt s)" "sub_ch (wt_sub wt s) = []"
    and "sub_prefix (wt_sub wt s) = watchPrefix ckey rangeEnd"
      "rangeEnd \<in> {[], zero_byte, prefix_end ckey}" "in_range ckey rangeEnd (pr_Key req)"
  shows "case KV_Put req w of
      (Inl e, w1) \<Rightarrow> False
    | (Inr resp, w1) \<Rightarrow>
        (let rv = h_Revision (ps_Header resp)
         in abs_store (w_db w1) = a_put (pr_Key req) (pr_Value req) (pr_Lease req) rv (abs_store (w_db w)) \<and>
            (case pollStep NotifyCh ps wt w1 of
               (ps', wt', w2) \<Rightarrow>
                 pl_lastRev ps' = rv \<and>
                 (\<exists>batch ev. sub_ch (wt_sub wt' s) = [batch] \<and>
                    watchLoopStep wid (LoopEvents batch) False w2 =
                      ([(watchResponse rv wid)\<lparr>wr_Events := [ev]\<rparr>], LoopGoOn, w2) \<and>
                    pe_Type ev = PUT \<and> pk_Key (pe_Kv ev) = pr_Key req \<and> pk_Value (pe_Kv ev) = pr_Value req \<and>
                    pk_ModRevision (pe_Kv ev) = rv)))"
proof -
  have "steady (Suc (Suc (Suc (Suc 3)))) w" using assms(1) by (simp add: eval_nat_numeral)
  from Put_row [OF this, of req] obtain resp r w0 where
    put: "KV_Put req w = (Inr resp, after_write r w0)" "at_call w0 = w_db w" "w_notifyCh w0 = w_notifyCh w"
      "committed UNIV w0" "written r (pr_Key req) (pr_Value req) w0" "h_Revision (ps_Header resp) = r_rev r"
      "steady 3 (after_write r w0)"
      "abs_store (w_db (after_write r w0)) = a_put (pr_Key req) (pr_Value req) (pr_Lease req) (r_rev r) (abs_store (w_db w))"
    by blast
  obtain w2 where poll: "pollStep NotifyCh ps wt (after_write r w0) = (ps\<lparr>pl_lastRev := r_rev r\<rparr>, dispatchEvents [rowEvent r] wt, w2)"
    using poll_sees_write [OF put(7,4), of ps wt] put(2,3,5) assms(2-4) by (auto simp: written_def)
  have "wf_db (append_row r (w_db w))" using put(2,7) by (simp add: steady_def lone_def)
  then have row: "wf_row r" by (rule wf_dbD) simp
  have "prefix (TrimSuffix (sub_prefix (wt_sub wt s)) ''%'') (Key (ev_KV (rowEvent r)))"
    using watchPrefix_covers [OF assms(10,11)] assms(9) put(5) by (simp add: rowEvent_def scanKV_def written_def)
  then have "matching (wt_sub wt s) [rowEvent r] = [rowEvent r]" by (simp add: matching_def HasPrefix_iff Let_def)
  then have "sub_ch (wt_sub (dispatchEvents [rowEvent r] wt) s) = [[rowEvent r]]"
    using assms(6-8) dispatchEvents_sub [OF assms(5)]
    by (simp add: dispatchOne_def sendOrCancel_def trySend_def subChannelDepth_def)
  with response_of_write [OF row put(5), of wid w2] show ?thesis
    using put(1,6,8) poll by (simp add: Let_def)
qed

definition demo_put :: PutRequest where
  "demo_put = \<lparr>pr_Key = ''ab'', pr_Value = Some ''n'', pr_Lease = 0, pr_PrevKv = False, pr_IgnoreValue = False,
     pr_IgnoreLease = False\<rparr>"

theorem put_reaches_watch_witness:
  "case KV_Put demo_put (demo_world demo_db) of
      (Inl e, w1) \<Rightarrow> False
    | (Inr resp, w1) \<Rightarrow>
        (case pollStep NotifyCh \<lparr>pl_lastRev = 50, pl_interval = pollInterval, pl_running = True\<rparr>
            (snd (subscribe (watchPrefix ''a'' (prefix_end ''a'')) newWatcher)) w1 of
           (ps', wt', w2) \<Rightarrow> length (sub_ch (wt_sub wt' 0)) = 1)"
proof -
  let ?wt = "snd (subscribe (watchPrefix ''a'' (prefix_end ''a'')) newWatcher)"
  have "steady 7 (demo_world demo_db)" by (rule steady_mono [OF steady_demo]) simp
  moreover have "in_range ''a'' (prefix_end ''a'') ''ab''" by code_simp
  ultimately show ?thesis
    using put_reaches_watch [of "demo_world demo_db" "\<lparr>pl_lastRev = 50, pl_interval = pollInterval, pl_running = True\<rparr>"
        ?wt 0 "''a''" "prefix_end ''a''" demo_put 0]
    by (fastforce simp: demo_put_def current_rev_demo compact_rev_demo subscribe_def newWatcher_def Let_def
        split: prod.splits sum.splits)
qed

end
